(* ===== verification/Prelude.thy ===== *)
theory Prelude
  imports Main "HOL-Library.Word"
begin

text \<open>
  What every component of the development shares.

  \<^item> Go errors as values: one datatype \<open>err\<close> with a constructor per way the library builds an
    error, \<open>unwrap\<close> for the errors an error's \<^verbatim>\<open>Unwrap\<close> method exposes, \<open>is_sentinel\<close> for
    \<^verbatim>\<open>errors.Is\<close> against a package sentinel, and \<open>errors_join\<close> for \<^verbatim>\<open>errors.Join\<close>.
  \<^item> Application callbacks (Guards, effects, observers, lifecycle actions) as state
    transformers over an arbitrary application world, which may return, panic or stop their
    goroutine with \<^verbatim>\<open>runtime.Goexit\<close>: type \<open>act\<close> with \<open>ret\<close> and \<open>bindA\<close>.
  \<^item> Go maps as partial functions with slice values, and lists in first-mention order.

  The message text of an error (what \<^verbatim>\<open>Error()\<close> prints) and the text of a stack trace are not
  part of the model; the structure that \<^verbatim>\<open>errors.Is\<close> and \<^verbatim>\<open>errors.As\<close> see is.
\<close>

type_synonym u64 = "64 word"

named_theorems act_simps \<open>unfolding of callback actions\<close>
named_theorems outcome_dest \<open>facts read off a returned outcome\<close>

section \<open>Errors\<close>

datatype sentinel =
    ErrNotPermitted | ErrInvalidKey | ErrInFlight
  | ErrObserverFailed | ErrObserverTimeout
  | ErrReentrant | ErrExecutionStopped | ErrNotRunning | ErrWrongRuntime
  | ErrRootLimit | ErrRunLimit | ErrInvalidLimits
  | ErrConflict | ErrNotFound | ErrNoStore | ErrInvalidStoreKey
  | ErrStoreContract | ErrStepRepeated | ErrStepNotCalled | ErrStepFailed
  | ErrStepIncomplete | ErrStateMismatch
  | ErrContextDone

text \<open>
  \<open>AppErr n es\<close> is an application-defined error with identity \<open>n\<close> whose \<^verbatim>\<open>Unwrap\<close> yields
  \<open>es\<close>; an application may wrap library errors, so \<open>es\<close> is arbitrary.
  \<open>Wrapf e\<close> is \<^verbatim>\<open>fmt.Errorf\<close> with one \<^verbatim>\<open>%w\<close> operand. A recovered panic value is either an
  error or some other value. \<open>ActionError\<close> holds the lifecycle phase as the code's
  \<^verbatim>\<open>uint8\<close> value (0 exit, 1 effect, 2 entry).
\<close>

datatype ('s, 'e) err =
    Sentinel sentinel
  | AppErr nat "('s, 'e) err list"
  | Joined "('s, 'e) err list"
  | Wrapf "('s, 'e) err"
  | Refusal 's 'e "('s, 'e) err list"
  | ObserverError nat u64 "('s, 'e) pval option" bool
  | ActionError nat bool "'s option" nat nat "('s, 'e) err"
  | ConflictError u64 u64
and ('s, 'e) pval =
    PErr "('s, 'e) err"
  | PVal nat

fun unwrap :: "('s, 'e) err \<Rightarrow> ('s, 'e) err list" where
  "unwrap (Sentinel s) = []"
| "unwrap (AppErr n es) = es"
| "unwrap (Joined es) = es"
| "unwrap (Wrapf e) = [e]"
| "unwrap (Refusal s v es) = es"
| "unwrap (ObserverError i q (Some (PErr e)) b) = [Sentinel ErrObserverFailed, e]"
| "unwrap (ObserverError i q v b) = [Sentinel ErrObserverFailed]"
| "unwrap (ActionError ph c st ix n e) = [e]"
| "unwrap (ConflictError x a) = [Sentinel ErrConflict]"

definition err_rank :: "('s, 'e) err \<Rightarrow> nat" where
  "err_rank e = (case e of Sentinel _ \<Rightarrow> 0 | _ \<Rightarrow> Suc (size e))"

lemma unwrap_rank: "x \<in> set (unwrap e) \<Longrightarrow> err_rank x < err_rank e"
  by (induction e rule: unwrap.induct)
     (auto dest: size_list_estimation' [where f = size, OF _ order_refl]
        simp: less_Suc_eq_le err_rank_def split: err.splits)

text \<open>\<^verbatim>\<open>errors.Is(e, sentinel)\<close>: the error itself or anything its unwrap tree reaches.\<close>

function is_sentinel :: "sentinel \<Rightarrow> ('s, 'e) err \<Rightarrow> bool" where
  "is_sentinel s e = (e = Sentinel s \<or> list_ex (is_sentinel s) (unwrap e))"
  by pat_completeness auto
termination
  by (relation "measure (\<lambda>(s, e). err_rank e)") (auto simp: unwrap_rank)

declare is_sentinel.simps [simp del]

lemma is_sentinel_self [simp]: "is_sentinel s (Sentinel t) = (s = t)"
  by (subst is_sentinel.simps) auto

lemma is_sentinel_Joined [simp]: "is_sentinel s (Joined es) = list_ex (is_sentinel s) es"
  by (subst is_sentinel.simps) simp

lemma is_sentinel_Wrapf [simp]: "is_sentinel s (Wrapf e) = is_sentinel s e"
  by (subst is_sentinel.simps) simp

lemma is_sentinel_Refusal [simp]:
  "is_sentinel s (Refusal x v es) = list_ex (is_sentinel s) es"
  by (subst is_sentinel.simps) simp

lemma is_sentinel_ActionError [simp]:
  "is_sentinel s (ActionError ph c st ix n e) = is_sentinel s e"
  by (subst is_sentinel.simps) simp

lemma is_sentinel_ConflictError [simp]:
  "is_sentinel s (ConflictError x a) = (s = ErrConflict)"
  by (subst is_sentinel.simps) auto

lemma is_sentinel_ObserverError [simp]:
  "is_sentinel s (ObserverError i q v b) =
     (s = ErrObserverFailed \<or> (\<exists>e. v = Some (PErr e) \<and> is_sentinel s e))"
  by (cases "ObserverError i q v b" rule: unwrap.cases; subst is_sentinel.simps) auto

text \<open>\<^verbatim>\<open>errors.Join\<close> drops nil operands and is nil when nothing is left.\<close>

fun present :: "'a option list \<Rightarrow> 'a list" where
  "present [] = []"
| "present (None # xs) = present xs"
| "present (Some x # xs) = x # present xs"

lemma set_present: "x \<in> set (present xs) \<longleftrightarrow> Some x \<in> set xs"
  by (induction xs rule: present.induct) auto

lemma present_append [simp]: "present (xs @ ys) = present xs @ present ys"
  by (induction xs rule: present.induct) auto

lemma present_map_Some [simp]: "present (map Some xs) = xs"
  by (induction xs) auto

lemma present_Nil_iff [simp]: "present xs = [] \<longleftrightarrow> (\<forall>x \<in> set xs. x = None)"
  by (induction xs rule: present.induct) auto

definition errors_join :: "('s, 'e) err option list \<Rightarrow> ('s, 'e) err option" where
  "errors_join es = (case present es of [] \<Rightarrow> None | x # xs \<Rightarrow> Some (Joined (x # xs)))"

lemma errors_join_Nil [simp]: "errors_join [] = None"
  by (simp add: errors_join_def)

lemma errors_join_None [simp]: "errors_join (None # es) = errors_join es"
  by (simp add: errors_join_def)

lemma errors_join_Some: "errors_join (Some e # es) = Some (Joined (e # present es))"
  by (simp add: errors_join_def)

lemma errors_join_Joined: "errors_join es = Some j \<Longrightarrow> j = Joined (present es)"
  by (auto simp: errors_join_def split: list.splits)

lemma errors_join_eq_None [simp]: "errors_join es = None \<longleftrightarrow> (\<forall>e \<in> set es. e = None)"
  by (simp add: errors_join_def split: list.splits flip: present_Nil_iff)

lemma errors_join_is_sentinel:
  "errors_join es = Some j \<Longrightarrow> is_sentinel s j \<longleftrightarrow> (\<exists>e. Some e \<in> set es \<and> is_sentinel s e)"
  by (drule errors_join_Joined) (auto simp: list_ex_iff set_present)

section \<open>Callbacks\<close>

text \<open>
  A callback receives the application world and leaves a new one. It returns a value, panics
  with a value, or stops its goroutine. A callback that never returns keeps the call that
  runs it from returning; such a call has no outcome.
\<close>

datatype ('s, 'e, 'a) outcome = Ret 'a | Panic "('s, 'e) pval" | Goexit

type_synonym ('s, 'e, 'w, 'a) act = "'w \<Rightarrow> 'w \<times> ('s, 'e, 'a) outcome"

definition ret :: "'a \<Rightarrow> ('s, 'e, 'w, 'a) act" where
  [act_simps]: "ret a = (\<lambda>w. (w, Ret a))"

definition bindA ::
    "('s, 'e, 'w, 'a) act \<Rightarrow> ('a \<Rightarrow> ('s, 'e, 'w, 'b) act) \<Rightarrow> ('s, 'e, 'w, 'b) act" where
  [act_simps]: "bindA m f =
     (\<lambda>w. case m w of
            (w', Ret a) \<Rightarrow> f a w'
          | (w', Panic v) \<Rightarrow> (w', Panic v)
          | (w', Goexit) \<Rightarrow> (w', Goexit))"

lemma bindA_ret [simp]: "bindA (ret a) f = f a"
  by (simp add: act_simps)

lemma bindA_ret_right [simp]: "bindA m ret = m"
  by (rule ext) (simp add: act_simps split: prod.splits outcome.splits)

lemma bindA_assoc: "bindA (bindA m f) g = bindA m (\<lambda>a. bindA (f a) g)"
  by (rule ext) (simp add: act_simps split: prod.splits outcome.splits)

lemma bindA_returns [outcome_dest]:
  "bindA m f w = (w'', Ret b) \<Longrightarrow> \<exists>w' a. m w = (w', Ret a) \<and> f a w' = (w'', Ret b)"
  by (auto simp: bindA_def split: prod.splits outcome.splits)

text \<open>A callback is pure where it returns a value that depends on the world but leaves it alone.\<close>

definition pure_act :: "('s, 'e, 'w, 'a) act \<Rightarrow> bool" where
  "pure_act m \<longleftrightarrow> (\<forall>w. \<exists>a. m w = (w, Ret a))"

lemma pure_actE:
  assumes "pure_act m"
  obtains a where "m w = (w, Ret a)"
  using assms by (auto simp: pure_act_def)

lemma pure_ret [simp]: "pure_act (ret a)"
  by (simp add: pure_act_def ret_def)

section \<open>Maps with slice values, and first-mention order\<close>

text \<open>Reading a missing key of a Go map of slices yields the nil slice.\<close>

definition slice :: "('k \<rightharpoonup> 'v list) \<Rightarrow> 'k \<Rightarrow> 'v list" where
  "slice m k = (case m k of None \<Rightarrow> [] | Some xs \<Rightarrow> xs)"

definition append_at :: "('k \<rightharpoonup> 'v list) \<Rightarrow> 'k \<Rightarrow> 'v \<Rightarrow> ('k \<rightharpoonup> 'v list)" where
  "append_at m k v = m(k \<mapsto> slice m k @ [v])"

lemma slice_empty [simp]: "slice Map.empty k = []"
  by (simp add: slice_def)

lemma slice_append_at [simp]:
  "slice (append_at m k v) k' = (if k' = k then slice m k @ [v] else slice m k')"
  by (simp add: append_at_def slice_def)

lemma dom_append_at [simp]: "dom (append_at m k v) = insert k (dom m)"
  by (simp add: append_at_def)

lemma fresh_upd:
  "(\<forall>x \<in> A. (m(k \<mapsto> i)) (f x) = None) \<longleftrightarrow> k \<notin> f ` A \<and> (\<forall>x \<in> A. m (f x) = None)"
  by auto

text \<open>The elements of a list, each once, in the order of their first occurrence.\<close>

fun first_mentions :: "'a list \<Rightarrow> 'a list" where
  "first_mentions [] = []"
| "first_mentions (x # xs) = x # removeAll x (first_mentions xs)"

lemma set_first_mentions [simp]: "set (first_mentions xs) = set xs"
  by (induction xs) auto

lemma distinct_first_mentions [simp]: "distinct (first_mentions xs)"
  by (induction xs) (auto simp: distinct_removeAll)

lemma first_mentions_snoc:
  "first_mentions (xs @ [x]) =
     (if x \<in> set xs then first_mentions xs else first_mentions xs @ [x])"
  by (induction xs) auto

end
