(* ===== verification/Keycheck.thy ===== *)
theory Keycheck
  imports Prelude
begin

text \<open>
  \<^verbatim>\<open>internal/keycheck/keycheck.go\<close>: which Go types and values may be used as map keys.

  \<open>gtype\<close> is a Go type as \<^verbatim>\<open>reflect\<close> describes it and \<open>gvalue\<close> a value; \<open>go_eq\<close> is Go's
  \<open>==\<close>, with \<open>None\<close> for its run-time panic on an uncomparable dynamic value, and
  \<open>comparable_v\<close> is \<^verbatim>\<open>reflect.Value.Comparable\<close>. \<open>strict\<close>, \<open>reflexive\<close> and \<open>Value\<close>
  are the package's own functions. A float is NaN or one of the other values up to \<open>==\<close>
  (so the two zeros are one value). \<open>canon\<close> drops the blank fields \<open>==\<close> ignores.

  The lemmas show that the type-level fast path is exact for strict types
  (\<open>reflexive_iff_all_values_valid\<close>), that the checks never panic, and that \<open>==\<close> on valid
  values of a strict type is equality of canonical forms (\<open>go_eq_canon\<close>). The last fact is
  why the other theories use HOL's equality on state and event values. They see a key type
  as a \<open>keyops\<close> record, which \<open>keyops_of\<close> builds from a Go type; the locale \<open>key_type\<close> is
  the law those theories rely on.
\<close>

section \<open>Go types and values\<close>

datatype gtype =
    TBool | TInt | TString | TFloat | TComplex | TPointer
  | TInterface | TSlice | TMap | TFunc
  | TArray nat gtype
  | TStruct "(string \<times> gtype) list"

datatype gfloat = NaN | Flt int

datatype gvalue =
    VBool bool | VInt int | VString string | VFloat gfloat | VComplex gfloat gfloat
  | VPointer nat
  | VIface "(gtype \<times> gvalue) option"
  | VSlice | VMap | VFunc
  | VArray "gvalue list"
  | VStruct "(string \<times> gvalue) list"

fun type_comparable :: "gtype \<Rightarrow> bool" where
  "type_comparable (TArray n t) = type_comparable t"
| "type_comparable (TStruct fs) = list_all (\<lambda>(n, t). type_comparable t) fs"
| "type_comparable t = (t \<noteq> TSlice \<and> t \<noteq> TMap \<and> t \<noteq> TFunc)"

fun has_type :: "gvalue \<Rightarrow> gtype \<Rightarrow> bool" where
  "has_type (VBool _) t = (t = TBool)"
| "has_type (VInt _) t = (t = TInt)"
| "has_type (VString _) t = (t = TString)"
| "has_type (VFloat _) t = (t = TFloat)"
| "has_type (VComplex _ _) t = (t = TComplex)"
| "has_type (VPointer _) t = (t = TPointer)"
| "has_type (VIface None) t = (t = TInterface)"
| "has_type (VIface (Some (d, v))) t = (t = TInterface \<and> d \<noteq> TInterface \<and> has_type v d)"
| "has_type VSlice t = (t = TSlice)"
| "has_type VMap t = (t = TMap)"
| "has_type VFunc t = (t = TFunc)"
| "has_type (VArray vs) t =
     (case t of TArray n e \<Rightarrow> length vs = n \<and> list_all (\<lambda>v. has_type v e) vs | _ \<Rightarrow> False)"
| "has_type (VStruct fs) t =
     (case t of
        TStruct ts \<Rightarrow> list_all2 (\<lambda>(n, v) (m, u). n = m \<and> has_type v u) fs ts
      | _ \<Rightarrow> False)"

text \<open>
  Go's \<open>==\<close> on two values of one type. Interface values compare their dynamic types first;
  equal dynamic types that are not comparable panic. Arrays and structs compare in order and
  stop at the first difference; blank fields are skipped.
\<close>

definition feq :: "gfloat \<Rightarrow> gfloat \<Rightarrow> bool" where
  "feq x y \<longleftrightarrow> x \<noteq> NaN \<and> x = y"

fun and_then :: "bool option \<Rightarrow> bool option \<Rightarrow> bool option" where
  "and_then None _ = None"
| "and_then (Some False) _ = Some False"
| "and_then (Some True) r = r"

fun go_eq :: "gvalue \<Rightarrow> gvalue \<Rightarrow> bool option"
  and go_eq_elems :: "gvalue list \<Rightarrow> gvalue list \<Rightarrow> bool option"
  and go_eq_fields :: "(string \<times> gvalue) list \<Rightarrow> (string \<times> gvalue) list \<Rightarrow> bool option"
  where
  "go_eq (VBool a) w = (case w of VBool b \<Rightarrow> Some (a = b) | _ \<Rightarrow> Some False)"
| "go_eq (VInt a) w = (case w of VInt b \<Rightarrow> Some (a = b) | _ \<Rightarrow> Some False)"
| "go_eq (VString a) w = (case w of VString b \<Rightarrow> Some (a = b) | _ \<Rightarrow> Some False)"
| "go_eq (VFloat a) w = (case w of VFloat b \<Rightarrow> Some (feq a b) | _ \<Rightarrow> Some False)"
| "go_eq (VComplex a c) w =
     (case w of VComplex b d \<Rightarrow> Some (feq a b \<and> feq c d) | _ \<Rightarrow> Some False)"
| "go_eq (VPointer a) w = (case w of VPointer b \<Rightarrow> Some (a = b) | _ \<Rightarrow> Some False)"
| "go_eq (VIface None) w = (case w of VIface None \<Rightarrow> Some True | _ \<Rightarrow> Some False)"
| "go_eq (VIface (Some (d, v))) w =
     (case w of
        VIface (Some (d', v')) \<Rightarrow>
          if d \<noteq> d' then Some False
          else if \<not> type_comparable d then None else go_eq v v'
      | _ \<Rightarrow> Some False)"
| "go_eq (VArray xs) w = (case w of VArray ys \<Rightarrow> go_eq_elems xs ys | _ \<Rightarrow> Some False)"
| "go_eq (VStruct xs) w = (case w of VStruct ys \<Rightarrow> go_eq_fields xs ys | _ \<Rightarrow> Some False)"
| "go_eq VSlice w = None"
| "go_eq VMap w = None"
| "go_eq VFunc w = None"
| "go_eq_elems [] ys = Some (ys = [])"
| "go_eq_elems (x # xs) ys =
     (case ys of [] \<Rightarrow> Some False | y # ys' \<Rightarrow> and_then (go_eq x y) (go_eq_elems xs ys'))"
| "go_eq_fields [] ys = Some (ys = [])"
| "go_eq_fields (f # xs) ys =
     (case ys of
        [] \<Rightarrow> Some False
      | g # ys' \<Rightarrow>
          if fst f = ''_'' then go_eq_fields xs ys'
          else and_then (go_eq (snd f) (snd g)) (go_eq_fields xs ys'))"

fun comparable_v :: "gvalue \<Rightarrow> bool" where
  "comparable_v (VIface (Some (d, v))) = (type_comparable d \<and> comparable_v v)"
| "comparable_v (VArray vs) = list_all comparable_v vs"
| "comparable_v (VStruct fs) = list_all (\<lambda>(n, v). comparable_v v) fs"
| "comparable_v v = (v \<noteq> VSlice \<and> v \<noteq> VMap \<and> v \<noteq> VFunc)"

section \<open>The package's functions\<close>

fun strict :: "gtype \<Rightarrow> bool" where
  "strict TInterface = False"
| "strict (TArray n t) = strict t"
| "strict (TStruct fs) = list_all (\<lambda>(n, t). strict t) fs"
| "strict _ = True"

fun reflexive :: "gtype \<Rightarrow> bool" where
  "reflexive TInterface = False"
| "reflexive TFloat = False"
| "reflexive TComplex = False"
| "reflexive (TArray n t) = (n = 0 \<or> reflexive t)"
| "reflexive (TStruct fs) = list_all (\<lambda>(n, t). n = ''_'' \<or> reflexive t) fs"
| "reflexive _ = True"

text \<open>The comparability check comes first, so the comparison is reached only when it is safe.\<close>

definition Value :: "gvalue \<Rightarrow> bool" where
  "Value v = (comparable_v v \<and> go_eq v v = Some True)"

section \<open>Comparable values compare without a panic\<close>

lemma and_then_Some [simp]: "and_then (Some b) r = (if b then r else Some False)"
  by (cases b) auto

lemma some_bool_is_False [simp]: "Ex Not"
  by (rule exI [of _ False]) simp

lemma and_then_eq_None [simp]: "and_then a b = None \<longleftrightarrow> a = None \<or> (a = Some True \<and> b = None)"
  by (cases "(a, b)" rule: and_then.cases) auto

lemma and_then_True [simp]: "and_then a b = Some True \<longleftrightarrow> a = Some True \<and> b = Some True"
  by (cases "(a, b)" rule: and_then.cases) auto

lemma comparable_no_panic:
  shows "comparable_v v \<Longrightarrow> go_eq v w \<noteq> None"
    and "list_all comparable_v vs \<Longrightarrow> go_eq_elems vs ws \<noteq> None"
    and "list_all (\<lambda>(n, v). comparable_v v) fs \<Longrightarrow> go_eq_fields fs gs \<noteq> None"
  by (induction v w and vs ws and fs gs rule: go_eq_go_eq_elems_go_eq_fields.induct)
     (auto split: if_splits gvalue.splits list.splits option.splits)

lemma strict_comparable_v:
  "strict t \<Longrightarrow> type_comparable t \<Longrightarrow> has_type v t \<Longrightarrow> comparable_v v"
proof (induction v arbitrary: t)
  case (VArray vs)
  then show ?case by (auto split: gtype.splits simp: list_all_iff)
next
  case (VStruct fs)
  from VStruct.prems obtain ts where t: "t = TStruct ts"
    and ty: "list_all2 (\<lambda>(n, v) (m, u). n = m \<and> has_type v u) fs ts"
    by (auto split: gtype.splits)
  have "comparable_v v" if nv: "(n, v) \<in> set fs" for n v
  proof -
    from ty nv obtain u where "(n, u) \<in> set ts" and "has_type v u"
      by (fastforce simp: list_all2_conv_all_nth in_set_conv_nth)
    then show ?thesis
      using VStruct.IH [OF nv] VStruct.prems(1,2) t by (fastforce simp: list_all_iff)
  qed
  then show ?case by (auto simp: list_all_iff)
next
  case (VIface x)
  then show ?case by (cases x) auto
qed auto

section \<open>The type-level fast path\<close>

lemma go_eq_fields_refl_iff:
  "go_eq_fields fs fs = Some True \<longleftrightarrow>
     (\<forall>(n, v) \<in> set fs. n = ''_'' \<or> go_eq v v = Some True)"
  by (induction fs) auto

lemma go_eq_elems_refl_iff:
  "go_eq_elems vs vs = Some True \<longleftrightarrow> (\<forall>v \<in> set vs. go_eq v v = Some True)"
  by (induction vs) auto

lemma reflexive_go_eq:
  "reflexive t \<Longrightarrow> type_comparable t \<Longrightarrow> has_type v t \<Longrightarrow> go_eq v v = Some True"
proof (induction v arbitrary: t)
  case (VArray vs)
  then show ?case
    by (auto simp: go_eq_elems_refl_iff list_all_iff split: gtype.splits)
next
  case (VStruct fs)
  from VStruct.prems obtain ts where t: "t = TStruct ts"
    and ty: "list_all2 (\<lambda>(n, v) (m, u). n = m \<and> has_type v u) fs ts"
    by (auto split: gtype.splits)
  have "n = ''_'' \<or> go_eq v v = Some True" if nv: "(n, v) \<in> set fs" for n v
  proof -
    from ty nv obtain u where "(n, u) \<in> set ts" and "has_type v u"
      by (fastforce simp: list_all2_conv_all_nth in_set_conv_nth)
    then show ?thesis
      using VStruct.IH [OF nv] VStruct.prems(1,2) t by (fastforce simp: list_all_iff)
  qed
  then show ?case by (auto simp: go_eq_fields_refl_iff)
next
  case (VIface x)
  then show ?case by (cases x) auto
qed (auto simp: feq_def)

text \<open>
  Every comparable type has values, and a type the package calls not reflexive has one that
  fails the value check. \<open>zero_of\<close> is Go's zero value; \<open>nan_of\<close> puts a NaN where it can.
\<close>

fun zero_of :: "gtype \<Rightarrow> gvalue" where
  "zero_of TBool = VBool False"
| "zero_of TInt = VInt 0"
| "zero_of TString = VString []"
| "zero_of TFloat = VFloat (Flt 0)"
| "zero_of TComplex = VComplex (Flt 0) (Flt 0)"
| "zero_of TPointer = VPointer 0"
| "zero_of TInterface = VIface None"
| "zero_of TSlice = VSlice"
| "zero_of TMap = VMap"
| "zero_of TFunc = VFunc"
| "zero_of (TArray n t) = VArray (replicate n (zero_of t))"
| "zero_of (TStruct fs) = VStruct (map (\<lambda>(n, t). (n, zero_of t)) fs)"

fun nan_of :: "gtype \<Rightarrow> gvalue" where
  "nan_of TFloat = VFloat NaN"
| "nan_of TComplex = VComplex NaN NaN"
| "nan_of TInterface = VIface (Some (TFloat, VFloat NaN))"
| "nan_of (TArray n t) = VArray (replicate n (nan_of t))"
| "nan_of (TStruct fs) = VStruct (map (\<lambda>(n, t). (n, nan_of t)) fs)"
| "nan_of t = zero_of t"

lemma zero_of_has_type: "has_type (zero_of t) t"
  by (induction t rule: zero_of.induct)
     (auto simp: list_all_iff list_all2_conv_all_nth split: prod.splits dest: nth_mem)

lemma nan_of_has_type: "has_type (nan_of t) t"
  by (induction t rule: nan_of.induct)
     (auto simp: list_all_iff list_all2_conv_all_nth split: prod.splits dest: nth_mem)

lemma nan_of_invalid: "\<not> reflexive t \<Longrightarrow> go_eq (nan_of t) (nan_of t) \<noteq> Some True"
proof (induction t rule: nan_of.induct)
  case (5 fs)
  then show ?case
    by (fastforce simp: go_eq_fields_refl_iff list_all_iff)
qed (auto simp: feq_def go_eq_elems_refl_iff)

lemma reflexive_iff_all_values_valid:
  assumes "strict t" "type_comparable t"
  shows "reflexive t \<longleftrightarrow> (\<forall>v. has_type v t \<longrightarrow> Value v)"
  using assms reflexive_go_eq strict_comparable_v nan_of_has_type nan_of_invalid
  unfolding Value_def by blast

section \<open>Go equality is equality of canonical forms\<close>

fun canon :: "gvalue \<Rightarrow> gvalue" where
  "canon (VArray vs) = VArray (map canon vs)"
| "canon (VStruct fs) = VStruct (map (\<lambda>(n, v). if n = ''_'' then (n, VBool False) else (n, canon v)) fs)"
| "canon v = v"

lemma go_eq_elems_conv:
  "length vs = length ws \<Longrightarrow> (\<And>v w. v \<in> set vs \<Longrightarrow> w \<in> set ws \<Longrightarrow> go_eq v w = Some (canon v = canon w)) \<Longrightarrow>
     go_eq_elems vs ws = Some (map canon vs = map canon ws)"
proof (induction vs ws rule: list_induct2)
  case (Cons v vs w ws)
  then show ?case by (cases "canon v = canon w") auto
qed simp

lemma go_eq_fields_conv:
  assumes "list_all2 (\<lambda>(n, v) (m, w). n = m \<and> (n \<noteq> ''_'' \<longrightarrow> go_eq v w = Some (canon v = canon w))) fs gs"
  shows "go_eq_fields fs gs = Some (canon (VStruct fs) = canon (VStruct gs))"
  using assms
proof (induction fs gs rule: list_all2_induct)
  case (Cons f fs g gs)
  obtain n v m w where "f = (n, v)" "g = (m, w)" by (cases f; cases g)
  with Cons show ?case by (cases "canon v = canon w") auto
qed simp

lemma list_all2_common:
  assumes "list_all2 P xs ts" "list_all2 Q ys ts"
  shows "list_all2 (\<lambda>x y. \<exists>t \<in> set ts. P x t \<and> Q y t) xs ys"
  using assms unfolding list_all2_conv_all_nth by (metis nth_mem)

lemma has_type_iff:
  "has_type v TBool \<longleftrightarrow> (\<exists>b. v = VBool b)" "has_type v TInt \<longleftrightarrow> (\<exists>i. v = VInt i)"
  "has_type v TString \<longleftrightarrow> (\<exists>s. v = VString s)" "has_type v TFloat \<longleftrightarrow> (\<exists>x. v = VFloat x)"
  "has_type v TComplex \<longleftrightarrow> (\<exists>x y. v = VComplex x y)"
  "has_type v TPointer \<longleftrightarrow> (\<exists>n. v = VPointer n)"
  "has_type v (TArray n t) \<longleftrightarrow> (\<exists>vs. v = VArray vs \<and> length vs = n \<and> (\<forall>v \<in> set vs. has_type v t))"
  "has_type v (TStruct ts) \<longleftrightarrow>
     (\<exists>fs. v = VStruct fs \<and> list_all2 (\<lambda>(n, v) (m, u). n = m \<and> has_type v u) fs ts)"
  by (cases v; auto simp: list_all_iff elim!: has_type.elims)+

lemma go_eq_canon:
  "strict t \<Longrightarrow> type_comparable t \<Longrightarrow> has_type v t \<Longrightarrow> has_type w t \<Longrightarrow>
     go_eq v v = Some True \<Longrightarrow> go_eq v w = Some (canon v = canon w)"
proof (induction t arbitrary: v w)
  case (TArray n t)
  then show ?case
    by (auto simp: has_type_iff go_eq_elems_refl_iff intro!: go_eq_elems_conv)
next
  case (TStruct ts)
  then obtain fs gs where vw: "v = VStruct fs" "w = VStruct gs"
    and fs: "list_all2 (\<lambda>(n, v) (m, u). n = m \<and> has_type v u) fs ts"
    and gs: "list_all2 (\<lambda>(n, v) (m, u). n = m \<and> has_type v u) gs ts"
    by (auto simp: has_type_iff)
  have refl: "\<And>n v. (n, v) \<in> set fs \<Longrightarrow> n \<noteq> ''_'' \<Longrightarrow> go_eq v v = Some True"
    using TStruct.prems(5) vw by (auto simp: go_eq_fields_refl_iff)
  have "list_all2 (\<lambda>(n, v) (m, w). n = m \<and> (n \<noteq> ''_'' \<longrightarrow> go_eq v w = Some (canon v = canon w))) fs gs"
    using list_all2_common [OF fs gs]
  proof (rule list.rel_mono_strong)
    fix f g
    assume f: "f \<in> set fs" and "\<exists>t \<in> set ts. (\<lambda>(n, v) (m, u). n = m \<and> has_type v u) f t \<and>
      (\<lambda>(n, v) (m, u). n = m \<and> has_type v u) g t"
    then obtain n v w u where fg: "f = (n, v)" "g = (n, w)" "(n, u) \<in> set ts"
      and ty: "has_type v u" "has_type w u"
      by (cases f; cases g) auto
    have "go_eq v w = Some (canon v = canon w)" if "n \<noteq> ''_''"
      using TStruct.IH [OF fg(3), of u] TStruct.prems(1,2) fg f ty refl that
      by (force simp: list_all_iff)
    with fg show "(\<lambda>(n, v) (m, w). n = m \<and> (n \<noteq> ''_'' \<longrightarrow> go_eq v w = Some (canon v = canon w))) f g"
      by simp
  qed
  then show ?case using go_eq_fields_conv vw by simp
qed (auto simp: has_type_iff feq_def)

section \<open>What the other components see of a key type\<close>

record 'k keyops =
  strict_type :: bool
  reflexive_type :: bool
  key_ok :: "'k \<Rightarrow> bool"

definition keyops_of :: "gtype \<Rightarrow> gvalue keyops" where
  "keyops_of t =
     \<lparr>strict_type = strict t, reflexive_type = reflexive t, key_ok = Value\<rparr>"

locale key_type =
  fixes K :: "'k keyops" and inhabits :: "'k \<Rightarrow> bool"
  assumes fast_path: "strict_type K \<Longrightarrow> reflexive_type K \<Longrightarrow> inhabits v \<Longrightarrow> key_ok K v"
begin

lemma check_skippable:
  assumes "strict_type K" "inhabits v"
  shows "(\<not> reflexive_type K \<and> \<not> key_ok K v) = (\<not> key_ok K v)"
  using assms fast_path by blast

end

interpretation go_type: key_type "keyops_of t" "\<lambda>v. has_type v t \<and> type_comparable t" for t
  by unfold_locales
     (auto simp: keyops_of_def Value_def dest: reflexive_go_eq strict_comparable_v)

section \<open>Properties\<close>

text \<open>C39. For a type without interfaces the type-level check is exact: ReflexiveType holds exactly
  when every value of the type is comparable and equal to itself, so skipping the value check on
  a reflexive type never admits a bad key, and a type it calls not reflexive has a bad value.\<close>

theorem reflexive_type_check_exact:
  assumes "strict t" and "type_comparable t"
  shows "reflexive t \<longleftrightarrow> (\<forall>v. has_type v t \<longrightarrow> Value v)"
  by (rule reflexive_iff_all_values_valid [OF assms])

theorem reflexive_type_check_exact_witness:
  "\<exists>v. has_type v (TStruct [(''x'', TFloat), (''_'', TInt)]) \<and> \<not> Value v"
  using reflexive_type_check_exact [of "TStruct [(''x'', TFloat), (''_'', TInt)]"] by simp

text \<open>C40. Comparing a value that the value check accepts never panics, and on a type without
  interfaces Go's equality with such a value is equality of canonical forms, in which only blank
  fields are dropped; so lookups in Go maps with valid keys behave as lookups in maps.\<close>

theorem valid_keys_compare_structurally:
  assumes "strict t" and "type_comparable t" and "has_type v t" and "has_type w t" and "Value v"
  shows "go_eq v w = Some (canon v = canon w)"
  by (rule go_eq_canon [OF assms(1-4)]) (use assms(5) in \<open>simp add: Value_def\<close>)

theorem valid_keys_compare_structurally_witness:
  "go_eq (VStruct [(''a'', VInt 1), (''_'', VFloat NaN)])
         (VStruct [(''a'', VInt 1), (''_'', VFloat (Flt 3))]) = Some True"
proof -
  let ?t = "TStruct [(''a'', TInt), (''_'', TFloat)]"
  let ?v = "VStruct [(''a'', VInt 1), (''_'', VFloat NaN)]"
  have "Value ?v" by (simp add: Value_def)
  then show ?thesis
    using valid_keys_compare_structurally [of ?t ?v "VStruct [(''a'', VInt 1), (''_'', VFloat (Flt 3))]"]
    by simp
qed

end
