(* ===== verification/Machine.thy ===== *)
theory Machine
  imports Keycheck
begin

text \<open>
  \<^verbatim>\<open>statemachine.go\<close>: the compiled transition table.

  A \<open>transition\<close> is one row, with \<open>None\<close> for a nil Guard or Do; a \<open>machine\<close> is the compiled
  table: the rows of every (state, event) key and, per state, its events in first-mention
  order. \<open>Compile\<close> builds it row by row and stops at the first defect; \<open>selectTransition\<close>,
  \<open>Next\<close>, \<open>fire\<close> and \<open>Permitted\<close> are the methods. The type parameters S and E enter as the
  \<open>keyops\<close> records \<open>K\<close> and \<open>L\<close>. A range-over-func iterator is a fold: \<open>Permitted\<close> takes the
  loop body \<open>yield\<close> with an accumulator, and stops when \<open>yield\<close> answers \<open>False\<close>.

  The specification is the table itself: \<open>good_table\<close> says which tables compile and
  \<open>table_machine\<close> what they compile to, \<open>table_select\<close> which row an event selects. The lemmas
  show that \<open>Compile\<close> implements the first two (errors included), that selection is the first
  applicable row of the table with every reason in table order, that \<open>Next\<close> never runs a Do,
  and that \<open>Permitted\<close> offers exactly what \<open>Next\<close> accepts.
\<close>

section \<open>Rows and machines\<close>

type_synonym ('s, 'e, 'c, 't, 'w) callback =
  "'c \<Rightarrow> 't \<Rightarrow> ('s, 'e, 'w, ('s, 'e) err option) act"

record ('s, 'e, 'c, 't, 'w) transition =
  t_from :: 's
  t_event :: 'e
  t_to :: 's
  t_guard :: "('s, 'e, 'c, 't, 'w) callback option"
  t_do :: "('s, 'e, 'c, 't, 'w) callback option"

record ('s, 'e, 'c, 't, 'w) machine =
  m_rows :: "'s \<times> 'e \<rightharpoonup> ('s, 'e, 'c, 't, 'w) transition list"
  m_events :: "'s \<rightharpoonup> 'e list"
  m_reflexiveState :: bool
  m_reflexiveEvent :: bool

definition zero_machine :: "('s, 'e, 'c, 't, 'w) machine" where
  "zero_machine =
     \<lparr>m_rows = Map.empty, m_events = Map.empty, m_reflexiveState = False, m_reflexiveEvent = False\<rparr>"

definition row_key :: "('s, 'e, 'c, 't, 'w) transition \<Rightarrow> 's \<times> 'e" where
  "row_key t = (t_from t, t_event t)"

section \<open>Compile\<close>

datatype ('s, 'e) compile_error =
    StateTypeHasInterface
  | EventTypeHasInterface
  | InvalidKeyAt nat
  | UnreachableRow nat 's 'e nat

definition add_row ::
    "('s, 'e, 'c, 't, 'w) machine \<Rightarrow> ('s, 'e, 'c, 't, 'w) transition \<Rightarrow>
      ('s, 'e, 'c, 't, 'w) machine" where
  "add_row m t =
     m\<lparr>m_events := (case m_rows m (row_key t) of
                      None \<Rightarrow> append_at (m_events m) (t_from t) (t_event t)
                    | Some _ \<Rightarrow> m_events m),
       m_rows := append_at (m_rows m) (row_key t) t\<rparr>"

fun compile_rows ::
    "'s keyops \<Rightarrow> 'e keyops \<Rightarrow> nat \<Rightarrow> ('s, 'e, 'c, 't, 'w) transition list \<Rightarrow>
      ('s \<times> 'e \<rightharpoonup> nat) \<Rightarrow> ('s, 'e, 'c, 't, 'w) machine \<Rightarrow>
      ('s, 'e) compile_error + ('s, 'e, 'c, 't, 'w) machine" where
  "compile_rows K L i [] unguarded m = Inr m"
| "compile_rows K L i (t # ts) unguarded m =
     (if \<not> m_reflexiveState m \<and> (\<not> key_ok K (t_from t) \<or> \<not> key_ok K (t_to t)) \<or>
         \<not> m_reflexiveEvent m \<and> \<not> key_ok L (t_event t)
      then Inl (InvalidKeyAt i)
      else case unguarded (row_key t) of
        Some j \<Rightarrow> Inl (UnreachableRow i (t_from t) (t_event t) j)
      | None \<Rightarrow>
          compile_rows K L (Suc i) ts
            (if t_guard t = None then unguarded(row_key t \<mapsto> i) else unguarded)
            (add_row m t))"

definition Compile ::
    "'s keyops \<Rightarrow> 'e keyops \<Rightarrow> ('s, 'e, 'c, 't, 'w) transition list \<Rightarrow>
      ('s, 'e) compile_error + ('s, 'e, 'c, 't, 'w) machine" where
  "Compile K L transitions =
     (if \<not> strict_type K then Inl StateTypeHasInterface
      else if \<not> strict_type L then Inl EventTypeHasInterface
      else compile_rows K L 0 transitions Map.empty
             (zero_machine\<lparr>m_reflexiveState := reflexive_type K,
                           m_reflexiveEvent := reflexive_type L\<rparr>))"

section \<open>Selection, Next, fire\<close>

text \<open>The loop over one key's rows: \<open>Inl\<close> of the reasons when every row declined.\<close>

fun try_rows ::
    "'c \<Rightarrow> 't \<Rightarrow> ('s, 'e, 'c, 't, 'w) transition list \<Rightarrow> ('s, 'e) err list \<Rightarrow>
      ('s, 'e, 'w, ('s, 'e) err list + ('s, 'e, 'c, 't, 'w) transition) act" where
  "try_rows ctx data [] reasons = ret (Inl reasons)"
| "try_rows ctx data (t # rows) reasons =
     (case t_guard t of
        None \<Rightarrow> ret (Inr t)
      | Some guard \<Rightarrow>
          bindA (guard ctx data) (\<lambda>err.
          case err of
            Some reason \<Rightarrow> try_rows ctx data rows (reasons @ [reason])
          | None \<Rightarrow> ret (Inr t)))"

definition selectTransition ::
    "'s keyops \<Rightarrow> 'e keyops \<Rightarrow> ('s, 'e, 'c, 't, 'w) machine \<Rightarrow> 'c \<Rightarrow> 's \<Rightarrow> 'e \<Rightarrow> 't \<Rightarrow>
      ('s, 'e, 'w, ('s, 'e) err + ('s, 'e, 'c, 't, 'w) transition) act" where
  "selectTransition K L m ctx from event data =
     (if \<not> m_reflexiveState m \<and> \<not> key_ok K from \<or> \<not> m_reflexiveEvent m \<and> \<not> key_ok L event
      then ret (Inl (Sentinel ErrInvalidKey))
      else bindA (try_rows ctx data (slice (m_rows m) (from, event)) []) (\<lambda>r.
        case r of
          Inr t \<Rightarrow> ret (Inr t)
        | Inl reasons \<Rightarrow>
            ret (Inl (Refusal from event (Sentinel ErrNotPermitted # reasons)))))"

definition Next ::
    "'s keyops \<Rightarrow> 'e keyops \<Rightarrow> ('s, 'e, 'c, 't, 'w) machine \<Rightarrow> 'c \<Rightarrow> 's \<Rightarrow> 'e \<Rightarrow> 't \<Rightarrow>
      ('s, 'e, 'w, 's \<times> ('s, 'e) err option) act" where
  "Next K L m ctx from event data =
     bindA (selectTransition K L m ctx from event data) (\<lambda>r.
       case r of
         Inl err \<Rightarrow> ret (from, Some err)
       | Inr t \<Rightarrow> ret (t_to t, None))"

text \<open>The effect of a selected row, and the state the call reports.\<close>

definition run_do ::
    "'c \<Rightarrow> 't \<Rightarrow> 's \<Rightarrow> ('s, 'e, 'c, 't, 'w) transition \<Rightarrow>
      ('s, 'e, 'w, 's \<times> ('s, 'e) err option) act" where
  "run_do ctx data from t =
     (case t_do t of
        None \<Rightarrow> ret (t_to t, None)
      | Some effect \<Rightarrow>
          bindA (effect ctx data) (\<lambda>err.
          case err of
            Some e \<Rightarrow> ret (from, Some e)
          | None \<Rightarrow> ret (t_to t, None)))"

definition fire ::
    "'s keyops \<Rightarrow> 'e keyops \<Rightarrow> ('s, 'e, 'c, 't, 'w) machine \<Rightarrow> 'c \<Rightarrow> 's \<Rightarrow> 'e \<Rightarrow> 't \<Rightarrow>
      ('s, 'e, 'w, 's \<times> ('s, 'e) err option) act" where
  "fire K L m ctx from event data =
     bindA (selectTransition K L m ctx from event data) (\<lambda>r.
       case r of
         Inl err \<Rightarrow> ret (from, Some err)
       | Inr t \<Rightarrow> run_do ctx data from t)"

section \<open>Permitted\<close>

text \<open>The flag is \<open>False\<close> once the loop body has asked to stop.\<close>

fun permit_rows ::
    "'c \<Rightarrow> 't \<Rightarrow> ('e \<Rightarrow> 's \<Rightarrow> 'a \<Rightarrow> ('s, 'e, 'w, 'a \<times> bool) act) \<Rightarrow> 'e \<Rightarrow>
      ('s, 'e, 'c, 't, 'w) transition list \<Rightarrow> 'a \<Rightarrow> ('s, 'e, 'w, 'a \<times> bool) act" where
  "permit_rows ctx data yield event [] acc = ret (acc, True)"
| "permit_rows ctx data yield event (t # rows) acc =
     (case t_guard t of
        None \<Rightarrow> yield event (t_to t) acc
      | Some guard \<Rightarrow>
          bindA (guard ctx data) (\<lambda>err.
          case err of
            Some _ \<Rightarrow> permit_rows ctx data yield event rows acc
          | None \<Rightarrow> yield event (t_to t) acc))"

fun permit_events ::
    "('s, 'e, 'c, 't, 'w) machine \<Rightarrow> 'c \<Rightarrow> 's \<Rightarrow> 't \<Rightarrow>
      ('e \<Rightarrow> 's \<Rightarrow> 'a \<Rightarrow> ('s, 'e, 'w, 'a \<times> bool) act) \<Rightarrow> 'e list \<Rightarrow> 'a \<Rightarrow>
      ('s, 'e, 'w, 'a) act" where
  "permit_events m ctx from data yield [] acc = ret acc"
| "permit_events m ctx from data yield (event # events) acc =
     bindA (permit_rows ctx data yield event (slice (m_rows m) (from, event)) acc) (\<lambda>r.
       case r of (acc', go) \<Rightarrow>
         if go then permit_events m ctx from data yield events acc' else ret acc')"

definition Permitted ::
    "'s keyops \<Rightarrow> ('s, 'e, 'c, 't, 'w) machine \<Rightarrow> 'c \<Rightarrow> 's \<Rightarrow> 't \<Rightarrow>
      ('e \<Rightarrow> 's \<Rightarrow> 'a \<Rightarrow> ('s, 'e, 'w, 'a \<times> bool) act) \<Rightarrow> 'a \<Rightarrow> ('s, 'e, 'w, 'a) act" where
  "Permitted K m ctx from data yield acc =
     (if \<not> m_reflexiveState m \<and> \<not> key_ok K from then ret acc
      else permit_events m ctx from data yield (slice (m_events m) from) acc)"

text \<open>The loop body that copies every pair, as a caller that collects the sequence has it.\<close>

definition collect ::
    "'e \<Rightarrow> 's \<Rightarrow> ('e \<times> 's) list \<Rightarrow> ('s, 'e, 'w, ('e \<times> 's) list \<times> bool) act" where
  "collect event to acc = ret (acc @ [(event, to)], True)"

section \<open>The table as specification\<close>

definition keys_valid :: "'s keyops \<Rightarrow> 'e keyops \<Rightarrow> ('s, 'e, 'c, 't, 'w) transition \<Rightarrow> bool" where
  "keys_valid K L t \<longleftrightarrow>
     (reflexive_type K \<or> key_ok K (t_from t) \<and> key_ok K (t_to t)) \<and>
     (reflexive_type L \<or> key_ok L (t_event t))"

text \<open>Row \<open>j\<close> hides row \<open>i\<close>: it comes earlier, has the same key and no Guard.\<close>

definition hides :: "('s, 'e, 'c, 't, 'w) transition list \<Rightarrow> nat \<Rightarrow> nat \<Rightarrow> bool" where
  "hides ts j i \<longleftrightarrow> j < i \<and> row_key (ts ! j) = row_key (ts ! i) \<and> t_guard (ts ! j) = None"

definition good_table ::
    "'s keyops \<Rightarrow> 'e keyops \<Rightarrow> ('s, 'e, 'c, 't, 'w) transition list \<Rightarrow> bool" where
  "good_table K L ts \<longleftrightarrow>
     (\<forall>i < length ts. keys_valid K L (ts ! i) \<and> (\<forall>j < i. \<not> hides ts j i))"

definition table_rows ::
    "('s, 'e, 'c, 't, 'w) transition list \<Rightarrow> 's \<times> 'e \<Rightarrow> ('s, 'e, 'c, 't, 'w) transition list" where
  "table_rows ts k = filter (\<lambda>t. row_key t = k) ts"

definition table_events :: "('s, 'e, 'c, 't, 'w) transition list \<Rightarrow> 's \<Rightarrow> 'e list" where
  "table_events ts s = first_mentions (map t_event (filter (\<lambda>t. t_from t = s) ts))"

definition nonempty :: "'a list \<Rightarrow> 'a list option" where
  "nonempty xs = (if xs = [] then None else Some xs)"

definition table_machine ::
    "'s keyops \<Rightarrow> 'e keyops \<Rightarrow> ('s, 'e, 'c, 't, 'w) transition list \<Rightarrow>
      ('s, 'e, 'c, 't, 'w) machine" where
  "table_machine K L ts =
     \<lparr>m_rows = (\<lambda>k. nonempty (table_rows ts k)),
      m_events = (\<lambda>s. nonempty (table_events ts s)),
      m_reflexiveState = reflexive_type K, m_reflexiveEvent = reflexive_type L\<rparr>"

section \<open>Compile implements the table specification\<close>

text \<open>What the loop has built from the rows \<open>ts\<close> read so far.\<close>

definition first_unguarded :: "('s, 'e, 'c, 't, 'w) transition list \<Rightarrow> ('s \<times> 'e \<rightharpoonup> nat) \<Rightarrow> bool" where
  "first_unguarded ts ug \<longleftrightarrow>
     (\<forall>k j. ug k = Some j \<longleftrightarrow> j < length ts \<and> row_key (ts ! j) = k \<and> t_guard (ts ! j) = None)"

lemma table_rows_snoc:
  "table_rows (ts @ [t]) k = table_rows ts k @ (if row_key t = k then [t] else [])"
  by (simp add: table_rows_def)

lemma nonempty_slice [simp]: "slice (\<lambda>k. nonempty (f k)) k = f k"
  by (simp add: slice_def nonempty_def)

lemma table_events_snoc:
  "table_events (ts @ [t]) s =
     (if t_from t = s \<and> table_rows ts (row_key t) = []
      then table_events ts s @ [t_event t] else table_events ts s)"
  by (auto simp: table_events_def table_rows_def row_key_def first_mentions_snoc filter_empty_conv
      image_iff)

lemma add_row_table:
  "add_row (table_machine K L ts) t = table_machine K L (ts @ [t])"
proof -
  have "append_at (\<lambda>k. nonempty (table_rows ts k)) (row_key t) t =
      (\<lambda>k. nonempty (table_rows (ts @ [t]) k))"
    by (rule ext) (auto simp: append_at_def table_rows_snoc nonempty_def slice_def)
  moreover have "(case nonempty (table_rows ts (row_key t)) of
        None \<Rightarrow> append_at (\<lambda>s. nonempty (table_events ts s)) (t_from t) (t_event t)
      | Some _ \<Rightarrow> (\<lambda>s. nonempty (table_events ts s))) =
      (\<lambda>s. nonempty (table_events (ts @ [t]) s))"
    by (rule ext)
       (auto simp: append_at_def table_events_snoc nonempty_def slice_def split: option.splits if_splits)
  ultimately show ?thesis
    by (simp add: add_row_def table_machine_def cong: option.case_cong)
qed

lemma good_table_Nil [simp]: "good_table K L []"
  by (simp add: good_table_def)

lemma hides_append: "i < length ts \<Longrightarrow> hides (ts @ us) j i = hides ts j i"
  by (auto simp: hides_def nth_append)

lemma good_table_snoc:
  "good_table K L (ts @ [t]) \<longleftrightarrow>
     good_table K L ts \<and> keys_valid K L t \<and>
     (\<forall>j < length ts. row_key (ts ! j) = row_key t \<longrightarrow> t_guard (ts ! j) \<noteq> None)"
proof -
  have "(\<forall>j < length ts. \<not> hides (ts @ [t]) j (length ts)) \<longleftrightarrow>
      (\<forall>j < length ts. row_key (ts ! j) = row_key t \<longrightarrow> t_guard (ts ! j) \<noteq> None)"
    by (auto simp: hides_def nth_append)
  then show ?thesis
    by (auto simp: good_table_def nth_append hides_append less_Suc_eq)
qed

lemma first_unguarded_snoc:
  assumes "first_unguarded ts ug" "ug (row_key t) = None"
  shows "first_unguarded (ts @ [t])
           (if t_guard t = None then ug(row_key t \<mapsto> length ts) else ug)"
  unfolding first_unguarded_def
proof (intro allI)
  fix k j
  have old: "ug k = Some j \<longleftrightarrow> j < length ts \<and> row_key (ts ! j) = k \<and> t_guard (ts ! j) = None" for k j
    using assms(1) unfolding first_unguarded_def by blast
  show "((if t_guard t = None then ug(row_key t \<mapsto> length ts) else ug) k = Some j) \<longleftrightarrow>
      j < length (ts @ [t]) \<and> row_key ((ts @ [t]) ! j) = k \<and> t_guard ((ts @ [t]) ! j) = None"
    using assms(2) old [of k j] old [of "row_key t" j]
    by (cases "j = length ts") (auto simp: nth_append less_Suc_eq)
qed

text \<open>The defect the loop stops at, with the rows before it free of defects.\<close>

definition defect_at ::
    "'s keyops \<Rightarrow> 'e keyops \<Rightarrow> ('s, 'e, 'c, 't, 'w) transition list \<Rightarrow> ('s, 'e) compile_error \<Rightarrow> bool" where
  "defect_at K L ts d =
     (case d of
        InvalidKeyAt i \<Rightarrow>
          i < length ts \<and> good_table K L (take i ts) \<and> \<not> keys_valid K L (ts ! i)
      | UnreachableRow i from event j \<Rightarrow>
          i < length ts \<and> good_table K L (take i ts) \<and> keys_valid K L (ts ! i) \<and>
          row_key (ts ! i) = (from, event) \<and> hides ts j i
      | _ \<Rightarrow> False)"

lemma compile_rows_Cons:
  "compile_rows K L i (t # ts) ug (table_machine K L pre) =
     (if \<not> keys_valid K L t then Inl (InvalidKeyAt i)
      else case ug (row_key t) of
        Some j \<Rightarrow> Inl (UnreachableRow i (t_from t) (t_event t) j)
      | None \<Rightarrow>
          compile_rows K L (Suc i) ts (if t_guard t = None then ug(row_key t \<mapsto> i) else ug)
            (table_machine K L (pre @ [t])))"
proof -
  have "(\<not> m_reflexiveState (table_machine K L pre) \<and>
        (\<not> key_ok K (t_from t) \<or> \<not> key_ok K (t_to t)) \<or>
      \<not> m_reflexiveEvent (table_machine K L pre) \<and> \<not> key_ok L (t_event t)) =
      (\<not> keys_valid K L t)"
    by (auto simp: keys_valid_def table_machine_def)
  then show ?thesis by (simp only: compile_rows.simps add_row_table)
qed

lemma compile_rows_table:
  assumes "good_table K L pre" "first_unguarded pre ug"
  shows "case compile_rows K L (length pre) ts ug (table_machine K L pre) of
           Inr m \<Rightarrow> good_table K L (pre @ ts) \<and> m = table_machine K L (pre @ ts)
         | Inl d \<Rightarrow> defect_at K L (pre @ ts) d"
  using assms
proof (induction ts arbitrary: pre ug)
  case (Cons t ts)
  let ?ug = "if t_guard t = None then ug(row_key t \<mapsto> length pre) else ug"
  show ?case
  proof (cases "keys_valid K L t")
    case False
    with Cons.prems show ?thesis
      by (simp add: compile_rows_Cons defect_at_def nth_append del: compile_rows.simps)
  next
    case ok: True
    show ?thesis
    proof (cases "ug (row_key t)")
      case (Some j)
      then have "j < length pre" "row_key (pre ! j) = row_key t" "t_guard (pre ! j) = None"
        using Cons.prems(2) unfolding first_unguarded_def by blast+
      with ok Some Cons.prems show ?thesis
        by (simp add: compile_rows_Cons defect_at_def nth_append hides_def del: compile_rows.simps)
           (simp add: row_key_def)
    next
      case None
      have "good_table K L (pre @ [t])"
        using ok None Cons.prems unfolding good_table_snoc first_unguarded_def
        by (metis option.distinct(1))
      note IH = Cons.IH [OF this first_unguarded_snoc [OF Cons.prems(2) None]]
      have "(pre @ [t]) @ ts = pre @ t # ts" by simp
      with IH show ?thesis
        using ok None by (simp only: compile_rows_Cons length_append_singleton) simp
    qed
  qed
qed simp

lemma first_unguarded_Nil: "first_unguarded [] Map.empty"
  by (simp add: first_unguarded_def)

lemma table_machine_Nil:
  "zero_machine\<lparr>m_reflexiveState := reflexive_type K, m_reflexiveEvent := reflexive_type L\<rparr> =
     table_machine K L []"
  by (simp add: zero_machine_def table_machine_def table_rows_def table_events_def nonempty_def)

lemma Compile_cases:
  "case Compile K L ts of
     Inr m \<Rightarrow> strict_type K \<and> strict_type L \<and> good_table K L ts \<and> m = table_machine K L ts
   | Inl StateTypeHasInterface \<Rightarrow> \<not> strict_type K
   | Inl EventTypeHasInterface \<Rightarrow> strict_type K \<and> \<not> strict_type L
   | Inl d \<Rightarrow> strict_type K \<and> strict_type L \<and> defect_at K L ts d"
  using compile_rows_table [OF good_table_Nil [of K L] first_unguarded_Nil, of ts]
  by (auto simp: Compile_def table_machine_Nil defect_at_def
      split: sum.splits compile_error.splits)

lemma good_table_take: "good_table K L ts \<Longrightarrow> good_table K L (take i ts)"
  by (auto simp: good_table_def hides_def)

lemma defect_not_good: "defect_at K L ts d \<Longrightarrow> \<not> good_table K L ts"
  by (auto simp: defect_at_def good_table_def hides_def split: compile_error.splits)

lemma Compile_table:
  "Compile K L ts = Inr m \<longleftrightarrow>
     strict_type K \<and> strict_type L \<and> good_table K L ts \<and> m = table_machine K L ts"
  using Compile_cases [of K L ts] defect_not_good [of K L ts]
  by (auto split: sum.splits compile_error.splits)

lemma Compile_defect:
  "Compile K L ts = Inl d \<Longrightarrow> d \<noteq> StateTypeHasInterface \<Longrightarrow> d \<noteq> EventTypeHasInterface \<Longrightarrow>
     defect_at K L ts d"
  using Compile_cases [of K L ts] by (auto split: compile_error.splits)

section \<open>Selection is the first applicable row of the table\<close>

text \<open>What a row's Guard answers in world \<open>w\<close>: \<open>None\<close> when it applies, else its reason.\<close>

definition declines ::
    "'c \<Rightarrow> 't \<Rightarrow> 'w \<Rightarrow> ('s, 'e, 'c, 't, 'w) transition \<Rightarrow> ('s, 'e) err option" where
  "declines ctx data w t =
     (case t_guard t of
        None \<Rightarrow> None
      | Some g \<Rightarrow> (case g ctx data w of (_, Ret r) \<Rightarrow> r | _ \<Rightarrow> None))"

definition pure_guard :: "'c \<Rightarrow> 't \<Rightarrow> ('s, 'e, 'c, 't, 'w) transition \<Rightarrow> bool" where
  "pure_guard ctx data t \<longleftrightarrow>
     (case t_guard t of None \<Rightarrow> True | Some g \<Rightarrow> pure_act (g ctx data))"

definition table_select ::
    "('s, 'e, 'c, 't, 'w) transition list \<Rightarrow> 'c \<Rightarrow> 's \<Rightarrow> 'e \<Rightarrow> 't \<Rightarrow> 'w \<Rightarrow>
      ('s, 'e) err + ('s, 'e, 'c, 't, 'w) transition" where
  "table_select ts ctx from event data w =
     (let rows = table_rows ts (from, event) in
      case find (\<lambda>t. declines ctx data w t = None) rows of
        Some t \<Rightarrow> Inr t
      | None \<Rightarrow>
          Inl (Refusal from event
            (Sentinel ErrNotPermitted # present (map (declines ctx data w) rows))))"

lemma pure_guard_run:
  assumes "pure_guard ctx data t" "t_guard t = Some g"
  shows "g ctx data w = (w, Ret (declines ctx data w t))"
  using assms by (auto simp: pure_guard_def declines_def elim: pure_actE [of _ w])

lemma try_rows_pure:
  assumes "\<forall>t \<in> set rows. pure_guard ctx data t"
  shows "try_rows ctx data rows reasons w =
     (w, Ret (case find (\<lambda>t. declines ctx data w t = None) rows of
                Some t \<Rightarrow> Inr t
              | None \<Rightarrow> Inl (reasons @ present (map (declines ctx data w) rows))))"
  using assms
proof (induction rows arbitrary: reasons)
  case (Cons t rows)
  show ?case
  proof (cases "t_guard t")
    case None
    then show ?thesis by (simp add: declines_def act_simps)
  next
    case (Some g)
    with Cons show ?thesis
      by (auto simp: act_simps pure_guard_run [OF _ Some] split: option.splits)
  qed
qed (simp add: act_simps)

lemma table_machine_sel [simp]:
  "slice (m_rows (table_machine K L ts)) k = table_rows ts k"
  "slice (m_events (table_machine K L ts)) s = table_events ts s"
  "m_reflexiveState (table_machine K L ts) = reflexive_type K"
  "m_reflexiveEvent (table_machine K L ts) = reflexive_type L"
  by (simp_all add: table_machine_def)

definition query_valid :: "'s keyops \<Rightarrow> 'e keyops \<Rightarrow> 's \<Rightarrow> 'e \<Rightarrow> bool" where
  "query_valid K L from event \<longleftrightarrow>
     (reflexive_type K \<or> key_ok K from) \<and> (reflexive_type L \<or> key_ok L event)"

lemma selectTransition_table:
  assumes "\<forall>t \<in> set (table_rows ts (from, event)). pure_guard ctx data t"
  shows "selectTransition K L (table_machine K L ts) ctx from event data w =
     (w, Ret (if query_valid K L from event then table_select ts ctx from event data w
              else Inl (Sentinel ErrInvalidKey)))"
proof -
  have "(\<not> reflexive_type K \<and> \<not> key_ok K from \<or> \<not> reflexive_type L \<and> \<not> key_ok L event) =
      (\<not> query_valid K L from event)"
    by (auto simp: query_valid_def)
  then show ?thesis
    by (simp add: selectTransition_def act_simps try_rows_pure [OF assms] table_select_def Let_def
        split: option.splits)
qed

lemma Next_table:
  assumes "\<forall>t \<in> set (table_rows ts (from, event)). pure_guard ctx data t"
  shows "Next K L (table_machine K L ts) ctx from event data w =
     (w, Ret (if query_valid K L from event
              then (case table_select ts ctx from event data w of
                      Inr t \<Rightarrow> (t_to t, None)
                    | Inl e \<Rightarrow> (from, Some e))
              else (from, Some (Sentinel ErrInvalidKey))))"
  by (simp add: Next_def act_simps selectTransition_table [OF assms] split: sum.splits)

lemma table_select_Inr:
  "table_select ts ctx from event data w = Inr t \<Longrightarrow>
     t \<in> set ts \<and> t_from t = from \<and> t_event t = event \<and> declines ctx data w t = None"
  by (auto simp: table_select_def Let_def table_rows_def row_key_def find_Some_iff
      split: option.splits dest: nth_mem)

section \<open>Next never runs an effect; fire runs the selected one\<close>

definition drop_effects :: "('s, 'e, 'c, 't, 'w) machine \<Rightarrow> ('s, 'e, 'c, 't, 'w) machine" where
  "drop_effects m =
     m\<lparr>m_rows := (\<lambda>k. map_option (map (t_do_update (\<lambda>_. None))) (m_rows m k))\<rparr>"

lemma try_rows_map_do:
  "try_rows ctx data (map (t_do_update (\<lambda>_. None)) rows) reasons =
     bindA (try_rows ctx data rows reasons)
       (\<lambda>r. ret (map_sum id (t_do_update (\<lambda>_. None)) r))"
proof (induction rows arbitrary: reasons)
  case (Cons t rows)
  show ?case
    by (rule ext) (auto simp: act_simps Cons.IH split: option.splits prod.splits outcome.splits)
qed simp

lemma slice_drop_effects:
  "slice (m_rows (drop_effects m)) k = map (t_do_update (\<lambda>_. None)) (slice (m_rows m) k)"
  by (simp add: drop_effects_def slice_def split: option.splits)

lemma Next_drop_effects: "Next K L (drop_effects m) ctx from event data = Next K L m ctx from event data"
proof -
  have "m_reflexiveState (drop_effects m) = m_reflexiveState m"
    "m_reflexiveEvent (drop_effects m) = m_reflexiveEvent m"
    by (simp_all add: drop_effects_def)
  then show ?thesis
    by (intro ext) (auto simp: Next_def selectTransition_def slice_drop_effects try_rows_map_do
        act_simps split: sum.splits prod.splits outcome.splits)
qed

text \<open>Whatever the callbacks do, a row that is selected is one of the machine's.\<close>

lemma try_rows_Inr:
  "try_rows ctx data rows reasons w = (w', Ret (Inr t)) \<Longrightarrow> t \<in> set rows"
  by (induction rows arbitrary: reasons w)
     (auto simp: act_simps split: option.splits prod.splits outcome.splits)

lemma try_rows_Inl:
  "try_rows ctx data rows reasons w = (w', Ret (Inl rs)) \<Longrightarrow>
     \<exists>es. rs = reasons @ es \<and> length es = length rows"
proof (induction rows arbitrary: reasons w)
  case (Cons t rows)
  from Cons.prems obtain g w1 e where "t_guard t = Some g" "g ctx data w = (w1, Ret (Some e))"
    and "try_rows ctx data rows (reasons @ [e]) w1 = (w', Ret (Inl rs))"
    by (auto simp: act_simps split: option.splits prod.splits outcome.splits)
  from Cons.IH [OF this(3)] show ?case by auto
qed (auto simp: act_simps)

lemma selectTransition_Inr:
  "selectTransition K L m ctx from event data w = (w', Ret (Inr t)) \<Longrightarrow>
     t \<in> set (slice (m_rows m) (from, event))"
  by (auto simp: selectTransition_def act_simps dest: try_rows_Inr
      split: if_splits sum.splits prod.splits outcome.splits)

lemma fire_success:
  assumes "fire K L m ctx from event data w = (w', Ret (to, None))"
  obtains t w1 where "selectTransition K L m ctx from event data w = (w1, Ret (Inr t))"
    and "t \<in> set (slice (m_rows m) (from, event))" and "to = t_to t"
    and "case t_do t of None \<Rightarrow> w' = w1 | Some f \<Rightarrow> f ctx data w1 = (w', Ret None)"
  using assms that
  by (auto simp: fire_def run_do_def act_simps dest: selectTransition_Inr
      split: sum.splits prod.splits outcome.splits option.splits)

lemma fire_failure:
  "fire K L m ctx from event data w = (w', Ret (to, Some e)) \<Longrightarrow> to = from"
  by (auto simp: fire_def run_do_def act_simps
      split: sum.splits prod.splits outcome.splits option.splits)

section \<open>Permitted offers exactly what Next accepts\<close>

definition permitted_pairs ::
    "('s, 'e, 'c, 't, 'w) transition list \<Rightarrow> 'c \<Rightarrow> 's \<Rightarrow> 't \<Rightarrow> 'w \<Rightarrow> ('e \<times> 's) list" where
  "permitted_pairs ts ctx from data w =
     concat (map (\<lambda>event. case table_select ts ctx from event data w of
                            Inr t \<Rightarrow> [(event, t_to t)]
                          | Inl _ \<Rightarrow> []) (table_events ts from))"

lemma permit_rows_pure:
  assumes "\<forall>t \<in> set rows. pure_guard ctx data t"
  shows "permit_rows ctx data collect event rows acc w =
     (w, Ret (acc @ (case find (\<lambda>t. declines ctx data w t = None) rows of
                       Some t \<Rightarrow> [(event, t_to t)]
                     | None \<Rightarrow> []), True))"
  using assms
proof (induction rows arbitrary: acc)
  case (Cons t rows)
  show ?case
  proof (cases "t_guard t")
    case None
    then show ?thesis by (simp add: declines_def act_simps collect_def)
  next
    case (Some g)
    with Cons show ?thesis
      by (auto simp: act_simps collect_def pure_guard_run [OF _ Some] split: option.splits)
  qed
qed (simp add: act_simps)

lemma permit_events_pure:
  assumes "\<forall>t \<in> set ts. pure_guard ctx data t"
  shows "permit_events (table_machine K L ts) ctx from data collect events acc w =
     (w, Ret (acc @ concat (map (\<lambda>event. case table_select ts ctx from event data w of
                            Inr t \<Rightarrow> [(event, t_to t)]
                          | Inl _ \<Rightarrow> []) events)))"
proof (induction events arbitrary: acc)
  case (Cons event events)
  have "\<forall>t \<in> set (table_rows ts (from, event)). pure_guard ctx data t"
    using assms by (simp add: table_rows_def)
  then show ?case
    by (simp add: act_simps permit_rows_pure Cons.IH table_select_def Let_def split: option.splits)
qed (simp add: act_simps)

lemma Permitted_collect:
  assumes "\<forall>t \<in> set ts. pure_guard ctx data t"
  shows "Permitted K (table_machine K L ts) ctx from data collect [] w =
     (w, Ret (if reflexive_type K \<or> key_ok K from then permitted_pairs ts ctx from data w else []))"
  by (simp add: Permitted_def permit_events_pure [OF assms] permitted_pairs_def ret_def)

lemma table_select_event:
  "table_select ts ctx from event data w = Inr t \<Longrightarrow> event \<in> set (table_events ts from)"
  by (drule table_select_Inr) (auto simp: table_events_def)

lemma permitted_pairs_iff:
  "(event, to) \<in> set (permitted_pairs ts ctx from data w) \<longleftrightarrow>
     (\<exists>t. table_select ts ctx from event data w = Inr t \<and> to = t_to t)"
proof -
  have "(event, to) \<in> set (permitted_pairs ts ctx from data w) \<longleftrightarrow>
      (\<exists>ev \<in> set (table_events ts from). (event, to) \<in>
         set (case table_select ts ctx from ev data w of Inr t \<Rightarrow> [(ev, t_to t)] | Inl _ \<Rightarrow> []))"
    by (simp add: permitted_pairs_def)
  moreover have "(event, to) \<in>
        set (case table_select ts ctx from ev data w of Inr t \<Rightarrow> [(ev, t_to t)] | Inl _ \<Rightarrow> []) \<longleftrightarrow>
      ev = event \<and> (\<exists>t. table_select ts ctx from event data w = Inr t \<and> to = t_to t)" for ev
    by (cases "table_select ts ctx from ev data w") auto
  ultimately show ?thesis by (auto dest: table_select_event)
qed

lemma distinct_concat_singletons:
  assumes "distinct xs" "\<And>x. x \<in> set xs \<Longrightarrow> f x = [] \<or> (\<exists>y. f x = [(x, y)])"
  shows "distinct (map fst (concat (map f xs)))"
  using assms
proof (induction xs)
  case (Cons x xs)
  have "fst ` set (f y) \<subseteq> {y}" if "y \<in> set xs" for y
    using Cons.prems(2) [of y] that by fastforce
  then have "x \<notin> fst ` set (concat (map f xs))"
    using Cons.prems(1) by fastforce
  moreover have "distinct (map fst (concat (map f xs)))"
    using Cons by simp
  moreover have "f x = [] \<or> (\<exists>y. f x = [(x, y)])"
    using Cons.prems(2) by simp
  ultimately show ?case by fastforce
qed simp

lemma permitted_pairs_distinct: "distinct (map fst (permitted_pairs ts ctx from data w))"
  unfolding permitted_pairs_def
  by (rule distinct_concat_singletons) (auto simp: table_events_def split: sum.splits)

section \<open>Properties\<close>

text \<open>A small table for the witnesses: state 0 on event 0 goes to 1 when the data is positive
  and to 2 otherwise, and on event 1 back to 0 with an effect that fails on data 9.\<close>

definition demo_keys :: "nat keyops" where
  "demo_keys = \<lparr>strict_type = True, reflexive_type = True, key_ok = (\<lambda>_. True)\<rparr>"

definition demo_guard :: "(nat, nat, unit, nat, nat list) callback" where
  "demo_guard ctx data = ret (if data = 0 then Some (AppErr 7 []) else None)"

definition demo_effect :: "(nat, nat, unit, nat, nat list) callback" where
  "demo_effect ctx data =
     (\<lambda>w. (w @ [data], Ret (if data = 9 then Some (AppErr 8 []) else None)))"

definition demo_table :: "(nat, nat, unit, nat, nat list) transition list" where
  "demo_table =
     [\<lparr>t_from = 0, t_event = 0, t_to = 1, t_guard = Some demo_guard, t_do = None\<rparr>,
      \<lparr>t_from = 0, t_event = 0, t_to = 2, t_guard = None, t_do = None\<rparr>,
      \<lparr>t_from = 1, t_event = 1, t_to = 0, t_guard = Some demo_guard, t_do = Some demo_effect\<rparr>]"

lemma demo_table_pure: "\<forall>t \<in> set demo_table. pure_guard () d t"
  by (simp add: demo_table_def pure_guard_def demo_guard_def)

text \<open>C13. Compile accepts a table exactly when both key types are strict, every row's keys are
  valid and no row is hidden by an earlier unguarded row of the same From and Event; the machine
  it returns maps each key to that key's rows in table order and each state to its events, each
  once, in first-mention order.\<close>

theorem compile_accepts_good_tables:
  "Compile K L ts = Inr m \<longleftrightarrow>
     strict_type K \<and> strict_type L \<and> good_table K L ts \<and> m = table_machine K L ts"
  by (rule Compile_table)

text \<open>C14. A table that Compile refuses is reported at its first defect: the rows before the
  reported one form a good table, and the reported row has an invalid key or is hidden by
  exactly the earlier unguarded row the error names.\<close>

theorem compile_reports_first_defect:
  "case Compile K L ts of
     Inr m \<Rightarrow> good_table K L ts
   | Inl StateTypeHasInterface \<Rightarrow> \<not> strict_type K
   | Inl EventTypeHasInterface \<Rightarrow> strict_type K \<and> \<not> strict_type L
   | Inl d \<Rightarrow> strict_type K \<and> strict_type L \<and> defect_at K L ts d"
  using Compile_cases [of K L ts] by (auto split: sum.splits compile_error.splits)

text \<open>C15. With pure Guards, Next on a compiled table selects the first row, in table order, that
  has the state and event and whose Guard applies, and reports its To; when none applies it
  reports the state unchanged and an error that wraps ErrNotPermitted followed by every Guard's
  reason in table order; on an invalid key it reports ErrInvalidKey. The world is untouched.\<close>

theorem next_selects_first_applicable:
  assumes "\<forall>t \<in> set ts. pure_guard ctx data t"
  shows "Next K L (table_machine K L ts) ctx from event data w =
     (w, Ret (if query_valid K L from event
              then (case find (\<lambda>t. declines ctx data w t = None) (table_rows ts (from, event)) of
                      Some t \<Rightarrow> (t_to t, None)
                    | None \<Rightarrow>
                        (from, Some (Refusal from event (Sentinel ErrNotPermitted #
                           present (map (declines ctx data w) (table_rows ts (from, event)))))))
              else (from, Some (Sentinel ErrInvalidKey))))"
proof -
  have "\<forall>t \<in> set (table_rows ts (from, event)). pure_guard ctx data t"
    using assms by (simp add: table_rows_def)
  then show ?thesis
    by (simp add: Next_table table_select_def Let_def split: option.splits)
qed

theorem next_selects_first_applicable_witness:
  "Next demo_keys demo_keys (table_machine demo_keys demo_keys demo_table) () 1 1 0 [] =
     ([], Ret (1, Some (Refusal 1 1 [Sentinel ErrNotPermitted, AppErr 7 []])))"
  using next_selects_first_applicable [OF demo_table_pure, of demo_keys demo_keys 1 1 0 "[]"]
  by (simp add: query_valid_def demo_keys_def demo_table_def table_rows_def row_key_def
      declines_def demo_guard_def ret_def)

text \<open>Next never runs a Do: on any machine and any callbacks, its result and the world it
  leaves are those of the same machine with every Do removed.\<close>

theorem next_ignores_effects:
  "Next K L (drop_effects m) ctx from event data w = Next K L m ctx from event data w"
  by (simp add: Next_drop_effects)

text \<open>The effectful half reports the unchanged state with every error, and reports a
  destination only when a row of the machine for that state and event was selected and its Do,
  run once after the selection, was absent or returned nil; the destination is that row's To.\<close>

theorem fire_reports_destination_only_after_effect:
  "case fire K L m ctx from event data w of
     (w', Ret (to, Some e)) \<Rightarrow> to = from
   | (w', Ret (to, None)) \<Rightarrow>
       (\<exists>t \<in> set (slice (m_rows m) (from, event)). \<exists>w1.
          selectTransition K L m ctx from event data w = (w1, Ret (Inr t)) \<and> to = t_to t \<and>
          (case t_do t of None \<Rightarrow> w' = w1 | Some f \<Rightarrow> f ctx data w1 = (w', Ret None)))
   | _ \<Rightarrow> True"
proof -
  have "(\<exists>t \<in> set (slice (m_rows m) (from, event)). \<exists>w1.
          selectTransition K L m ctx from event data w = (w1, Ret (Inr t)) \<and> to = t_to t \<and>
          (case t_do t of None \<Rightarrow> w' = w1 | Some f \<Rightarrow> f ctx data w1 = (w', Ret None)))"
    if "fire K L m ctx from event data w = (w', Ret (to, None))" for w' to
    using that by (rule fire_success) blast
  then show ?thesis
    by (auto split: prod.splits outcome.splits option.splits dest: fire_failure)
qed

text \<open>C16. With pure Guards, ranging over Permitted on a compiled table yields each event at most
  once, and yields a pair exactly when Next accepts that event and reports that state.\<close>

theorem permitted_agrees_with_next:
  assumes "\<forall>t \<in> set ts. pure_guard ctx data t"
    and "query_valid K L from event"
  shows "\<exists>ps. Permitted K (table_machine K L ts) ctx from data collect [] w = (w, Ret ps) \<and>
     distinct (map fst ps) \<and>
     ((event, to) \<in> set ps \<longleftrightarrow>
        Next K L (table_machine K L ts) ctx from event data w = (w, Ret (to, None)))"
proof -
  have rows: "\<forall>t \<in> set (table_rows ts (from, event)). pure_guard ctx data t"
    using assms(1) by (simp add: table_rows_def)
  show ?thesis
    using assms(2)
    by (auto simp: Permitted_collect [OF assms(1)] Next_table [OF rows] query_valid_def
        permitted_pairs_iff permitted_pairs_distinct split: sum.splits)
qed

theorem permitted_agrees_with_next_witness:
  "\<exists>ps. Permitted demo_keys (table_machine demo_keys demo_keys demo_table) () 0 0 collect [] [] =
      ([], Ret ps) \<and> distinct (map fst ps) \<and> (0, 2) \<in> set ps"
proof -
  have "query_valid demo_keys demo_keys 0 0"
    by (simp add: query_valid_def demo_keys_def)
  moreover have "Next demo_keys demo_keys (table_machine demo_keys demo_keys demo_table) () 0 0 0 [] =
      ([], Ret (2, None))"
    by (simp add: Next_def selectTransition_def demo_table_def table_rows_def row_key_def
        demo_guard_def demo_keys_def act_simps)
  ultimately show ?thesis
    using permitted_agrees_with_next [OF demo_table_pure, of demo_keys demo_keys 0 0 0 "[]" 2]
    by auto
qed

end
