(* ===== verification/Observers.thy ===== *)
theory Observers
  imports Prelude
begin

text \<open>
  \<^verbatim>\<open>internal/observer/observer.go\<close>, \<^verbatim>\<open>internal/observer/delivery.go\<close> and \<^verbatim>\<open>observe.go\<close>:
  delivery of committed position changes to observers.

  An observer is a callback on a context, an observation and the event's data. \<open>Call\<close> runs one
  callback in isolation and reports how it ended; \<open>Deliver\<close> runs every observer on every
  observation in order and joins the failures; \<open>Combine\<close>, \<open>Timeout\<close> and \<open>Contained\<close> build
  observers from observers. The goroutine \<open>Call\<close> starts and the channel it answers on are the
  sequential composition of the callback and the delivery, since the caller waits at once. Only
  \<open>Timeout\<close> gives up waiting: what the Go scheduler and the clock make of a callback under a
  deadline is its parameter \<open>run_until\<close>, which yields the world at the moment the wait ends
  and the callback's outcome if there is one by then. The stack text a failure carries is not
  modelled.

  The lemmas: delivery always returns, whatever the observers do (\<open>Deliver_returns\<close>); the world
  after it is the world after running every callback in order (\<open>Deliver_world\<close>); its error is
  the join of one \<open>ObserverError\<close> per failed call (\<open>Deliver_error\<close>).
\<close>

section \<open>Isolated calls\<close>

record ('s, 'e) failure =
  f_value :: "('s, 'e) pval option"
  f_stopped :: bool

definition outcome_failure :: "('s, 'e, 'a) outcome \<Rightarrow> ('s, 'e) failure option" where
  "outcome_failure out =
     (case out of
        Ret _ \<Rightarrow> None
      | Panic v \<Rightarrow> Some \<lparr>f_value = Some v, f_stopped = False\<rparr>
      | Goexit \<Rightarrow> Some \<lparr>f_value = None, f_stopped = True\<rparr>)"

definition Call ::
    "('s, 'e, 'w, 'a) act \<Rightarrow> ('s, 'e, 'w, ('s, 'e) failure option) act" where
  "Call callback = (\<lambda>w. case callback w of (w', out) \<Rightarrow> (w', Ret (outcome_failure out)))"

definition failureError ::
    "nat \<Rightarrow> u64 \<Rightarrow> ('s, 'e) failure option \<Rightarrow> ('s, 'e) err option" where
  "failureError index seq failure =
     (case failure of
        None \<Rightarrow> None
      | Some f \<Rightarrow> Some (ObserverError index seq (f_value f) (f_stopped f)))"

section \<open>Ordered delivery\<close>

type_synonym ('s, 'e, 'c, 'o, 't, 'w) observer = "'c \<Rightarrow> 'o \<Rightarrow> 't \<Rightarrow> ('s, 'e, 'w, unit) act"

text \<open>Attachment order is kept and nil callbacks are removed.\<close>

definition Copy :: "'f option list \<Rightarrow> 'f list" where
  "Copy observers = present observers"

fun deliver_one ::
    "nat \<Rightarrow> ('s, 'e, 'c, 'o, 't, 'w) observer list \<Rightarrow> 'c \<Rightarrow> 'o \<times> u64 \<Rightarrow> 't \<Rightarrow>
      ('s, 'e, 'w, ('s, 'e) err list) act" where
  "deliver_one index [] ctx ob data = ret []"
| "deliver_one index (observer # observers) ctx ob data =
     bindA (Call (observer ctx (fst ob) data)) (\<lambda>failure.
     bindA (deliver_one (Suc index) observers ctx ob data) (\<lambda>failures.
     ret (present [failureError index (snd ob) failure] @ failures)))"

fun deliver_each ::
    "('s, 'e, 'c, 'o, 't, 'w) observer list \<Rightarrow> 'c \<Rightarrow> ('o \<times> u64) list \<Rightarrow> 't \<Rightarrow>
      ('s, 'e, 'w, ('s, 'e) err list) act" where
  "deliver_each observers ctx [] data = ret []"
| "deliver_each observers ctx (ob # obs) data =
     bindA (deliver_one 0 observers ctx ob data) (\<lambda>failures.
     bindA (deliver_each observers ctx obs data) (\<lambda>more. ret (failures @ more)))"

definition Deliver ::
    "('s, 'e, 'c, 'o, 't, 'w) observer list \<Rightarrow> 'c \<Rightarrow> ('o \<times> u64) list \<Rightarrow> 't \<Rightarrow>
      ('s, 'e, 'w, ('s, 'e) err option) act" where
  "Deliver observers ctx obs data =
     (if observers = [] \<or> obs = [] then ret None
      else bindA (deliver_each observers ctx obs data) (\<lambda>failures.
           ret (errors_join (map Some failures))))"

section \<open>Composition\<close>

definition raise_err :: "('s, 'e) err \<Rightarrow> ('s, 'e, 'w, 'a) act" where
  [act_simps]: "raise_err e = (\<lambda>w. (w, Panic (PErr e)))"

definition Combine ::
    "('s, 'e, 'c, 'o, 't, 'w) observer option list \<Rightarrow> ('o \<Rightarrow> u64) \<Rightarrow>
      ('s, 'e, 'c, 'o, 't, 'w) observer option" where
  "Combine observers sequence =
     (let observers = Copy observers in
      if observers = [] then None
      else Some (\<lambda>ctx ob data.
        bindA (Deliver observers ctx [(ob, sequence ob)] data) (\<lambda>err.
        case err of None \<Rightarrow> ret () | Some e \<Rightarrow> raise_err e)))"

definition Timeout ::
    "(('s, 'e, 'w, unit) act \<Rightarrow> int \<Rightarrow> 'w \<Rightarrow> 'w \<times> ('s, 'e, unit) outcome option) \<Rightarrow>
      ('c \<Rightarrow> int \<Rightarrow> 'c) \<Rightarrow>
      ('s, 'e, 'c, 'o, 't, 'w) observer option \<Rightarrow> int \<Rightarrow> ('o \<Rightarrow> u64) \<Rightarrow>
      ('s, 'e, ('s, 'e, 'c, 'o, 't, 'w) observer option) outcome" where
  "Timeout run_until with_timeout observer timeout sequence =
     (if timeout \<le> 0 then Panic (PVal 0)
      else case observer of
        None \<Rightarrow> Ret None
      | Some f \<Rightarrow> Ret (Some (\<lambda>ctx ob data w.
          case run_until (f (with_timeout ctx timeout) ob data) timeout w of
            (w', Some out) \<Rightarrow>
              (case failureError 0 (sequence ob) (outcome_failure out) of
                 None \<Rightarrow> (w', Ret ())
               | Some e \<Rightarrow> raise_err e w')
          | (w', None) \<Rightarrow> raise_err (Wrapf (Sentinel ErrObserverTimeout)) w')))"

definition Contained ::
    "('s, 'e, 'c, 'o, 't, 'w) observer option \<Rightarrow>
      (('s, 'e) err \<Rightarrow> ('s, 'e, 'w, unit) act) option \<Rightarrow> ('o \<Rightarrow> u64) \<Rightarrow>
      ('s, 'e, 'c, 'o, 't, 'w) observer option" where
  "Contained observer report sequence =
     (case observer of
        None \<Rightarrow> None
      | Some f \<Rightarrow> Some (\<lambda>ctx ob data.
          bindA (Call (f ctx ob data)) (\<lambda>failure.
          case (failureError 0 (sequence ob) failure, report) of
            (Some e, Some r) \<Rightarrow> bindA (Call (r e)) (\<lambda>_. ret ())
          | _ \<Rightarrow> ret ())))"

section \<open>Observations of a flat execution\<close>

datatype move = Exited | Entered

record ('s, 'e) observation =
  ob_seq :: u64
  ob_step :: u64
  ob_run :: u64
  ob_remaining :: u64
  ob_at :: nat
  ob_move :: move
  ob_state :: 's
  ob_event :: 'e

definition observationSequence :: "('s, 'e, 'z) observation_scheme \<Rightarrow> u64" where
  "observationSequence ob = ob_seq ob"

definition transition_observations ::
    "nat \<Rightarrow> u64 \<Rightarrow> u64 \<Rightarrow> 's \<Rightarrow> 's \<Rightarrow> 'e \<Rightarrow> ('s, 'e) observation list" where
  "transition_observations at step run from to event =
     [\<lparr>ob_seq = step, ob_step = step, ob_run = run, ob_remaining = 1, ob_at = at,
       ob_move = Exited, ob_state = from, ob_event = event\<rparr>,
      \<lparr>ob_seq = step + 1, ob_step = step, ob_run = run, ob_remaining = 0, ob_at = at,
       ob_move = Entered, ob_state = to, ob_event = event\<rparr>]"

definition deliverObservations ::
    "('s, 'e, 'c, ('s, 'e) observation, 't, 'w) observer list \<Rightarrow> 'c \<Rightarrow>
      ('s, 'e) observation list \<Rightarrow> 't \<Rightarrow> ('s, 'e, 'w, ('s, 'e) err option) act" where
  "deliverObservations observers ctx obs data =
     Deliver observers ctx (map (\<lambda>ob. (ob, observationSequence ob)) obs) data"

text \<open>\<open>now\<close> is \<^verbatim>\<open>time.Now\<close>, read once for the two observations of a Step.\<close>

definition deliverTransitionObservations ::
    "('w \<Rightarrow> nat) \<Rightarrow> ('s, 'e, 'c, ('s, 'e) observation, 't, 'w) observer list \<Rightarrow> 'c \<Rightarrow>
      u64 \<Rightarrow> u64 \<Rightarrow> 's \<Rightarrow> 's \<Rightarrow> 'e \<Rightarrow> 't \<Rightarrow> ('s, 'e, 'w, ('s, 'e) err option) act" where
  "deliverTransitionObservations now observers ctx step run from to event data = (\<lambda>w.
     deliverObservations observers ctx
       (transition_observations (now w) step run from to event) data w)"

section \<open>Delivery is total and complete\<close>

lemma Call_returns: "\<exists>w' f. Call callback w = (w', Ret f)"
  by (auto simp: Call_def split: prod.splits)

lemma Call_fst [simp]: "fst (Call callback w) = fst (callback w)"
  by (simp add: Call_def split: prod.splits)

lemma outcome_failure_None [simp]: "outcome_failure out = None \<longleftrightarrow> (\<exists>a. out = Ret a)"
  by (auto simp: outcome_failure_def split: outcome.splits)

text \<open>The calls of a delivery, in the order they are made, with the observer's index.\<close>

definition delivery_calls ::
    "('s, 'e, 'c, 'o, 't, 'w) observer list \<Rightarrow> ('o \<times> u64) list \<Rightarrow>
      (nat \<times> u64 \<times> 'o \<times> ('s, 'e, 'c, 'o, 't, 'w) observer) list" where
  "delivery_calls observers obs =
     concat (map (\<lambda>(ob, q). map (\<lambda>(i, f). (i, q, ob, f)) (List.enumerate 0 observers)) obs)"

text \<open>Running a list of calls one after the other: the worlds they see and what fails.\<close>

fun run_calls ::
    "'c \<Rightarrow> 't \<Rightarrow> (nat \<times> u64 \<times> 'o \<times> ('s, 'e, 'c, 'o, 't, 'w) observer) list \<Rightarrow> 'w \<Rightarrow>
      'w \<times> ('s, 'e) err list" where
  "run_calls ctx data [] w = (w, [])"
| "run_calls ctx data ((i, q, ob, f) # calls) w =
     (case f ctx ob data w of (w', out) \<Rightarrow>
        (case run_calls ctx data calls w' of (w'', es) \<Rightarrow>
           (w'', present [failureError i q (outcome_failure out)] @ es)))"

lemma run_calls_append:
  "run_calls ctx data (xs @ ys) w =
     (case run_calls ctx data xs w of (w', es) \<Rightarrow>
        (case run_calls ctx data ys w' of (w'', es') \<Rightarrow> (w'', es @ es')))"
  by (induction xs arbitrary: w) (auto split: prod.splits)

lemma deliver_one_run_calls:
  "deliver_one i observers ctx (ob, q) data w =
     (case run_calls ctx data (map (\<lambda>(i, f). (i, q, ob, f)) (List.enumerate i observers)) w of
        (w', es) \<Rightarrow> (w', Ret es))"
  by (induction observers arbitrary: i w)
     (auto simp: act_simps Call_def split: prod.splits)

lemma deliver_each_run_calls:
  "deliver_each observers ctx obs data w =
     (case run_calls ctx data (delivery_calls observers obs) w of (w', es) \<Rightarrow> (w', Ret es))"
proof (induction obs arbitrary: w)
  case (Cons ob obs)
  obtain o' q where ob: "ob = (o', q)" by (cases ob)
  show ?case
    by (simp add: ob act_simps Cons.IH deliver_one_run_calls delivery_calls_def run_calls_append
        split: prod.splits)
qed (simp add: delivery_calls_def act_simps)

lemma delivery_calls_Nil [simp]: "delivery_calls [] obs = []" "delivery_calls fs [] = []"
  by (auto simp: delivery_calls_def)

lemma Deliver_run_calls:
  "Deliver observers ctx obs data w =
     (case run_calls ctx data (delivery_calls observers obs) w of
        (w', es) \<Rightarrow> (w', Ret (errors_join (map Some es))))"
  by (auto simp: Deliver_def act_simps deliver_each_run_calls split: prod.splits)

lemma Deliver_returns: "\<exists>w' err. Deliver observers ctx obs data w = (w', Ret err)"
  by (simp add: Deliver_run_calls split: prod.splits)

lemma run_calls_world:
  "fst (run_calls ctx data calls w) =
     fold (\<lambda>(i, q, ob, f) w. fst (f ctx ob data w)) calls w"
  by (induction calls arbitrary: w) (auto simp: case_prod_beta)

lemma Deliver_world:
  "fst (Deliver observers ctx obs data w) =
     fold (\<lambda>(i, q, ob, f) w. fst (f ctx ob data w)) (delivery_calls observers obs) w"
  by (simp add: Deliver_run_calls case_prod_beta flip: run_calls_world)

lemma set_run_calls:
  "x \<in> set (snd (run_calls ctx data calls w)) \<Longrightarrow> \<exists>i q v b. x = ObserverError i q v b"
  by (induction calls arbitrary: w)
     (auto simp: failureError_def case_prod_beta split: option.splits)

lemma Deliver_error:
  "Deliver observers ctx obs data w = (w', Ret (Some e)) \<Longrightarrow>
     \<exists>es. e = Joined es \<and> es \<noteq> [] \<and> (\<forall>x \<in> set es. \<exists>i q v b. x = ObserverError i q v b)"
  using set_run_calls [of _ ctx data "delivery_calls observers obs" w]
  by (auto simp: Deliver_run_calls errors_join_def case_prod_beta split: list.splits)

lemma Deliver_error_sentinel:
  assumes "Deliver observers ctx obs data w = (w', Ret (Some e))"
  shows "is_sentinel ErrObserverFailed e"
  using Deliver_error [OF assms] by (auto simp: list_ex_iff neq_Nil_conv)

section \<open>Properties\<close>

text \<open>C38. Delivery always returns, whatever the observers do: every observer is called on every
  observation, observations in order and observers in attachment order within each, each call
  seeing the world the previous one left even when that one panicked or stopped its goroutine; the
  result is nil when no call failed and otherwise the join of one error per failed call in call
  order, which is ErrObserverFailed.\<close>

theorem delivery_is_isolated_and_complete:
  "\<exists>w' err. Deliver observers ctx obs data w = (w', Ret err) \<and>
     w' = fold (\<lambda>(i, q, ob, f) w. fst (f ctx ob data w)) (delivery_calls observers obs) w \<and>
     err = errors_join (map Some (snd (run_calls ctx data (delivery_calls observers obs) w))) \<and>
     (case err of None \<Rightarrow> True | Some e \<Rightarrow> is_sentinel ErrObserverFailed e)"
  using Deliver_error_sentinel [of observers ctx obs data w]
  by (auto simp: Deliver_run_calls case_prod_beta run_calls_world [symmetric] split: option.split)

text \<open>A contained observer never fails: whatever the observer and the report callback do, the
  call returns, and its failure, if any, is handed to the report callback once.\<close>

theorem contained_observer_never_fails:
  "case Contained observer report sequence of
     None \<Rightarrow> observer = None
   | Some g \<Rightarrow> \<exists>f. observer = Some f \<and>
       g ctx ob data w =
         (let (w1, out) = f ctx ob data w in
          case (outcome_failure out, report) of
            (Some x, Some r) \<Rightarrow>
              (fst (r (ObserverError 0 (sequence ob) (f_value x) (f_stopped x)) w1), Ret ())
          | _ \<Rightarrow> (w1, Ret ()))"
  by (auto simp: Contained_def bindA_def Call_def ret_def failureError_def outcome_failure_def
      split: option.split prod.split outcome.split)

text \<open>A bounded observer reports a callback that has not ended by the deadline as an error that
  is ErrObserverTimeout, passes on how a callback that ended did, and refuses a timeout that is not
  positive; in both failure cases the delivery that calls it sees a failure and goes on.\<close>

theorem timeout_observer_outcomes:
  "case Timeout run_until with_timeout observer timeout sequence of
     Panic _ \<Rightarrow> timeout \<le> 0
   | Ret None \<Rightarrow> 0 < timeout \<and> observer = None
   | Ret (Some g) \<Rightarrow> 0 < timeout \<and> (\<exists>f. observer = Some f \<and>
       (case run_until (f (with_timeout ctx timeout) ob data) timeout w of
          (w', None) \<Rightarrow> \<exists>e. g ctx ob data w = (w', Panic (PErr e)) \<and> is_sentinel ErrObserverTimeout e
        | (w', Some out) \<Rightarrow> fst (g ctx ob data w) = w' \<and>
            (snd (g ctx ob data w) = Ret () \<longleftrightarrow> (\<exists>a. out = Ret a))))
   | Goexit \<Rightarrow> False"
  by (auto simp: Timeout_def raise_err_def failureError_def outcome_failure_def
      split: option.split prod.split outcome.split)

end
