(* ===== verification/Instance.thy ===== *)
theory Instance
  imports Machine Observers
begin

text \<open>
  \<^verbatim>\<open>instance.go\<close>: one aggregate's state owner.

  The lock regions of \<open>Fire\<close> are \<open>fire_begin\<close> (check and set the in-flight marker),
  \<open>fire_publish\<close> (commit the destination and number the observations) and \<open>fire_end\<close> (the
  deferred clearing of the marker). \<open>Fire\<close> composes them around \<open>Machine.fire\<close> and observer
  delivery, on every way a callback can end. The clock is the parameter \<open>now\<close>.

  Because no lock is held while callbacks run, overlap is modelled as well: \<open>advance\<close> is the next
  atomic piece of one call (a lock region or one callback), and \<open>sys_step\<close> lets any number of
  goroutines, and the application's own changes of its world, interleave. A recursive call from a
  callback is one more goroutine's call while its caller waits. \<open>s_log\<close> is a ghost history of
  the commits. \<open>Fire_advances\<close> shows that a call that runs alone does exactly what \<open>Fire\<close> says;
  the invariant \<open>sys_inv\<close> gives mutual exclusion, a history that is a path of table rows, and
  consecutive observation numbers in every interleaving.
\<close>

section \<open>State and lock regions\<close>

type_synonym ('s, 'e, 'c, 't, 'w) flat_observer =
  "('s, 'e, 'c, ('s, 'e) observation, 't, 'w) observer"

record ('s, 'e, 'c, 't, 'w) inst =
  i_machine :: "('s, 'e, 'c, 't, 'w) machine"
  i_state :: 's
  i_inFlight :: bool
  i_observers :: "('s, 'e, 'c, 't, 'w) flat_observer list"
  i_seq :: u64

definition newInstance ::
    "('s, 'e, 'c, 't, 'w) machine option \<Rightarrow> 's \<Rightarrow>
      ('s, 'e, 'c, 't, 'w) flat_observer option list \<Rightarrow> ('s, 'e, 'c, 't, 'w) inst" where
  "newInstance m initial observers =
     \<lparr>i_machine = (case m of None \<Rightarrow> zero_machine | Some m' \<Rightarrow> m'),
      i_state = initial, i_inFlight = False, i_observers = Copy observers, i_seq = 0\<rparr>"

definition fire_begin ::
    "('s, 'e, 'c, 't, 'w) inst \<Rightarrow>
      ('s \<times> ('s, 'e) err option) +
      (('s, 'e, 'c, 't, 'w) inst \<times> 's \<times> ('s, 'e, 'c, 't, 'w) machine)" where
  "fire_begin i =
     (if i_inFlight i then Inl (i_state i, Some (Sentinel ErrInFlight))
      else Inr (i\<lparr>i_inFlight := True\<rparr>, i_state i, i_machine i))"

text \<open>The second component is the committed state, the last the observers to notify from Seq
  \<open>step\<close> on; there are none unless the position changed and observers are attached.\<close>

definition fire_publish ::
    "('s, 'e, 'c, 't, 'w) inst \<Rightarrow> 's \<Rightarrow> 's \<Rightarrow> ('s, 'e) err option \<Rightarrow>
      ('s, 'e, 'c, 't, 'w) inst \<times> 's \<times> u64 \<times> ('s, 'e, 'c, 't, 'w) flat_observer list" where
  "fire_publish i from next err =
     (if err = None then
        (let i1 = i\<lparr>i_state := next\<rparr> in
         if from \<noteq> next \<and> i_observers i \<noteq> []
         then (i1\<lparr>i_seq := i_seq i + 2\<rparr>, next, i_seq i + 1, i_observers i)
         else (i1, next, 0, []))
      else (i, i_state i, 0, []))"

definition fire_end :: "('s, 'e, 'c, 't, 'w) inst \<Rightarrow> ('s, 'e, 'c, 't, 'w) inst" where
  "fire_end i = i\<lparr>i_inFlight := False\<rparr>"

definition Fire ::
    "'s keyops \<Rightarrow> 'e keyops \<Rightarrow> ('w \<Rightarrow> nat) \<Rightarrow> ('s, 'e, 'c, 't, 'w) inst \<Rightarrow>
      'c \<Rightarrow> 'e \<Rightarrow> 't \<Rightarrow> 'w \<Rightarrow>
      ('s, 'e, 'c, 't, 'w) inst \<times> 'w \<times> ('s, 'e, 's \<times> ('s, 'e) err option) outcome" where
  "Fire K L now i ctx event data w =
     (case fire_begin i of
        Inl r \<Rightarrow> (i, w, Ret r)
      | Inr (i1, from, m) \<Rightarrow>
          (case fire K L m ctx from event data w of
             (w1, Ret (next, err)) \<Rightarrow>
               (case fire_publish i1 from next err of
                  (i2, committed, step, observers) \<Rightarrow>
                    if observers = [] then (fire_end i2, w1, Ret (committed, err))
                    else
                      (case deliverTransitionObservations now observers ctx step step from next
                              event data w1 of
                         (w2, Ret derr) \<Rightarrow>
                           (fire_end i2, w2, Ret (committed, errors_join [err, derr]))
                       | (w2, Panic v) \<Rightarrow> (fire_end i2, w2, Panic v)
                       | (w2, Goexit) \<Rightarrow> (fire_end i2, w2, Goexit)))
           | (w1, Panic v) \<Rightarrow> (fire_end i1, w1, Panic v)
           | (w1, Goexit) \<Rightarrow> (fire_end i1, w1, Goexit)))"

text \<open>The eager snapshot: every Guard runs before the pairs are handed out.\<close>

definition inst_Permitted ::
    "'s keyops \<Rightarrow> ('s, 'e, 'c, 't, 'w) inst \<Rightarrow> 'c \<Rightarrow> 't \<Rightarrow> ('s, 'e, 'w, ('e \<times> 's) list) act" where
  "inst_Permitted K i ctx data = Permitted K (i_machine i) ctx (i_state i) data collect []"

section \<open>Interleaved calls\<close>

datatype ('s, 'e, 'c, 't, 'w) pc =
    Idle
  | Called 'c 'e 't
  | Selecting 'c 'e 't 's "('s, 'e, 'c, 't, 'w) transition list" "('s, 'e) err list"
  | Effect 'c 'e 't 's "('s, 'e, 'c, 't, 'w) transition"
  | Publishing 'c 'e 't 's 's "('s, 'e) err option"
  | Delivering 'c 't
      "(nat \<times> u64 \<times> ('s, 'e) observation \<times> ('s, 'e, 'c, 't, 'w) flat_observer) list"
      "('s, 'e) err list" 's "('s, 'e) err option"
  | Unwinding "('s, 'e, 's \<times> ('s, 'e) err option) outcome"
  | Done "('s, 'e, 's \<times> ('s, 'e) err option) outcome"

text \<open>The next atomic piece of one call. The last component is the commit it makes, if any.\<close>

fun advance ::
    "'s keyops \<Rightarrow> 'e keyops \<Rightarrow> ('w \<Rightarrow> nat) \<Rightarrow> ('s, 'e, 'c, 't, 'w) inst \<Rightarrow> 'w \<Rightarrow>
      ('s, 'e, 'c, 't, 'w) pc \<Rightarrow>
      ('s, 'e, 'c, 't, 'w) inst \<times> 'w \<times> ('s, 'e, 'c, 't, 'w) pc \<times> ('s \<times> 'e \<times> 's) list" where
  "advance K L now i w Idle = (i, w, Idle, [])"
| "advance K L now i w (Called ctx event data) =
     (case fire_begin i of
        Inl r \<Rightarrow> (i, w, Done (Ret r), [])
      | Inr (i1, from, m) \<Rightarrow>
          (i1, w,
           if \<not> m_reflexiveState m \<and> \<not> key_ok K from \<or> \<not> m_reflexiveEvent m \<and> \<not> key_ok L event
           then Publishing ctx event data from from (Some (Sentinel ErrInvalidKey))
           else Selecting ctx event data from (slice (m_rows m) (from, event)) [], []))"
| "advance K L now i w (Selecting ctx event data from [] reasons) =
     (i, w, Publishing ctx event data from from
              (Some (Refusal from event (Sentinel ErrNotPermitted # reasons))), [])"
| "advance K L now i w (Selecting ctx event data from (t # rows) reasons) =
     (case t_guard t of
        None \<Rightarrow> (i, w, Effect ctx event data from t, [])
      | Some guard \<Rightarrow>
          (case guard ctx data w of
             (w', Ret None) \<Rightarrow> (i, w', Effect ctx event data from t, [])
           | (w', Ret (Some r)) \<Rightarrow> (i, w', Selecting ctx event data from rows (reasons @ [r]), [])
           | (w', Panic v) \<Rightarrow> (i, w', Unwinding (Panic v), [])
           | (w', Goexit) \<Rightarrow> (i, w', Unwinding Goexit, [])))"
| "advance K L now i w (Effect ctx event data from t) =
     (case t_do t of
        None \<Rightarrow> (i, w, Publishing ctx event data from (t_to t) None, [])
      | Some effect \<Rightarrow>
          (case effect ctx data w of
             (w', Ret None) \<Rightarrow> (i, w', Publishing ctx event data from (t_to t) None, [])
           | (w', Ret (Some e)) \<Rightarrow> (i, w', Publishing ctx event data from from (Some e), [])
           | (w', Panic v) \<Rightarrow> (i, w', Unwinding (Panic v), [])
           | (w', Goexit) \<Rightarrow> (i, w', Unwinding Goexit, [])))"
| "advance K L now i w (Publishing ctx event data from next err) =
     (case fire_publish i from next err of
        (i2, committed, step, observers) \<Rightarrow>
          (i2, w,
           if observers = [] then Unwinding (Ret (committed, err))
           else Delivering ctx data
                  (delivery_calls observers
                    (map (\<lambda>ob. (ob, observationSequence ob))
                      (transition_observations (now w) step step from next event)))
                  [] committed err,
           if err = None then [(from, event, next)] else []))"
| "advance K L now i w (Delivering ctx data [] errs committed err) =
     (i, w, Unwinding (Ret (committed, errors_join [err, errors_join (map Some errs)])), [])"
| "advance K L now i w (Delivering ctx data ((ix, q, ob, f) # calls) errs committed err) =
     (case f ctx ob data w of
        (w', out) \<Rightarrow>
          (i, w', Delivering ctx data calls
                    (errs @ present [failureError ix q (outcome_failure out)]) committed err, []))"
| "advance K L now i w (Unwinding out) = (fire_end i, w, Done out, [])"
| "advance K L now i w (Done out) = (i, w, Idle, [])"

record ('s, 'e, 'c, 't, 'w) sys =
  s_inst :: "('s, 'e, 'c, 't, 'w) inst"
  s_world :: 'w
  s_pc :: "nat \<Rightarrow> ('s, 'e, 'c, 't, 'w) pc"
  s_log :: "('s \<times> 'e \<times> 's) list"

inductive sys_step ::
    "'s keyops \<Rightarrow> 'e keyops \<Rightarrow> ('w \<Rightarrow> nat) \<Rightarrow>
      ('s, 'e, 'c, 't, 'w) sys \<Rightarrow> ('s, 'e, 'c, 't, 'w) sys \<Rightarrow> bool" for K L now where
  call: "s_pc s g = Idle \<Longrightarrow>
     sys_step K L now s (s\<lparr>s_pc := (s_pc s)(g := Called ctx event data)\<rparr>)"
| run: "advance K L now (s_inst s) (s_world s) (s_pc s g) = (i', w', p', commits) \<Longrightarrow>
     sys_step K L now s
       (s\<lparr>s_inst := i', s_world := w', s_pc := (s_pc s)(g := p'), s_log := s_log s @ commits\<rparr>)"
| world: "sys_step K L now s (s\<lparr>s_world := w'\<rparr>)"

inductive sys_reach ::
    "'s keyops \<Rightarrow> 'e keyops \<Rightarrow> ('w \<Rightarrow> nat) \<Rightarrow>
      ('s, 'e, 'c, 't, 'w) sys \<Rightarrow> ('s, 'e, 'c, 't, 'w) sys \<Rightarrow> bool" for K L now s0 where
  start: "sys_reach K L now s0 s0"
| step: "sys_reach K L now s0 s \<Longrightarrow> sys_step K L now s s' \<Longrightarrow> sys_reach K L now s0 s'"

definition sys_init :: "('s, 'e, 'c, 't, 'w) inst \<Rightarrow> 'w \<Rightarrow> ('s, 'e, 'c, 't, 'w) sys" where
  "sys_init i w = \<lparr>s_inst = i, s_world = w, s_pc = (\<lambda>_. Idle), s_log = []\<rparr>"

section \<open>A call that runs alone\<close>

lemma fire_begin_not_inFlight [simp]:
  "\<not> i_inFlight i \<Longrightarrow> fire_begin i = Inr (i\<lparr>i_inFlight := True\<rparr>, i_state i, i_machine i)"
  by (simp add: fire_begin_def)

lemma Fire_clears_marker: "\<not> i_inFlight i \<Longrightarrow> \<not> i_inFlight (fst (Fire K L now i ctx event data w))"
  by (auto simp: Fire_def fire_end_def split: prod.splits outcome.splits)

text \<open>Any number of steps of one call, without interference.\<close>

inductive advances ::
    "'s keyops \<Rightarrow> 'e keyops \<Rightarrow> ('w \<Rightarrow> nat) \<Rightarrow>
      ('s, 'e, 'c, 't, 'w) inst \<times> 'w \<times> ('s, 'e, 'c, 't, 'w) pc \<Rightarrow>
      ('s, 'e, 'c, 't, 'w) inst \<times> 'w \<times> ('s, 'e, 'c, 't, 'w) pc \<Rightarrow> bool" for K L now where
  stop: "advances K L now c c"
| more: "advance K L now i w p = (i', w', p', commits) \<Longrightarrow>
     advances K L now (i', w', p') c \<Longrightarrow> advances K L now (i, w, p) c"

lemma advances_trans [trans]:
  "advances K L now c1 c2 \<Longrightarrow> advances K L now c2 c3 \<Longrightarrow> advances K L now c1 c3"
  by (induction rule: advances.induct) (auto intro: advances.more)

lemma advances_one:
  "advance K L now i w p = (i', w', p', commits) \<Longrightarrow> advances K L now (i, w, p) (i', w', p')"
  by (rule advances.more [OF _ advances.stop])

lemma advances_then:
  "advances K L now c (i, w, p) \<Longrightarrow> advance K L now i w p = (i', w', p', commits) \<Longrightarrow>
     advances K L now c (i', w', p')"
  by (blast intro: advances_trans advances_one)

text \<open>Where the loop over the rows ends, by the way it ended.\<close>

definition after_select ::
    "'c \<Rightarrow> 'e \<Rightarrow> 't \<Rightarrow> 's \<Rightarrow>
      ('s, 'e, ('s, 'e) err list + ('s, 'e, 'c, 't, 'w) transition) outcome \<Rightarrow>
      ('s, 'e, 'c, 't, 'w) pc" where
  "after_select ctx event data from out =
     (case out of
        Ret (Inr t) \<Rightarrow> Effect ctx event data from t
      | Ret (Inl rs) \<Rightarrow> Publishing ctx event data from from
          (Some (Refusal from event (Sentinel ErrNotPermitted # rs)))
      | Panic v \<Rightarrow> Unwinding (Panic v)
      | Goexit \<Rightarrow> Unwinding Goexit)"

lemma advances_try_rows:
  "try_rows ctx data rows reasons w = (w', out) \<Longrightarrow>
     advances K L now (i, w, Selecting ctx event data from rows reasons)
       (i, w', after_select ctx event data from out)"
proof (induction rows arbitrary: reasons w)
  case Nil
  then show ?case by (auto simp: ret_def after_select_def intro!: advances_one)
next
  case (Cons t rows)
  show ?case
  proof (cases "t_guard t")
    case None
    with Cons.prems show ?thesis by (auto simp: ret_def after_select_def intro!: advances_one)
  next
    case (Some g)
    obtain w1 r where g: "g ctx data w = (w1, r)" by fastforce
    show ?thesis
    proof (cases "\<exists>e. r = Ret (Some e)")
      case True
      with Cons Some g show ?thesis by (auto simp: act_simps intro: advances.more)
    next
      case False
      with Cons.prems Some g show ?thesis
        by (auto simp: act_simps after_select_def split: outcome.splits option.splits
            intro!: advances_one)
    qed
  qed
qed

definition after_fire ::
    "'c \<Rightarrow> 'e \<Rightarrow> 't \<Rightarrow> 's \<Rightarrow> ('s, 'e, 's \<times> ('s, 'e) err option) outcome \<Rightarrow>
      ('s, 'e, 'c, 't, 'w) pc" where
  "after_fire ctx event data from out =
     (case out of
        Ret (next, err) \<Rightarrow> Publishing ctx event data from next err
      | Panic v \<Rightarrow> Unwinding (Panic v)
      | Goexit \<Rightarrow> Unwinding Goexit)"

lemma advances_effect:
  "run_do ctx data from t w = (w', out) \<Longrightarrow>
     advances K L now (i, w, Effect ctx event data from t)
       (i, w', after_fire ctx event data from out)"
  by (rule advances_one)
     (auto simp: run_do_def act_simps after_fire_def
       split: option.splits prod.splits outcome.splits)

lemma advances_fire:
  assumes "\<not> i_inFlight i"
    and "fire K L (i_machine i) ctx (i_state i) event data w = (w', out)"
  shows "advances K L now (i, w, Called ctx event data)
    (i\<lparr>i_inFlight := True\<rparr>, w', after_fire ctx event data (i_state i) out)"
proof (cases "\<not> m_reflexiveState (i_machine i) \<and> \<not> key_ok K (i_state i) \<or>
    \<not> m_reflexiveEvent (i_machine i) \<and> \<not> key_ok L event")
  case True
  with assms show ?thesis
    by (auto simp: fire_def selectTransition_def act_simps after_fire_def intro!: advances_one)
next
  case False
  let ?rows = "slice (m_rows (i_machine i)) (i_state i, event)"
  let ?i = "i\<lparr>i_inFlight := True\<rparr>"
  obtain w1 r where r: "try_rows ctx data ?rows [] w = (w1, r)" by fastforce
  have "advances K L now (i, w, Called ctx event data)
      (?i, w, Selecting ctx event data (i_state i) ?rows [])"
    using assms(1) False by (auto intro!: advances_one)
  also have "advances K L now \<dots> (?i, w1, after_select ctx event data (i_state i) r)"
    by (rule advances_try_rows [OF r])
  finally have sel: "advances K L now (i, w, Called ctx event data)
      (?i, w1, after_select ctx event data (i_state i) r)" .
  show ?thesis
  proof (cases "\<exists>t. r = Ret (Inr t)")
    case True
    then obtain t where t: "r = Ret (Inr t)" by blast
    then have "run_do ctx data (i_state i) t w1 = (w', out)"
      using assms(2) False r by (auto simp: fire_def selectTransition_def act_simps)
    from advances_trans [OF sel] advances_effect [OF this] t show ?thesis
      by (auto simp: after_select_def)
  next
    case noRow: False
    then have "after_select ctx event data (i_state i) r = after_fire ctx event data (i_state i) out \<and> w1 = w'"
      using assms(2) False r
      by (auto simp: fire_def selectTransition_def act_simps after_select_def after_fire_def
          split: outcome.splits sum.splits)
    with sel show ?thesis by simp
  qed
qed

lemma advances_deliver:
  "run_calls ctx data calls w = (w', es) \<Longrightarrow>
     advances K L now (i, w, Delivering ctx data calls errs committed err)
       (i, w', Delivering ctx data [] (errs @ es) committed err)"
proof (induction calls arbitrary: w errs es)
  case (Cons call calls)
  obtain ix q ob f where call: "call = (ix, q, ob, f)" by (cases call)
  obtain w1 out where f: "f ctx ob data w = (w1, out)" by fastforce
  obtain es' where es': "run_calls ctx data calls w1 = (w', es')"
    and es: "es = present [failureError ix q (outcome_failure out)] @ es'"
    using Cons.prems call f by (auto split: prod.splits)
  show ?case
    by (rule advances.more [OF _ Cons.IH [OF es', of "errs @ present [failureError ix q (outcome_failure out)]",
          simplified append_assoc, folded es]])
       (simp add: call f)
qed (auto intro: advances.stop)

lemma Fire_advances:
  assumes "\<not> i_inFlight i" "Fire K L now i ctx event data w = (i', w', out)"
  shows "advances K L now (i, w, Called ctx event data) (i', w', Done out)"
proof -
  let ?i = "i\<lparr>i_inFlight := True\<rparr>"
  obtain w1 r where r: "fire K L (i_machine i) ctx (i_state i) event data w = (w1, r)" by fastforce
  note calls = advances_fire [OF assms(1) r, of now]
  show ?thesis
  proof (cases "\<exists>next err. r = Ret (next, err)")
    case False
    with calls assms r show ?thesis
      by (auto simp: Fire_def after_fire_def split: outcome.splits intro!: advances_then [OF calls])
  next
    case True
    then obtain next' err where ne: "r = Ret (next', err)" by blast
    obtain i2 committed step' obs where pub: "fire_publish ?i (i_state i) next' err = (i2, committed, step', obs)"
      using prod_cases4 by blast
    show ?thesis
    proof (cases "obs = []")
      case True
      have "advances K L now (i, w, Called ctx event data) (i2, w1, Unwinding (Ret (committed, err)))"
        using calls by (rule advances_then) (simp add: ne after_fire_def pub True)
      then show ?thesis
        by (rule advances_then) (use assms r ne pub True in \<open>auto simp: Fire_def\<close>)
    next
      case False
      let ?calls = "delivery_calls obs (map (\<lambda>ob. (ob, observationSequence ob))
        (transition_observations (now w1) step' step' (i_state i) next' event))"
      obtain w2 es where es: "run_calls ctx data ?calls w1 = (w2, es)" by fastforce
      have "advances K L now (i, w, Called ctx event data)
          (i2, w1, Delivering ctx data ?calls [] committed err)"
        using calls by (rule advances_then) (simp add: ne after_fire_def pub False)
      from advances_trans [OF this advances_deliver [OF es]]
      have "advances K L now (i, w, Called ctx event data)
          (i2, w2, Delivering ctx data [] es committed err)" by simp
      from advances_then [OF advances_then [OF this advance.simps(7)] advance.simps(9)]
      show ?thesis
        using assms r ne pub False es
        by (auto simp: Fire_def deliverTransitionObservations_def deliverObservations_def
            Deliver_run_calls)
    qed
  qed
qed

section \<open>The invariant of interleaved calls\<close>

fun busy :: "('s, 'e, 'c, 't, 'w) pc \<Rightarrow> bool" where
  "busy (Selecting ctx event data from rows reasons) = True"
| "busy (Effect ctx event data from t) = True"
| "busy (Publishing ctx event data from next err) = True"
| "busy (Delivering ctx data calls errs committed err) = True"
| "busy (Unwinding out) = True"
| "busy p = False"

text \<open>What a call in flight knows: it started from the committed state, and the row it is about
  to commit is one of the machine's for that state and its event.\<close>

fun pc_ok :: "('s, 'e, 'c, 't, 'w) inst \<Rightarrow> ('s, 'e, 'c, 't, 'w) pc \<Rightarrow> bool" where
  "pc_ok i (Selecting ctx event data from rows reasons) =
     (from = i_state i \<and> set rows \<subseteq> set (slice (m_rows (i_machine i)) (from, event)))"
| "pc_ok i (Effect ctx event data from t) =
     (from = i_state i \<and> t \<in> set (slice (m_rows (i_machine i)) (from, event)))"
| "pc_ok i (Publishing ctx event data from next err) =
     (from = i_state i \<and>
      (err = None \<longrightarrow> (\<exists>t \<in> set (slice (m_rows (i_machine i)) (from, event)). t_to t = next)))"
| "pc_ok i p = True"

fun table_path :: "('s, 'e, 'c, 't, 'w) machine \<Rightarrow> 's \<Rightarrow> ('s \<times> 'e \<times> 's) list \<Rightarrow> 's \<Rightarrow> bool" where
  "table_path m s [] s' = (s = s')"
| "table_path m s ((a, e, b) # log) s' =
     (a = s \<and> (\<exists>t \<in> set (slice (m_rows m) (a, e)). t_to t = b) \<and> table_path m b log s')"

lemma table_path_snoc [simp]:
  "table_path m s (log @ [(a, e, b)]) s' \<longleftrightarrow>
     table_path m s log a \<and> (\<exists>t \<in> set (slice (m_rows m) (a, e)). t_to t = b) \<and> b = s'"
  by (induction m s log a rule: table_path.induct) auto

definition moves :: "('s \<times> 'e \<times> 's) list \<Rightarrow> nat" where
  "moves log = length (filter (\<lambda>(a, e, b). a \<noteq> b) log)"

lemma moves_append [simp]: "moves (xs @ ys) = moves xs + moves ys"
  by (simp add: moves_def)

text \<open>The commits a piece of a call makes, against the change it makes to the instance.\<close>

definition commits_ok ::
    "('s, 'e, 'c, 't, 'w) inst \<Rightarrow> ('s, 'e, 'c, 't, 'w) inst \<Rightarrow> ('s \<times> 'e \<times> 's) list \<Rightarrow> bool" where
  "commits_ok i i' commits \<longleftrightarrow>
     i_machine i' = i_machine i \<and> i_observers i' = i_observers i \<and>
     table_path (i_machine i) (i_state i) commits (i_state i') \<and>
     i_seq i' = i_seq i + (if i_observers i = [] then 0 else of_nat (2 * moves commits))"

lemma commits_ok_Nil [simp]: "commits_ok i i' [] \<longleftrightarrow>
     i_machine i' = i_machine i \<and> i_observers i' = i_observers i \<and> i_state i' = i_state i \<and>
     i_seq i' = i_seq i"
  by (auto simp: commits_ok_def moves_def)

lemma advance_busy:
  assumes "busy p" "i_inFlight i" "pc_ok i p" "advance K L now i w p = (i', w', p', commits)"
  shows "commits_ok i i' commits \<and> pc_ok i' p' \<and> i_inFlight i' = busy p'"
proof (cases "(K, L, now, i, w, p)" rule: advance.cases)
  case (6 K L now i w ctx event data src nxt err)
  with assms show ?thesis
    by (cases err) (auto simp: fire_publish_def Let_def commits_ok_def moves_def split: if_splits)
qed (use assms in \<open>auto simp: fire_end_def split: option.splits prod.splits outcome.splits\<close>)

lemma advance_not_busy:
  assumes "\<not> busy p" "advance K L now i w p = (i', w', p', commits)"
  shows "commits = [] \<and> commits_ok i i' [] \<and> pc_ok i' p' \<and>
     (if busy p' then \<not> i_inFlight i \<and> i_inFlight i' else i' = i)"
  using assms
  by (cases "(K, L, now, i, w, p)" rule: advance.cases)
     (auto simp: fire_begin_def split: if_splits)

definition sys_inv ::
    "('s, 'e, 'c, 't, 'w) inst \<Rightarrow> ('s, 'e, 'c, 't, 'w) sys \<Rightarrow> bool" where
  "sys_inv i0 s \<longleftrightarrow>
     commits_ok i0 (s_inst s) (s_log s) \<and>
     (\<forall>g h. busy (s_pc s g) \<longrightarrow> busy (s_pc s h) \<longrightarrow> g = h) \<and>
     (i_inFlight (s_inst s) \<longleftrightarrow> (\<exists>g. busy (s_pc s g))) \<and>
     (\<forall>g. pc_ok (s_inst s) (s_pc s g))"

lemma commits_ok_append:
  assumes "commits_ok i i' xs" "commits_ok i' i'' ys"
  shows "commits_ok i i'' (xs @ ys)"
proof -
  have "table_path m a xs b \<Longrightarrow> table_path m b ys c \<Longrightarrow> table_path m a (xs @ ys) c" for m a b c
    by (induction m a xs b rule: table_path.induct) auto
  with assms show ?thesis by (auto simp: commits_ok_def)
qed

lemma pc_ok_not_busy: "\<not> busy p \<Longrightarrow> pc_ok i p"
  by (cases p) auto

lemma sys_inv_upd:
  "sys_inv i0 (s\<lparr>s_inst := i', s_world := w', s_pc := pc, s_log := log\<rparr>) \<longleftrightarrow>
     commits_ok i0 i' log \<and>
     (\<forall>g h. busy (pc g) \<longrightarrow> busy (pc h) \<longrightarrow> g = h) \<and>
     (i_inFlight i' \<longleftrightarrow> (\<exists>g. busy (pc g))) \<and>
     (\<forall>g. pc_ok i' (pc g))"
  by (simp add: sys_inv_def)

lemma sys_inv_pc:
  "sys_inv i0 (s\<lparr>s_pc := pc\<rparr>) \<longleftrightarrow>
     commits_ok i0 (s_inst s) (s_log s) \<and>
     (\<forall>g h. busy (pc g) \<longrightarrow> busy (pc h) \<longrightarrow> g = h) \<and>
     (i_inFlight (s_inst s) \<longleftrightarrow> (\<exists>g. busy (pc g))) \<and>
     (\<forall>g. pc_ok (s_inst s) (pc g))"
  by (simp add: sys_inv_def)

lemma sys_step_inv:
  assumes "sys_step K L now s s'" "sys_inv i0 s"
  shows "sys_inv i0 s'"
  using assms
proof (induction rule: sys_step.induct)
  case (call s g ctx event data)
  let ?pc = "(s_pc s)(g := Called ctx event data)"
  have busy: "busy (?pc h) = busy (s_pc s h)" for h
    using call.hyps by simp
  have "pc_ok (s_inst s) (?pc h)" for h
    using call.prems by (simp add: sys_inv_def)
  with call.prems show ?case
    unfolding sys_inv_pc busy unfolding sys_inv_def by blast
next
  case (run s g i' w' p' commits)
  let ?i = "s_inst s" and ?pc = "(s_pc s)(g := p')"
  show ?case
  proof (cases "busy (s_pc s g)")
    case True
    then have only: "busy (s_pc s h) \<Longrightarrow> h = g" for h
      using run.prems unfolding sys_inv_def by blast
    have adv: "commits_ok ?i i' commits" "pc_ok i' p'" "i_inFlight i' = busy p'"
      using advance_busy [OF True _ _ run.hyps] True run.prems unfolding sys_inv_def by blast+
    have "pc_ok i' (?pc h)" for h
      using adv(2) only [of h] pc_ok_not_busy [of "s_pc s h" i'] by (cases "h = g") auto
    moreover have upd: "busy (?pc h) \<Longrightarrow> h = g" for h
      using only [of h] by (cases "h = g") simp_all
    moreover have "commits_ok i0 i' (s_log s @ commits)"
      using run.prems adv(1) unfolding sys_inv_def by (blast intro: commits_ok_append)
    moreover have "(\<exists>h. busy (?pc h)) = busy p'"
      using upd by (metis fun_upd_same)
    ultimately show ?thesis
      unfolding sys_inv_upd using adv(3) by metis
  next
    case False
    note adv = advance_not_busy [OF False run.hyps]
    show ?thesis
    proof (cases "busy p'")
      case True
      with adv have "\<not> i_inFlight ?i" by simp
      then have none: "\<not> busy (s_pc s h)" for h
        using run.prems unfolding sys_inv_def by blast
      have "pc_ok i' (?pc h)" for h
        using adv none [of h] by (cases "h = g") (simp_all add: pc_ok_not_busy)
      moreover have "busy (?pc h) \<longleftrightarrow> h = g" for h
        using none True by (cases "h = g") auto
      moreover have "commits_ok i0 i' (s_log s @ commits)"
        using run.prems adv unfolding sys_inv_def by (blast intro: commits_ok_append)
      ultimately show ?thesis
        unfolding sys_inv_upd using adv True by simp
    next
      case notBusy: False
      have "busy (?pc h) = busy (s_pc s h)" for h
        using False notBusy by simp
      moreover have "pc_ok ?i (?pc h)" for h
        using run.prems notBusy unfolding sys_inv_def by (simp add: pc_ok_not_busy)
      ultimately show ?thesis
        unfolding sys_inv_upd using adv notBusy run.prems by (simp add: sys_inv_def)
    qed
  qed
next
  case (world s w')
  then show ?case by (simp add: sys_inv_def)
qed

lemma sys_inv_init: "\<not> i_inFlight i \<Longrightarrow> sys_inv i (sys_init i w)"
  by (simp add: sys_inv_def sys_init_def)

lemma sys_reach_inv:
  "sys_reach K L now s0 s \<Longrightarrow> sys_inv i s0 \<Longrightarrow> sys_inv i s"
  by (induction rule: sys_reach.induct) (auto intro: sys_step_inv)

section \<open>Properties\<close>

text \<open>C17. Fire on an idle Instance leaves it idle on every way the call can end; it publishes the
  destination exactly when the machine's effectful half returned it with a nil error, and a
  refusal, an effect error, a panic or a Goexit leaves the state unchanged. The machine and the
  observers never change, and the observation counter advances by two exactly when the position
  changed under attached observers.\<close>

theorem fire_commits_only_success:
  "\<not> i_inFlight i \<and> Fire K L now i ctx event data w = (i', w', out) \<longrightarrow>
     \<not> i_inFlight i' \<and> i_machine i' = i_machine i \<and> i_observers i' = i_observers i \<and>
     (case fire K L (i_machine i) ctx (i_state i) event data w of
        (w1, Ret (next, None)) \<Rightarrow>
          i_state i' = next \<and>
          i_seq i' = i_seq i + (if i_state i \<noteq> next \<and> i_observers i \<noteq> [] then 2 else 0) \<and>
          (\<exists>err. out = Ret (next, err))
      | (w1, Ret (next, Some e)) \<Rightarrow>
          i_state i' = i_state i \<and> i_seq i' = i_seq i \<and> out = Ret (i_state i, Some e)
      | (w1, Panic v) \<Rightarrow> i_state i' = i_state i \<and> i_seq i' = i_seq i \<and> out = Panic v
      | (w1, Goexit) \<Rightarrow> i_state i' = i_state i \<and> i_seq i' = i_seq i \<and> out = Goexit)"
  by (auto simp: Fire_def fire_publish_def fire_end_def Let_def deliverTransitionObservations_def
      deliverObservations_def Deliver_run_calls
      split: prod.splits outcome.splits option.splits if_splits)

definition demo_inst :: "(nat, nat, unit, nat, nat list) inst" where
  "demo_inst = newInstance (Some (table_machine demo_keys demo_keys demo_table)) 1 []"

lemma demo_inst_idle: "\<not> i_inFlight demo_inst"
  by (simp add: demo_inst_def newInstance_def)

lemma demo_inst_effect_fails:
  "Fire demo_keys demo_keys (\<lambda>_. 0) demo_inst () 1 9 [] =
     (demo_inst, [9], Ret (1, Some (AppErr 8 [])))"
  by (simp add: Fire_def demo_inst_def newInstance_def fire_def selectTransition_def
      demo_table_def table_rows_def row_key_def demo_guard_def demo_keys_def act_simps
      run_do_def demo_effect_def fire_publish_def fire_end_def Copy_def)

theorem fire_commits_only_success_witness:
  "\<not> i_inFlight demo_inst \<and>
   Fire demo_keys demo_keys (\<lambda>_. 0) demo_inst () 1 9 [] =
     (demo_inst, [9], Ret (1, Some (AppErr 8 []))) \<and>
   i_machine demo_inst = i_machine demo_inst"
  using fire_commits_only_success [of demo_inst demo_keys demo_keys "\<lambda>_. 0" "()" 1 9 "[]"]
    demo_inst_effect_fails
  by (simp add: demo_inst_def newInstance_def)

text \<open>An overlapping or recursive Fire is refused at once: it runs no callback, changes
  nothing, and reports the committed state with ErrInFlight.\<close>

theorem fire_rejects_overlap:
  assumes "i_inFlight i"
  shows "Fire K L now i ctx event data w = (i, w, Ret (i_state i, Some (Sentinel ErrInFlight)))"
  using assms by (simp add: Fire_def fire_begin_def)

theorem fire_rejects_overlap_witness:
  "Fire demo_keys demo_keys (\<lambda>_. 0) (demo_inst\<lparr>i_inFlight := True\<rparr>) () 1 9 [] =
     (demo_inst\<lparr>i_inFlight := True\<rparr>, [], Ret (1, Some (Sentinel ErrInFlight)))"
  using fire_rejects_overlap [of "demo_inst\<lparr>i_inFlight := True\<rparr>" demo_keys demo_keys "\<lambda>_. 0" "()" 1 9 "[]"]
  by (simp add: demo_inst_def newInstance_def)


lemma demo_run_reach:
  "sys_reach demo_keys demo_keys (\<lambda>_. 0) (sys_init demo_inst [])
     ((sys_init demo_inst [])\<lparr>s_inst := demo_inst\<lparr>i_inFlight := True\<rparr>,
        s_pc := (\<lambda>_. Idle)(3 := Selecting () 1 0 1
          [\<lparr>t_from = 1, t_event = 1, t_to = 0, t_guard = Some demo_guard, t_do = Some demo_effect\<rparr>]
          [])\<rparr>)"
proof -
  let ?s1 = "(sys_init demo_inst [])\<lparr>s_pc := (s_pc (sys_init demo_inst []))(3 := Called () 1 0)\<rparr>"
  have "sys_step demo_keys demo_keys (\<lambda>_. 0) (sys_init demo_inst []) ?s1"
    by (rule sys_step.call) (simp add: sys_init_def)
  from sys_reach.step [OF sys_reach.start this]
  have "sys_reach demo_keys demo_keys (\<lambda>_. 0) (sys_init demo_inst []) ?s1" .
  moreover have "advance demo_keys demo_keys (\<lambda>_. 0) (s_inst ?s1) (s_world ?s1) (s_pc ?s1 3) =
      (demo_inst\<lparr>i_inFlight := True\<rparr>, [], Selecting () 1 0 1
        [\<lparr>t_from = 1, t_event = 1, t_to = 0, t_guard = Some demo_guard, t_do = Some demo_effect\<rparr>]
        [], [])"
    by (simp add: sys_init_def demo_inst_def newInstance_def demo_keys_def demo_table_def
        table_rows_def row_key_def)
  ultimately show ?thesis
    by (rule sys_reach.step [OF _ sys_step.run [of _ _ _ ?s1 3], THEN back_subst [of "sys_reach _ _ _ _"]])
       (simp add: sys_init_def)
qed




end
