(* ===== verification/Chart_Shape.thy ===== *)
theory Chart_Shape
  imports Keycheck
begin

text \<open>
  \<^verbatim>\<open>statechart/position.go\<close> (the compiled hierarchy) and the cycle search of
  \<^verbatim>\<open>statechart/statechart.go\<close>.

  A \<open>shape\<close> numbers the states in declaration order; a \<open>node\<close> holds the parent's number
  (\<open>None\<close> for the code's -1), the depth, the interval of preorder positions its subtree takes,
  and the number its Initial chain ends at. \<open>compileShape\<close> builds it with the code's passes:
  \<open>link\<close>, the stack-driven \<open>preorder_loop\<close> and the reverse pass \<open>settle\<close>. The loops that follow
  parents take fuel, the number of nodes, which bounds a walk in a hierarchy without cycles; they
  stop where the code would index -1, which the lemmas show does not happen on a compiled shape.

  The specification is the parent map alone: \<open>lineage\<close> relates a state to the list from it to its
  root and \<open>chain\<close> follows Initials. The lemmas: \<open>hierarchyCycles\<close> reports nothing exactly when
  every state has a lineage, and otherwise real cycles; \<open>compileShape\<close> yields a shape that
  represents the parent map (\<open>shape_ok\<close>): depths are lineage lengths, interval nesting is
  membership in a lineage, destinations are chain ends; the queries agree with lineages.
\<close>

section \<open>Lineages\<close>

inductive lineage :: "('a \<Rightarrow> 'a option) \<Rightarrow> 'a \<Rightarrow> 'a list \<Rightarrow> bool" for p where
  root: "p x = None \<Longrightarrow> lineage p x [x]"
| up: "p x = Some y \<Longrightarrow> lineage p y ys \<Longrightarrow> lineage p x (x # ys)"

inductive_cases lineage_NilE: "lineage p x []"
inductive_cases lineage_ConsE: "lineage p x (y # ys)"

lemma lineage_head: "lineage p x l \<Longrightarrow> \<exists>r. l = x # r"
  by (auto elim: lineage.cases)

lemma lineage_unique: "lineage p x l \<Longrightarrow> lineage p x l' \<Longrightarrow> l' = l"
proof (induction arbitrary: l' rule: lineage.induct)
  case (root x)
  then show ?case by (auto elim: lineage.cases)
next
  case (up x y ys)
  from up.prems up.hyps(1) obtain zs where "l' = x # zs" "lineage p y zs"
    by (auto elim: lineage.cases)
  with up.IH show ?case by simp
qed

lemma lineage_parent:
  "lineage p x l \<Longrightarrow> p x = Some y \<Longrightarrow> \<exists>ys. l = x # ys \<and> lineage p y ys"
  by (auto elim: lineage.cases)

lemma lineage_suffix:
  "lineage p x l \<Longrightarrow> y \<in> set l \<Longrightarrow> \<exists>l1 l2. l = l1 @ l2 \<and> lineage p y l2"
proof (induction rule: lineage.induct)
  case (root x)
  then show ?case by (auto intro: lineage.root exI [of _ "[]"])
next
  case (up x z ys)
  show ?case
  proof (cases "y = x")
    case True
    have "x # ys = [] @ (x # ys)" "lineage p x (x # ys)"
      using up.hyps by (auto intro: lineage.up)
    with True show ?thesis by blast
  next
    case False
    with up obtain l1 l2 where "ys = l1 @ l2" "lineage p y l2" by auto
    then have "x # ys = (x # l1) @ l2" by simp
    with \<open>lineage p y l2\<close> show ?thesis by blast
  qed
qed

lemma lineage_not_in_rest: "lineage p x (x # r) \<Longrightarrow> x \<notin> set r"
proof
  assume l: "lineage p x (x # r)" and "x \<in> set r"
  from l \<open>x \<in> set r\<close> obtain y where "p x = Some y" "lineage p y r"
    by (auto elim: lineage_ConsE)
  with \<open>x \<in> set r\<close> obtain l1 l2 where "r = l1 @ l2" "lineage p x l2"
    by (blast dest: lineage_suffix)
  with lineage_unique [OF l] have "l2 = x # r" by blast
  with \<open>r = l1 @ l2\<close> show False by (auto dest: arg_cong [where f = length])
qed

lemma lineage_distinct: "lineage p x l \<Longrightarrow> distinct l"
proof (induction rule: lineage.induct)
  case (up x y ys)
  then show ?case using lineage_not_in_rest [OF lineage.up] by fastforce
qed simp

lemma lineage_same_parent:
  assumes l: "lineage p j l" and c: "c \<in> set l" "d \<in> set l" and "p c = p d"
  shows "c = d"
proof -
  from lineage_suffix [OF l c(1)] obtain l1 l2 where 1: "l = l1 @ l2" "lineage p c l2" by blast
  from lineage_suffix [OF l c(2)] obtain m1 m2 where 2: "l = m1 @ m2" "lineage p d m2" by blast
  have "tl l2 = tl m2"
  proof (cases "p c")
    case None
    with \<open>p c = p d\<close> have "p d = None" by simp
    then have "l2 = [c]" "m2 = [d]"
      using 1(2) 2(2) None lineage.root lineage_unique by metis+
    then show ?thesis by simp
  next
    case (Some y)
    with \<open>p c = p d\<close> have "p d = Some y" by simp
    obtain ys where "l2 = c # ys" "lineage p y ys"
      using lineage_parent [OF 1(2) Some] by blast
    moreover obtain zs where "m2 = d # zs" "lineage p y zs"
      using lineage_parent [OF 2(2) \<open>p d = Some y\<close>] by blast
    ultimately show ?thesis by (auto dest: lineage_unique)
  qed
  moreover obtain r s where "l2 = c # r" "m2 = d # s"
    using lineage_head [OF 1(2)] lineage_head [OF 2(2)] by blast
  ultimately show ?thesis using 1(1) 2(1) by (auto simp: append_eq_append_conv2)
qed

lemma lineage_child:
  assumes "lineage p j l" "i \<in> set l" "j \<noteq> i"
  obtains c where "c \<in> set l" "p c = Some i"
  using assms
proof (induction arbitrary: thesis rule: lineage.induct)
  case (up x y ys)
  show ?case
  proof (cases "y = i")
    case True
    with up.hyps up.prems(1) show ?thesis by auto
  next
    case False
    with up show ?thesis by auto
  qed
qed simp

lemma lineage_parent_mem:
  "lineage p j l \<Longrightarrow> c \<in> set l \<Longrightarrow> p c = Some i \<Longrightarrow> i \<in> set l"
  by (induction rule: lineage.induct) (auto dest: lineage_head)

lemma lineage_last: "lineage p x l \<Longrightarrow> p (last l) = None"
  by (induction rule: lineage.induct) (auto dest: lineage_head)

text \<open>The end of an Initial chain.\<close>

inductive chain :: "('a \<Rightarrow> 'a option) \<Rightarrow> 'a \<Rightarrow> 'a \<Rightarrow> bool" for ini where
  stop: "ini x = None \<Longrightarrow> chain ini x x"
| descend: "ini x = Some y \<Longrightarrow> chain ini y d \<Longrightarrow> chain ini x d"

lemma chain_unique: "chain ini x d \<Longrightarrow> chain ini x d' \<Longrightarrow> d' = d"
proof (induction arbitrary: d' rule: chain.induct)
  case (stop x)
  from stop(2) show ?case by (cases rule: chain.cases) (simp_all add: stop(1))
next
  case (descend x y d)
  from descend(4) have "chain ini y d'"
    by (cases rule: chain.cases) (simp_all add: descend(1))
  then show ?case by (rule descend.IH)
qed

lemma chain_end: "chain ini x d \<Longrightarrow> ini d = None"
  by (induction rule: chain.induct)

section \<open>The cycle search\<close>

datatype colour = Unseen | Visiting | Finished

text \<open>The inner loop: follow parents from \<open>state\<close> until a finished state, a state of the
  current path (then the cycle is what the path holds from there on), or a root.\<close>

fun cycle_walk ::
    "nat \<Rightarrow> ('s \<rightharpoonup> 's) \<Rightarrow> 's \<Rightarrow> ('s \<Rightarrow> colour) \<Rightarrow> ('s \<rightharpoonup> nat) \<Rightarrow> 's list \<Rightarrow>
      ('s \<Rightarrow> colour) \<times> ('s \<rightharpoonup> nat) \<times> 's list \<times> 's list option" where
  "cycle_walk 0 parent state color positions path = (color, positions, path, None)"
| "cycle_walk (Suc fuel) parent state color positions path =
     (if color state = Finished then (color, positions, path, None)
      else if color state = Visiting then
        (color, positions, path,
         Some (drop (case positions state of None \<Rightarrow> 0 | Some k \<Rightarrow> k) path @ [state]))
      else
        (let color = color(state := Visiting);
             positions = positions(state \<mapsto> length path);
             path = path @ [state]
         in case parent state of
              None \<Rightarrow> (color, positions, path, None)
            | Some next \<Rightarrow> cycle_walk fuel parent next color positions path))"

fun cycle_starts ::
    "nat \<Rightarrow> ('s \<rightharpoonup> 's) \<Rightarrow> 's list \<Rightarrow> ('s \<Rightarrow> colour) \<Rightarrow> ('s \<rightharpoonup> nat) \<Rightarrow> 's list list" where
  "cycle_starts fuel parent [] color positions = []"
| "cycle_starts fuel parent (start # order) color positions =
     (if color start \<noteq> Unseen then cycle_starts fuel parent order color positions
      else
        (case cycle_walk fuel parent start color positions [] of
           (color, positions, path, problem) \<Rightarrow>
             (case problem of None \<Rightarrow> [] | Some cycle \<Rightarrow> [cycle]) @
             cycle_starts fuel parent order
               (\<lambda>s. if s \<in> set path then Finished else color s)
               (\<lambda>s. if s \<in> set path then None else positions s)))"

definition hierarchyCycles :: "'s list \<Rightarrow> ('s \<rightharpoonup> 's) \<Rightarrow> 's list list" where
  "hierarchyCycles order parent =
     cycle_starts (Suc (length order)) parent order (\<lambda>_. Unseen) Map.empty"

text \<open>A reported cycle: at least two entries, each the parent of the one before, back to the
  first.\<close>

definition parent_cycle :: "('s \<rightharpoonup> 's) \<Rightarrow> 's list \<Rightarrow> bool" where
  "parent_cycle parent c \<longleftrightarrow>
     2 \<le> length c \<and> hd c = last c \<and>
     (\<forall>k. Suc k < length c \<longrightarrow> parent (c ! k) = Some (c ! Suc k))"

lemma parent_cycle_no_lineage:
  assumes c: "parent_cycle parent c" and "lineage parent (hd c) l"
  shows False
proof -
  have mem: "c ! k \<in> set (tl l)" if "0 < k" "k < length c" for k
    using that
  proof (induction k)
    case (Suc k)
    have step: "parent (c ! k) = Some (c ! Suc k)"
      using c Suc.prems by (simp add: parent_cycle_def)
    show ?case
    proof (cases "k = 0")
      case True
      then have "parent (hd c) = Some (c ! Suc 0)"
        using step Suc.prems by (cases c) auto
      with assms(2) obtain ys where "l = hd c # ys" "lineage parent (c ! Suc 0) ys"
        by (blast dest: lineage_parent)
      then show ?thesis using True by (auto dest: lineage_head)
    next
      case False
      with Suc have in_tl: "c ! k \<in> set (tl l)" by simp
      obtain r where l: "l = hd c # r" using lineage_head [OF assms(2)] by blast
      with in_tl have "c ! k \<in> set r" by simp
      then obtain y where "lineage parent y r"
        using assms(2) l by (auto elim: lineage_ConsE)
      then show ?thesis using \<open>c ! k \<in> set r\<close> step l lineage_parent_mem by fastforce
    qed
  qed simp
  have len: "2 \<le> length c" using c by (simp add: parent_cycle_def)
  then have "c \<noteq> []" by auto
  from last_conv_nth [OF this] len
  have "last c = c ! (length c - 1)" "0 < length c - 1" "length c - 1 < length c" by auto
  then have "hd c \<in> set (tl l)"
    using mem c by (metis parent_cycle_def)
  moreover obtain r where "l = hd c # r" using lineage_head [OF assms(2)] by blast
  ultimately show False using lineage_not_in_rest [of parent "hd c" r] assms(2) by simp
qed

abbreviation rooted :: "('s \<rightharpoonup> 's) \<Rightarrow> 's \<Rightarrow> bool" where
  "rooted parent s \<equiv> (\<exists>l. lineage parent s l)"

text \<open>What holds whenever the inner loop looks at \<open>state\<close>.\<close>

definition walk_inv ::
    "('s \<rightharpoonup> 's) \<Rightarrow> 's list \<Rightarrow> 's \<Rightarrow> ('s \<Rightarrow> colour) \<Rightarrow> ('s \<rightharpoonup> nat) \<Rightarrow> 's list \<Rightarrow> bool" where
  "walk_inv parent order state color positions path \<longleftrightarrow>
     distinct path \<and> set path \<subseteq> set order \<and> state \<in> set order \<and>
     (\<forall>s. color s = Visiting \<longleftrightarrow> s \<in> set path) \<and>
     (\<forall>k < length path. positions (path ! k) = Some k) \<and>
     (\<forall>k. Suc k < length path \<longrightarrow> parent (path ! k) = Some (path ! Suc k)) \<and>
     (path \<noteq> [] \<longrightarrow> parent (last path) = Some state)"

lemma walk_inv_step:
  assumes inv: "walk_inv parent order state color positions path"
    and "color state = Unseen" "parent state = Some up" "up \<in> set order"
  shows "walk_inv parent order up (color(state := Visiting))
    (positions(state \<mapsto> length path)) (path @ [state])"
proof -
  have new: "state \<notin> set path" using inv assms(2) by (metis colour.distinct(1) walk_inv_def)
  have "(path @ [state]) ! k \<noteq> state" if "k < length path" for k
    using that new by (auto simp: nth_append)
  then have "(positions(state \<mapsto> length path)) ((path @ [state]) ! k) = Some k"
    if "k < length (path @ [state])" for k
    using that inv by (cases "k = length path") (auto simp: walk_inv_def nth_append)
  moreover have "parent ((path @ [state]) ! k) = Some ((path @ [state]) ! Suc k)"
    if "Suc k < length (path @ [state])" for k
  proof (cases "Suc k = length path")
    case True
    then have "path \<noteq> []" by auto
    with True have "last path = path ! k" by (metis diff_Suc_1 last_conv_nth)
    then show ?thesis using inv True \<open>path \<noteq> []\<close> by (simp add: walk_inv_def nth_append)
  next
    case False
    then show ?thesis using inv that by (simp add: walk_inv_def nth_append)
  qed
  ultimately show ?thesis
    using inv new assms(2-4) by (auto simp: walk_inv_def)
qed

lemma walk_inv_cycle:
  assumes inv: "walk_inv parent order state color positions path" and "color state = Visiting"
  shows "parent_cycle parent
    (drop (case positions state of None \<Rightarrow> 0 | Some k \<Rightarrow> k) path @ [state])" (is "parent_cycle _ ?c")
    and "hd (drop (case positions state of None \<Rightarrow> 0 | Some k \<Rightarrow> k) path @ [state]) = state"
proof -
  have "state \<in> set path" using assms by (auto simp: walk_inv_def)
  then obtain j where j: "j < length path" "path ! j = state" by (auto simp: in_set_conv_nth)
  then have pos: "positions state = Some j" using inv by (auto simp: walk_inv_def)
  have hd: "hd (drop j path @ [state]) = state" using j by (simp add: hd_drop_conv_nth)
  show "hd ?c = state" using hd pos by simp
  have "parent ((drop j path @ [state]) ! k) = Some ((drop j path @ [state]) ! Suc k)"
    if "Suc k < length (drop j path @ [state])" for k
  proof (cases "Suc (j + k) = length path")
    case True
    then have "path ! (j + k) = last path" by (metis diff_Suc_1 last_conv_nth length_0_conv nat.distinct(1))
    moreover have "parent (last path) = Some state" using inv j by (auto simp: walk_inv_def)
    moreover have "k < length path - j" "Suc k = length path - j" using True j by auto
    ultimately show ?thesis using j by (simp add: nth_append)
  next
    case False
    with that have "Suc k < length path - j" by simp
    then show ?thesis using inv by (simp add: walk_inv_def nth_append)
  qed
  then show "parent_cycle parent ?c" using j pos hd by (simp add: parent_cycle_def)
qed

text \<open>Where the inner loop ends.\<close>

lemma cycle_walk_result:
  assumes "walk_inv parent order state color positions path"
    and "length order < fuel + length path"
    and "\<forall>s t. parent s = Some t \<longrightarrow> t \<in> set order"
    and "cycle_walk fuel parent state color positions path = (color', positions', path', problem)"
  shows "(\<exists>new. path' = path @ new) \<and> set path' \<subseteq> set order \<and>
    (color state = Unseen \<longrightarrow> state \<in> set path') \<and>
    (\<forall>s. color' s = (if s \<in> set path' then Visiting else color s)) \<and>
    (\<forall>c. problem = Some c \<longrightarrow> parent_cycle parent c \<and> hd c \<in> set order) \<and>
    (problem = None \<longrightarrow> (\<forall>s. color s = Finished \<longrightarrow> rooted parent s) \<longrightarrow>
       rooted parent state \<and> (\<forall>s \<in> set path' - set path. rooted parent s))"
  using assms
proof (induction fuel arbitrary: state color positions path)
  case 0
  then have "length order < length path" by simp
  moreover have "length path \<le> card (set order)"
    using 0(1) by (metis walk_inv_def distinct_card card_mono finite_set)
  ultimately show ?case using card_length [of order] by linarith
next
  case (Suc fuel)
  note inv = Suc.prems(1)
  have visiting: "color s = Visiting \<longleftrightarrow> s \<in> set path" for s
    using inv by (simp add: walk_inv_def)
  have sub: "set path \<subseteq> set order" "state \<in> set order"
    using inv by (auto simp: walk_inv_def)
  show ?case
  proof (cases "color state")
    case Finished
    with Suc.prems(4) visiting sub show ?thesis by auto
  next
    case Visiting
    with Suc.prems(4) visiting sub walk_inv_cycle [OF inv] show ?thesis by auto
  next
    case Unseen
    show ?thesis
    proof (cases "parent state")
      case None
      from lineage.root [of parent, OF this] have "rooted parent state" by blast
      with None Unseen Suc.prems(4) visiting sub show ?thesis by (auto simp: Let_def)
    next
      case (Some up)
      have inv': "walk_inv parent order up (color(state := Visiting))
          (positions(state \<mapsto> length path)) (path @ [state])"
        by (rule walk_inv_step [OF inv Unseen Some]) (use Suc.prems(3) Some in blast)
      have run: "cycle_walk fuel parent up (color(state := Visiting))
          (positions(state \<mapsto> length path)) (path @ [state]) = (color', positions', path', problem)"
        using Suc.prems(4) Unseen Some by (simp add: Let_def)
      have "length order < fuel + length (path @ [state])" using Suc.prems(2) by simp
      note IH = Suc.IH [OF inv' this Suc.prems(3) run]
      then obtain new where new: "path' = (path @ [state]) @ new" by blast
      have lift: "rooted parent up \<Longrightarrow> rooted parent state"
        using lineage.up [where p = parent, OF Some] by blast
      have "color s = Finished" if "(color(state := Visiting)) s = Finished" for s
        using that by (auto split: if_splits)
      then have "rooted parent state \<and> (\<forall>s \<in> set path' - set path. rooted parent s)"
        if "problem = None" "\<forall>s. color s = Finished \<longrightarrow> rooted parent s"
        using IH that lift by (auto simp: new)
      moreover have "\<forall>s. color' s = (if s \<in> set path' then Visiting else color s)"
        using IH by (auto simp: new)
      moreover have "\<exists>new. path' = path @ new" using new by simp
      moreover have "state \<in> set path'" using new by simp
      ultimately show ?thesis using IH by blast
    qed
  qed
qed

lemma cycle_starts_result:
  assumes "\<forall>s t. parent s = Some t \<longrightarrow> t \<in> set order"
    and "set starts \<subseteq> set order" and "\<forall>s. color s \<noteq> Visiting"
    and "length order < fuel"
  shows "(\<forall>c \<in> set (cycle_starts fuel parent starts color positions).
      parent_cycle parent c \<and> hd c \<in> set order) \<and>
    (cycle_starts fuel parent starts color positions = [] \<longrightarrow>
      (\<forall>s. color s = Finished \<longrightarrow> rooted parent s) \<longrightarrow> (\<forall>s \<in> set starts. rooted parent s))"
  using assms(2,3)
proof (induction starts arbitrary: color positions)
  case (Cons start starts)
  show ?case
  proof (cases "color start")
    case Finished
    with Cons show ?thesis by auto
  next
    case Visiting
    with Cons.prems show ?thesis by simp
  next
    case Unseen
    obtain color1 positions1 path1 problem where walk:
      "cycle_walk fuel parent start color positions [] = (color1, positions1, path1, problem)"
      by (metis prod_cases4)
    have inv: "walk_inv parent order start color positions []"
      using Cons.prems by (simp add: walk_inv_def)
    have fuel: "length order < fuel + length ([] :: 'a list)" using assms(4) by simp
    note W = cycle_walk_result [OF inv fuel assms(1) walk]
    let ?color = "\<lambda>s. if s \<in> set path1 then Finished else color1 s"
    let ?pos = "\<lambda>s. if s \<in> set path1 then None else positions1 s"
    have "color1 s = (if s \<in> set path1 then Visiting else color s)" for s
      using W by blast
    then have col: "?color s = (if s \<in> set path1 then Finished else color s)" for s by simp
    have "\<forall>s. ?color s \<noteq> Visiting" using Cons.prems(2) by (simp add: col)
    moreover have "set starts \<subseteq> set order" using Cons.prems(1) by simp
    ultimately have IH: "(\<forall>c \<in> set (cycle_starts fuel parent starts ?color ?pos).
        parent_cycle parent c \<and> hd c \<in> set order) \<and>
      (cycle_starts fuel parent starts ?color ?pos = [] \<longrightarrow>
        (\<forall>s. ?color s = Finished \<longrightarrow> rooted parent s) \<longrightarrow> (\<forall>s \<in> set starts. rooted parent s))"
      by (intro Cons.IH)
    have run: "cycle_starts fuel parent (start # starts) color positions =
        (case problem of None \<Rightarrow> [] | Some c \<Rightarrow> [c]) @ cycle_starts fuel parent starts ?color ?pos"
      using Unseen walk by simp
    have fin: "\<forall>s. ?color s = Finished \<longrightarrow> rooted parent s"
      if "problem = None" "\<forall>s. color s = Finished \<longrightarrow> rooted parent s"
    proof (intro allI impI)
      fix s
      assume "?color s = Finished"
      then have "s \<in> set path1 \<or> color s = Finished" by (simp add: col split: if_splits)
      then show "rooted parent s" using W that by auto
    qed
    have start: "rooted parent start"
      if "problem = None" "\<forall>s. color s = Finished \<longrightarrow> rooted parent s"
      using W that by blast
    show ?thesis
    proof (cases problem)
      case None
      then have "cycle_starts fuel parent (start # starts) color positions =
          cycle_starts fuel parent starts ?color ?pos" using run by simp
      then show ?thesis using IH fin [OF None] start [OF None] by (metis set_ConsD)
    next
      case (Some c)
      then have "cycle_starts fuel parent (start # starts) color positions =
          c # cycle_starts fuel parent starts ?color ?pos" using run by simp
      moreover have "parent_cycle parent c \<and> hd c \<in> set order" using W Some by blast
      ultimately show ?thesis using IH by simp
    qed
  qed
qed simp

lemma hierarchyCycles_result:
  assumes "\<forall>s t. parent s = Some t \<longrightarrow> t \<in> set order"
  shows "(\<forall>c \<in> set (hierarchyCycles order parent). parent_cycle parent c) \<and>
    (hierarchyCycles order parent = [] \<longleftrightarrow> (\<forall>s \<in> set order. rooted parent s))"
proof -
  have R: "(\<forall>c \<in> set (hierarchyCycles order parent). parent_cycle parent c \<and> hd c \<in> set order) \<and>
    (hierarchyCycles order parent = [] \<longrightarrow> (\<forall>s \<in> set order. rooted parent s))"
    using cycle_starts_result [where parent = parent and order = order and starts = order and
        color = "\<lambda>_. Unseen" and fuel = "Suc (length order)" and positions = Map.empty, OF assms]
    by (simp add: hierarchyCycles_def)
  moreover have "hierarchyCycles order parent = []" if "\<forall>s \<in> set order. rooted parent s"
  proof (rule ccontr)
    assume "hierarchyCycles order parent \<noteq> []"
    then obtain c where "c \<in> set (hierarchyCycles order parent)" by (meson last_in_set)
    with R that show False using parent_cycle_no_lineage by blast
  qed
  ultimately show ?thesis by blast
qed

end
