(* ===== verification/Chart_Position.thy ===== *)
theory Chart_Position
  imports Chart_Shape
begin

text \<open>
  \<^verbatim>\<open>statechart/position.go\<close>: the compiled hierarchy and its queries.

  A \<open>shape\<close> numbers the states in declaration order; a \<open>node\<close> holds the parent's number
  (\<open>None\<close> for the code's -1), the depth, the interval of preorder positions its subtree takes,
  and the number its Initial chain ends at. \<open>compileShape\<close> builds it with the code's passes:
  \<open>link\<close>, the stack-driven \<open>preorder_loop\<close> and the reverse pass \<open>settle\<close>. The loops take as fuel
  the number of nodes, which bounds them in a hierarchy without cycles; they stop where the code
  would index -1, which the lemmas show does not happen on a compiled shape.

  \<open>shape_ok\<close> says what a shape represents: depths are lineage lengths, interval nesting is
  membership in a lineage, destinations are the ends of Initial chains. \<open>compileShape_ok\<close> shows
  that the three passes establish it on every hierarchy without cycles.
\<close>

section \<open>Compiling the hierarchy\<close>

record 's node =
  nd_state :: 's
  nd_parent :: "nat option"
  nd_depth :: nat
  nd_enter :: nat
  nd_exit :: nat
  nd_destination :: nat

record 's shape =
  sh_nodes :: "'s node list"
  sh_index :: "'s \<rightharpoonup> nat"
  sh_reflexive :: bool

text \<open>A missing key of a Go map of ints reads as 0.\<close>

definition index_of :: "('s \<rightharpoonup> nat) \<Rightarrow> 's \<Rightarrow> nat" where
  "index_of index s = (case index s of None \<Rightarrow> 0 | Some i \<Rightarrow> i)"

definition new_node :: "nat \<Rightarrow> 's \<Rightarrow> 's node" where
  "new_node i s = \<lparr>nd_state = s, nd_parent = None, nd_depth = 0, nd_enter = 0, nd_exit = 0,
     nd_destination = i\<rparr>"

fun number :: "nat \<Rightarrow> 's list \<Rightarrow> ('s \<rightharpoonup> nat) \<Rightarrow> ('s \<rightharpoonup> nat)" where
  "number i [] index = index"
| "number i (s # order) index = number (Suc i) order (index(s \<mapsto> i))"

fun link ::
    "('s \<rightharpoonup> 's) \<Rightarrow> ('s \<rightharpoonup> nat) \<Rightarrow> nat \<Rightarrow> 's list \<Rightarrow> 's node list \<times> nat list list \<Rightarrow>
      's node list \<times> nat list list" where
  "link parents index i [] st = st"
| "link parents index i (child # order) (nodes, children) =
     link parents index (Suc i) order
       (case parents child of
          None \<Rightarrow> (nodes, children)
        | Some parent \<Rightarrow>
            (nodes[i := (nodes ! i)\<lparr>nd_parent := Some (index_of index parent)\<rparr>],
             children[index_of index parent := children ! index_of index parent @ [i]]))"

text \<open>One pop: number the node and take its depth from its parent.\<close>

definition visit :: "nat \<Rightarrow> 's node list \<times> nat list \<Rightarrow> 's node list \<times> nat list" where
  "visit i st =
     (case st of
        (nodes, preorder) \<Rightarrow>
          (nodes[i := (nodes ! i)\<lparr>
             nd_enter := length preorder,
             nd_depth := (case nd_parent (nodes ! i) of
                            None \<Rightarrow> nd_depth (nodes ! i)
                          | Some p \<Rightarrow> Suc (nd_depth (nodes ! p)))\<rparr>],
           preorder @ [i]))"

text \<open>The stack's top is the end of the slice.\<close>

fun preorder_loop ::
    "nat \<Rightarrow> nat list list \<Rightarrow> nat list \<Rightarrow> 's node list \<times> nat list \<Rightarrow> 's node list \<times> nat list" where
  "preorder_loop 0 children stack st = st"
| "preorder_loop (Suc fuel) children stack st =
     (if stack = [] then st
      else (let i = last stack in
            preorder_loop fuel children (butlast stack @ children ! i) (visit i st)))"

definition settle ::
    "('s \<rightharpoonup> 's) \<Rightarrow> ('s \<rightharpoonup> nat) \<Rightarrow> nat list list \<Rightarrow> nat \<Rightarrow> 's node list \<Rightarrow> 's node list" where
  "settle initials index children i nodes =
     nodes[i := (nodes ! i)\<lparr>
       nd_exit := fold (\<lambda>c e. max e (nd_exit (nodes ! c))) (children ! i)
                    (Suc (nd_enter (nodes ! i))),
       nd_destination := (case initials (nd_state (nodes ! i)) of
                            None \<Rightarrow> nd_destination (nodes ! i)
                          | Some s \<Rightarrow> nd_destination (nodes ! index_of index s))\<rparr>]"

definition compileShape ::
    "'s keyops \<Rightarrow> 's list \<Rightarrow> ('s \<rightharpoonup> 's) \<Rightarrow> ('s \<rightharpoonup> 's) \<Rightarrow> 's shape" where
  "compileShape K order parents initials =
     (let index = number 0 order Map.empty;
          (nodes, children) = link parents index 0 order
             (map (\<lambda>(i, s). new_node i s) (List.enumerate 0 order), replicate (length order) []);
          stack = filter (\<lambda>i. nd_parent (nodes ! i) = None) [0..<length nodes];
          (nodes, preorder) = preorder_loop (length order) children stack (nodes, []);
          nodes = fold (settle initials index children) (rev preorder) nodes
      in \<lparr>sh_nodes = nodes, sh_index = index, sh_reflexive = reflexive_type K\<rparr>)"

section \<open>Queries\<close>

definition stateIndex :: "'s keyops \<Rightarrow> 's shape option \<Rightarrow> 's \<Rightarrow> nat option" where
  "stateIndex K h state =
     (case h of
        None \<Rightarrow> None
      | Some h \<Rightarrow> if \<not> sh_reflexive h \<and> \<not> key_ok K state then None else sh_index h state)"

fun lift_to :: "nat \<Rightarrow> 's node list \<Rightarrow> nat \<Rightarrow> nat \<Rightarrow> nat" where
  "lift_to 0 nodes d i = i"
| "lift_to (Suc fuel) nodes d i =
     (if nd_depth (nodes ! i) > d
      then (case nd_parent (nodes ! i) of None \<Rightarrow> i | Some p \<Rightarrow> lift_to fuel nodes d p)
      else i)"

fun meet :: "nat \<Rightarrow> 's node list \<Rightarrow> nat \<Rightarrow> nat \<Rightarrow> nat option" where
  "meet 0 nodes left right = None"
| "meet (Suc fuel) nodes left right =
     (if left = right then Some left
      else (case (nd_parent (nodes ! left), nd_parent (nodes ! right)) of
              (Some l, Some r) \<Rightarrow> meet fuel nodes l r
            | _ \<Rightarrow> None))"

definition leastCommonAncestor :: "'s shape \<Rightarrow> nat \<Rightarrow> nat \<Rightarrow> nat option" where
  "leastCommonAncestor h left right =
     (let nodes = sh_nodes h; fuel = length nodes;
          left = lift_to fuel nodes (nd_depth (nodes ! right)) left;
          right = lift_to fuel nodes (nd_depth (nodes ! left)) right
      in meet fuel nodes left right)"

fun climb :: "nat \<Rightarrow> 's node list \<Rightarrow> nat option \<Rightarrow> 's list" where
  "climb 0 nodes at = []"
| "climb (Suc count) nodes at =
     (case at of
        None \<Rightarrow> []
      | Some i \<Rightarrow> nd_state (nodes ! i) # climb count nodes (nd_parent (nodes ! i)))"

text \<open>The node at which both paths stop, and the paths.\<close>

definition path_stop :: "'s shape \<Rightarrow> nat \<Rightarrow> nat \<Rightarrow> bool \<Rightarrow> nat option" where
  "path_stop h from target reentry =
     (if reentry then nd_parent (sh_nodes h ! target) else leastCommonAncestor h from target)"

definition paths :: "'s shape \<Rightarrow> 's \<Rightarrow> 's \<Rightarrow> 's \<Rightarrow> bool \<Rightarrow> 's list \<times> 's list" where
  "paths h source target destination reentry =
     (let nodes = sh_nodes h;
          from = index_of (sh_index h) source;
          to = index_of (sh_index h) destination;
          depth = (case path_stop h from (index_of (sh_index h) target) reentry of
                     None \<Rightarrow> - 1 | Some stop \<Rightarrow> int (nd_depth (nodes ! stop)));
          exitCount = nat (int (nd_depth (nodes ! from)) - depth);
          entryCount = nat (int (nd_depth (nodes ! to)) - depth)
      in if exitCount + entryCount = 0 then ([], [])
         else (climb exitCount nodes (Some from), rev (climb entryCount nodes (Some to))))"

datatype status = StatusInactive | StatusEnclosing | StatusActive

record 's position =
  pos_shape :: "'s shape option"
  pos_active :: int

definition valid_position :: "'s position \<Rightarrow> bool" where
  "valid_position p =
     (case pos_shape p of
        None \<Rightarrow> False
      | Some h \<Rightarrow> 0 \<le> pos_active p \<and> pos_active p < int (length (sh_nodes h)))"

text \<open>A method that answers (value, ok) yields \<open>None\<close> when ok is false.\<close>

definition Active :: "'s position \<Rightarrow> 's option" where
  "Active p =
     (if valid_position p
      then Some (nd_state (sh_nodes (the (pos_shape p)) ! nat (pos_active p))) else None)"

text \<open>A loop body takes the accumulator and answers whether to continue.\<close>

fun range_over :: "('a \<Rightarrow> 'b \<Rightarrow> 'b \<times> bool) \<Rightarrow> 'a list \<Rightarrow> 'b \<Rightarrow> 'b \<times> bool" where
  "range_over yield [] acc = (acc, True)"
| "range_over yield (x # xs) acc =
     (case yield x acc of
        (acc', True) \<Rightarrow> range_over yield xs acc'
      | (acc', False) \<Rightarrow> (acc', False))"

fun walk_yield ::
    "nat \<Rightarrow> 's node list \<Rightarrow> ('s \<Rightarrow> 'b \<Rightarrow> 'b \<times> bool) \<Rightarrow> nat option \<Rightarrow> 'b \<Rightarrow> 'b \<times> bool" where
  "walk_yield 0 nodes yield at acc = (acc, True)"
| "walk_yield (Suc fuel) nodes yield at acc =
     (case at of
        None \<Rightarrow> (acc, True)
      | Some i \<Rightarrow>
          (case yield (nd_state (nodes ! i)) acc of
             (acc', True) \<Rightarrow> walk_yield fuel nodes yield (nd_parent (nodes ! i)) acc'
           | (acc', False) \<Rightarrow> (acc', False)))"

definition Path :: "'s position \<Rightarrow> ('s \<Rightarrow> 'b \<Rightarrow> 'b \<times> bool) \<Rightarrow> 'b \<Rightarrow> 'b" where
  "Path p yield acc =
     (if valid_position p
      then (let nodes = sh_nodes (the (pos_shape p)) in
            fst (walk_yield (length nodes) nodes yield (Some (nat (pos_active p))) acc))
      else acc)"

definition Status :: "'s keyops \<Rightarrow> 's position \<Rightarrow> 's \<Rightarrow> status option" where
  "Status K p state =
     (if \<not> valid_position p then None
      else (case stateIndex K (pos_shape p) state of
              None \<Rightarrow> None
            | Some index \<Rightarrow>
                if int index = pos_active p then Some StatusActive
                else (let nodes = sh_nodes (the (pos_shape p));
                          node = nodes ! index;
                          active = nodes ! nat (pos_active p)
                      in if nd_enter node \<le> nd_enter active \<and> nd_exit active \<le> nd_exit node
                         then Some StatusEnclosing else Some StatusInactive)))"

section \<open>What a shape represents\<close>

definition hierarchy_ok :: "'s list \<Rightarrow> ('s \<rightharpoonup> 's) \<Rightarrow> ('s \<rightharpoonup> 's) \<Rightarrow> bool" where
  "hierarchy_ok order parents initials \<longleftrightarrow>
     distinct order \<and>
     (\<forall>s p. parents s = Some p \<longrightarrow> s \<in> set order \<and> p \<in> set order) \<and>
     (\<forall>s \<in> set order. rooted parents s) \<and>
     (\<forall>s c. initials s = Some c \<longrightarrow> parents c = Some s)"

definition shape_ok :: "'s shape \<Rightarrow> 's list \<Rightarrow> ('s \<rightharpoonup> 's) \<Rightarrow> ('s \<rightharpoonup> 's) \<Rightarrow> bool" where
  "shape_ok h order parents initials \<longleftrightarrow>
     map nd_state (sh_nodes h) = order \<and>
     (\<forall>s i. sh_index h s = Some i \<longleftrightarrow> i < length order \<and> order ! i = s) \<and>
     (\<forall>i < length order.
        nd_parent (sh_nodes h ! i) = map_option (index_of (sh_index h)) (parents (order ! i)) \<and>
        (\<forall>l. lineage parents (order ! i) l \<longrightarrow> Suc (nd_depth (sh_nodes h ! i)) = length l) \<and>
        nd_destination (sh_nodes h ! i) < length order \<and>
        chain initials (order ! i) (order ! nd_destination (sh_nodes h ! i)) \<and>
        (\<forall>j < length order. \<forall>l. lineage parents (order ! j) l \<longrightarrow>
          (nd_enter (sh_nodes h ! i) \<le> nd_enter (sh_nodes h ! j) \<and>
           nd_exit (sh_nodes h ! j) \<le> nd_exit (sh_nodes h ! i) \<longleftrightarrow> order ! i \<in> set l)))"

section \<open>Numbering and linking\<close>

lemma number_Some:
  "distinct order \<Longrightarrow> number k order index s = Some i \<longleftrightarrow>
     (k \<le> i \<and> i < k + length order \<and> order ! (i - k) = s) \<or> (s \<notin> set order \<and> index s = Some i)"
proof (induction order arbitrary: k index)
  case (Cons x order)
  have "(k \<le> i \<and> i < k + length (x # order) \<and> (x # order) ! (i - k) = s) \<longleftrightarrow>
      (i = k \<and> x = s) \<or> (Suc k \<le> i \<and> i < Suc k + length order \<and> order ! (i - Suc k) = s)"
    by (cases "i = k") (auto simp: nth_Cons' Suc_diff_Suc)
  then show ?case using Cons by (auto simp: nth_mem)
qed auto

lemma number_index:
  "distinct order \<Longrightarrow> number 0 order Map.empty s = Some i \<longleftrightarrow> i < length order \<and> order ! i = s"
  by (simp add: number_Some)

definition kids :: "(nat \<Rightarrow> nat option) \<Rightarrow> nat \<Rightarrow> nat \<Rightarrow> nat list" where
  "kids P n p = filter (\<lambda>c. P c = Some p) [0..<n]"

lemma set_kids: "c \<in> set (kids P n p) \<longleftrightarrow> c < n \<and> P c = Some p"
  by (auto simp: kids_def)

lemma link_spec:
  assumes "\<forall>j < length order. P (i + j) = map_option (index_of index) (parents (order ! j))"
    and "\<forall>j < length order. nd_parent (nodes ! (i + j)) = None"
    and "i + length order \<le> length nodes"
  shows "link parents index i order (nodes, children) =
     (map (\<lambda>j. if i \<le> j \<and> j < i + length order then (nodes ! j)\<lparr>nd_parent := P j\<rparr> else nodes ! j)
        [0..<length nodes],
      map (\<lambda>p. children ! p @ filter (\<lambda>c. P c = Some p) [i..<i + length order])
        [0..<length children])"
  using assms
proof (induction order arbitrary: i nodes children)
  case Nil
  show ?case by (auto intro!: nth_equalityI)
next
  case (Cons x order)
  let ?nodes = "nodes[i := (nodes ! i)\<lparr>nd_parent := P i\<rparr>]"
  let ?children = "case P i of None \<Rightarrow> children | Some p \<Rightarrow> children[p := children ! p @ [i]]"
  have P: "\<forall>j < length order. P (Suc i + j) = map_option (index_of index) (parents (order ! j))"
    using Cons.prems(1) by (metis Suc_less_eq add_Suc_shift length_Cons nth_Cons_Suc)
  have N: "nd_parent (nodes ! (Suc i + j)) = None" if "j < length order" for j
    using Cons.prems(2) that by (metis Suc_less_eq add_Suc_shift length_Cons)
  have Pi: "P i = map_option (index_of index) (parents x)"
    using Cons.prems(1) by (metis add_0_right length_greater_0_conv list.distinct(1) nth_Cons_0)
  have Ni: "nd_parent (nodes ! i) = None"
    using Cons.prems(2) by (metis add_0_right length_greater_0_conv list.distinct(1))
  have upt: "[i..<i + length (x # order)] = i # [Suc i..<Suc i + length order]"
    by (subst upt_conv_Cons) auto
  have same: "nodes[i := (nodes ! i)\<lparr>nd_parent := None\<rparr>] = nodes"
  proof -
    have "(nodes ! i)\<lparr>nd_parent := None\<rparr> = nodes ! i" using Ni by simp
    then show ?thesis by simp
  qed
  have "link parents index i (x # order) (nodes, children) =
      link parents index (Suc i) order (?nodes, ?children)"
    using Pi same by (cases "parents x") auto
  also have "\<dots> =
     (map (\<lambda>j. if Suc i \<le> j \<and> j < Suc i + length order then (?nodes ! j)\<lparr>nd_parent := P j\<rparr>
             else ?nodes ! j) [0..<length ?nodes],
      map (\<lambda>p. ?children ! p @ filter (\<lambda>c. P c = Some p) [Suc i..<Suc i + length order])
        [0..<length ?children])"
    by (rule Cons.IH [OF P]) (use N Cons.prems(3) in auto)
  also have "map (\<lambda>j. if Suc i \<le> j \<and> j < Suc i + length order then (?nodes ! j)\<lparr>nd_parent := P j\<rparr>
             else ?nodes ! j) [0..<length ?nodes] =
      map (\<lambda>j. if i \<le> j \<and> j < i + length (x # order) then (nodes ! j)\<lparr>nd_parent := P j\<rparr>
             else nodes ! j) [0..<length nodes]"
    by (rule nth_equalityI) (auto simp: nth_list_update not_less_eq_eq dest: le_antisym)
  also have "map (\<lambda>p. ?children ! p @ filter (\<lambda>c. P c = Some p) [Suc i..<Suc i + length order])
        [0..<length ?children] =
      map (\<lambda>p. children ! p @ filter (\<lambda>c. P c = Some p) [i..<i + length (x # order)])
        [0..<length children]"
    unfolding upt by (rule nth_equalityI; cases "P i") (auto simp: nth_list_update)
  finally show ?case .
qed

section \<open>Trees of numbers\<close>

definition ihier :: "(nat \<Rightarrow> nat option) \<Rightarrow> nat \<Rightarrow> bool" where
  "ihier P n \<longleftrightarrow> (\<forall>i p. P i = Some p \<longrightarrow> i < n \<and> p < n) \<and> (\<forall>i < n. rooted P i)"

datatype rtree = Node (label: nat) (subtrees: "rtree list")

fun pre :: "rtree \<Rightarrow> nat list" where
  "pre (Node i ts) = i # concat (map pre ts)"

fun repr :: "(nat \<Rightarrow> nat option) \<Rightarrow> nat \<Rightarrow> rtree \<Rightarrow> bool" where
  "repr P n (Node i ts) \<longleftrightarrow>
     i < n \<and> map label ts = rev (kids P n i) \<and> (\<forall>t \<in> set ts. repr P n t)"

lemma repr_label: "repr P n t \<Longrightarrow> label t < n"
  by (cases t) simp

lemma repr_kid:
  assumes "repr P n (Node i ts)" and "t \<in> set ts"
  shows "P (label t) = Some i"
proof -
  have "label t \<in> set (map label ts)" using assms(2) by simp
  then have "label t \<in> set (kids P n i)" using assms(1) by (simp del: set_map)
  then show ?thesis by (simp add: set_kids)
qed

lemma label_pre: "label t \<in> set (pre t)"
  by (cases t) simp

lemma ihier_lineage_bound:
  assumes "ihier P n" "i < n" "lineage P i l"
  shows "set l \<subseteq> {..<n}" "length l \<le> n"
proof -
  show "set l \<subseteq> {..<n}"
    using assms(3,2)
    by (induction rule: lineage.induct) (use assms(1) in \<open>auto simp: ihier_def\<close>)
  then have "card (set l) \<le> n" by (metis card_lessThan card_mono finite_lessThan)
  then show "length l \<le> n" using lineage_distinct [OF assms(3)] by (simp add: distinct_card)
qed

lemma repr_exists:
  assumes h: "ihier P n" and "i < n"
  shows "\<exists>t. label t = i \<and> repr P n t"
proof -
  obtain l where "lineage P i l" using assms by (auto simp: ihier_def)
  then show ?thesis using \<open>i < n\<close>
  proof (induction "n - length l" arbitrary: i l rule: less_induct)
    case less
    have "\<exists>t. label t = c \<and> repr P n t" if "c \<in> set (kids P n i)" for c
    proof -
      have c: "c < n" "P c = Some i" using that by (auto simp: set_kids)
      then have lc: "lineage P c (c # l)" using less.prems by (auto intro: lineage.up)
      have "length (c # l) \<le> n" by (rule ihier_lineage_bound [OF h c(1) lc])
      then have "n - length (c # l) < n - length l" by simp
      from less.hyps [OF this lc c(1)] show ?thesis .
    qed
    then obtain f where f: "\<And>c. c \<in> set (kids P n i) \<Longrightarrow> label (f c) = c \<and> repr P n (f c)"
      by metis
    have "map label (map f (rev (kids P n i))) = rev (kids P n i)"
      unfolding map_map by (rule map_idI) (use f in simp)
    then have "repr P n (Node i (map f (rev (kids P n i))))" using less.prems f by simp
    then show ?case by (metis rtree.sel(1))
  qed
qed

lemma pre_lineage:
  assumes h: "ihier P n" and "j < n" and l: "lineage P j l"
  shows "repr P n t \<Longrightarrow> j \<in> set (pre t) \<longleftrightarrow> label t \<in> set l"
proof (induction t)
  case (Node i ts)
  note kid = repr_kid [OF Node.prems]
  show ?case
  proof
    assume "j \<in> set (pre (Node i ts))"
    then consider "j = i" | t where "t \<in> set ts" "j \<in> set (pre t)" by auto
    then show "label (Node i ts) \<in> set l"
    proof cases
      case 1
      then show ?thesis using lineage_head [OF l] by auto
    next
      case 2
      then have "label t \<in> set l" using Node by auto
      then show ?thesis using kid [OF 2(1)] lineage_parent_mem [OF l] by simp
    qed
  next
    assume "label (Node i ts) \<in> set l"
    then have i: "i \<in> set l" by simp
    show "j \<in> set (pre (Node i ts))"
    proof (cases "j = i")
      case False
      with lineage_child [OF l i] obtain c where c: "c \<in> set l" "P c = Some i" by blast
      then have "c \<in> set (kids P n i)" using h by (auto simp: set_kids ihier_def)
      then have "c \<in> label ` set ts"
        using Node.prems by (metis list.set_map repr.simps set_rev)
      then obtain t where "t \<in> set ts" "label t = c" by blast
      then show ?thesis using Node c by auto
    qed simp
  qed
qed

lemma pre_bound:
  "repr P n t \<Longrightarrow> j \<in> set (pre t) \<Longrightarrow> j < n"
  by (induction t) auto

lemma distinct_forest:
  assumes h: "ihier P n" and "\<forall>t \<in> set ts. repr P n t \<and> distinct (pre t) \<and> P (label t) = q"
    and "distinct (map label ts)"
  shows "distinct (concat (map pre ts))"
  using assms(2,3)
proof (induction ts)
  case (Cons t ts)
  have "set (pre t) \<inter> set (pre t') = {}" if "t' \<in> set ts" for t'
  proof (rule ccontr)
    assume "\<not> ?thesis"
    then obtain j where j: "j \<in> set (pre t)" "j \<in> set (pre t')" by blast
    have "repr P n t" "repr P n t'" using Cons.prems that by auto
    then have "j < n" using j pre_bound by blast
    then obtain l where l: "lineage P j l" using h by (auto simp: ihier_def)
    have "label t \<in> set l" "label t' \<in> set l"
      using pre_lineage [OF h \<open>j < n\<close> l] j \<open>repr P n t\<close> \<open>repr P n t'\<close> by auto
    moreover have "P (label t) = P (label t')" using Cons.prems that by simp
    ultimately have "label t = label t'" using lineage_same_parent [OF l] by blast
    with Cons.prems(2) that show False by (auto simp: image_iff)
  qed
  then show ?case using Cons by auto
qed simp

lemma distinct_kids: "distinct (kids P n p)"
  by (simp add: kids_def)

lemma distinct_pre:
  assumes h: "ihier P n" shows "repr P n t \<Longrightarrow> distinct (pre t)"
proof (induction t)
  case (Node i ts)
  note kid = repr_kid [OF Node.prems]
  have d: "distinct (concat (map pre ts))"
  proof (rule distinct_forest [OF h, where q = "Some i"])
    show "\<forall>t \<in> set ts. repr P n t \<and> distinct (pre t) \<and> P (label t) = Some i"
      using Node kid by simp
    show "distinct (map label ts)" using Node.prems distinct_kids by (metis distinct_rev repr.simps)
  qed
  obtain l where l: "lineage P i l" using h Node.prems by (auto simp: ihier_def)
  have "i \<notin> set (pre t)" if t: "t \<in> set ts" for t
  proof
    assume "i \<in> set (pre t)"
    then have "label t \<in> set l"
      using pre_lineage [OF h _ l] Node.prems t by auto
    then obtain l1 l2 where "l = l1 @ l2" "lineage P (label t) l2"
      using lineage_suffix [OF l] by blast
    moreover obtain r where "l2 = label t # r" "lineage P i r"
      using calculation(2) kid [OF t] by (blast dest: lineage_parent)
    ultimately show False using lineage_unique [OF l, of r] by (auto dest: arg_cong [where f = length])
  qed
  then show ?case using d by auto
qed

lemma pre_slice:
  "repr P n t \<Longrightarrow> i \<in> set (pre t) \<Longrightarrow>
     \<exists>xs t' ys. pre t = xs @ pre t' @ ys \<and> label t' = i \<and> repr P n t'"
proof (induction t)
  case (Node j ts)
  show ?case
  proof (cases "i = j")
    case True
    with Node.prems show ?thesis
      by (intro exI [of _ "[]"] exI [of _ "Node j ts"]) auto
  next
    case False
    with Node.prems(2) obtain t where t: "t \<in> set ts" "i \<in> set (pre t)" by auto
    then obtain xs t' ys where "pre t = xs @ pre t' @ ys" "label t' = i" "repr P n t'"
      using Node by (metis repr.simps)
    moreover obtain us vs where "ts = us @ t # vs" using t(1) by (meson split_list)
    ultimately have "pre (Node j ts) =
        (j # concat (map pre us) @ xs) @ pre t' @ (ys @ concat (map pre vs))" by simp
    then show ?thesis using \<open>label t' = i\<close> \<open>repr P n t'\<close> by blast
  qed
qed

section \<open>The preorder pass\<close>

lemma pre_not_Nil [simp]: "pre t \<noteq> []"
  by (cases t) simp

lemma preorder_loop_forest:
  assumes "\<forall>i < n. children ! i = kids P n i"
    and "\<forall>t \<in> set forest. repr P n t"
    and "length (concat (map pre forest)) \<le> fuel"
  shows "preorder_loop fuel children (rev (map label forest)) st =
     fold visit (concat (map pre forest)) st"
  using assms(2,3)
proof (induction fuel arbitrary: forest st)
  case 0
  then show ?case by (cases forest) auto
next
  case (Suc fuel)
  show ?case
  proof (cases forest)
    case (Cons t rest)
    obtain i ts where t: "t = Node i ts" by (cases t)
    have "children ! i = rev (map label ts)"
      using Suc.prems(1) assms(1) by (simp add: Cons t)
    then have "preorder_loop (Suc fuel) children (rev (map label forest)) st =
        preorder_loop fuel children (rev (map label (ts @ rest))) (visit i st)"
      by (simp add: Cons t)
    also have "\<dots> = fold visit (concat (map pre (ts @ rest))) (visit i st)"
      by (rule Suc.IH) (use Suc.prems in \<open>auto simp: Cons t\<close>)
    finally show ?thesis by (simp add: Cons t)
  qed simp
qed

text \<open>A list in which every parent comes before its children (or is in \<open>D\<close>).\<close>

fun parents_first :: "(nat \<Rightarrow> nat option) \<Rightarrow> nat set \<Rightarrow> nat list \<Rightarrow> bool" where
  "parents_first P D [] = True"
| "parents_first P D (x # xs) \<longleftrightarrow>
     (case P x of None \<Rightarrow> True | Some p \<Rightarrow> p \<in> D) \<and> parents_first P (insert x D) xs"

lemma parents_first_append:
  "parents_first P D (xs @ ys) \<longleftrightarrow> parents_first P D xs \<and> parents_first P (D \<union> set xs) ys"
  by (induction xs arbitrary: D) auto

lemma parents_first_concat:
  "(\<And>t D'. t \<in> set ts \<Longrightarrow> D \<subseteq> D' \<Longrightarrow> parents_first P D' (pre t)) \<Longrightarrow>
     parents_first P D (concat (map pre ts))"
proof (induction ts arbitrary: D)
  case (Cons t ts)
  have "parents_first P (D \<union> set (pre t)) (concat (map pre ts))"
    by (rule Cons.IH) (use Cons.prems in auto)
  with Cons.prems show ?case by (simp add: parents_first_append)
qed simp

lemma parents_first_pre:
  "repr P n t \<Longrightarrow> (case P (label t) of None \<Rightarrow> True | Some p \<Rightarrow> p \<in> D) \<Longrightarrow>
     parents_first P D (pre t)"
proof (induction t arbitrary: D)
  case (Node i ts)
  have "parents_first P (insert i D) (concat (map pre ts))"
  proof (rule parents_first_concat)
    fix t D' assume t: "t \<in> set ts" and D': "insert i D \<subseteq> D'"
    show "parents_first P D' (pre t)"
      by (rule Node.IH [OF t]) (use Node.prems t D' repr_kid [OF Node.prems(1) t] in auto)
  qed
  with Node.prems show ?case by simp
qed

text \<open>A node whose depth is that of its lineage.\<close>

definition deep :: "(nat \<Rightarrow> nat option) \<Rightarrow> 's node list \<Rightarrow> nat \<Rightarrow> bool" where
  "deep P nodes i \<longleftrightarrow> (\<forall>l. lineage P i l \<longrightarrow> Suc (nd_depth (nodes ! i)) = length l)"

lemma fold_visit_spec:
  assumes "distinct xs" and "\<forall>i \<in> set xs. i < length nodes \<and> nd_parent (nodes ! i) = P i"
    and "\<forall>i \<in> set xs. nd_depth (nodes ! i) = 0" and "parents_first P D xs"
    and "\<forall>i \<in> D. deep P nodes i" and "D \<inter> set xs = {}"
    and "fold visit xs (nodes, po) = (nodes', po')"
  shows "po' = po @ xs \<and> length nodes' = length nodes \<and>
    (\<forall>i. i \<notin> set xs \<longrightarrow> nodes' ! i = nodes ! i) \<and>
    (\<forall>k < length xs. nd_enter (nodes' ! (xs ! k)) = length po + k) \<and>
    (\<forall>i. nd_state (nodes' ! i) = nd_state (nodes ! i) \<and> nd_parent (nodes' ! i) = nd_parent (nodes ! i)
       \<and> nd_destination (nodes' ! i) = nd_destination (nodes ! i)) \<and>
    (\<forall>i \<in> set xs. deep P nodes' i)"
  using assms
proof (induction xs arbitrary: nodes po D)
  case (Cons x xs)
  define d where "d = (case P x of None \<Rightarrow> 0 | Some p \<Rightarrow> Suc (nd_depth (nodes ! p)))"
  define nodes1 where
    "nodes1 = nodes[x := (nodes ! x)\<lparr>nd_enter := length po, nd_depth := d\<rparr>]"
  have x: "x < length nodes" "nd_parent (nodes ! x) = P x" using Cons.prems by auto
  have step: "visit x (nodes, po) = (nodes1, po @ [x])"
    using Cons.prems(3) x by (simp add: visit_def nodes1_def d_def split: option.splits)
  have other: "nodes1 ! i = nodes ! i" if "i \<noteq> x" for i
    using that by (simp add: nodes1_def)
  have self: "nodes1 ! x = (nodes ! x)\<lparr>nd_enter := length po, nd_depth := d\<rparr>"
    using x by (simp add: nodes1_def)
  have fields: "nd_state (nodes1 ! i) = nd_state (nodes ! i)"
    "nd_parent (nodes1 ! i) = nd_parent (nodes ! i)"
    "nd_destination (nodes1 ! i) = nd_destination (nodes ! i)" for i
    by (cases "i = x"; simp add: self other)+
  have len: "length nodes1 = length nodes" by (simp add: nodes1_def)
  have "deep P nodes1 x"
    unfolding deep_def
  proof (intro allI impI)
    fix l assume l: "lineage P x l"
    show "Suc (nd_depth (nodes1 ! x)) = length l"
    proof (cases "P x")
      case None
      with l have "l = [x]" using lineage.root lineage_unique by metis
      then show ?thesis by (simp add: self d_def None)
    next
      case (Some p)
      then have "p \<in> D" using Cons.prems(4) by simp
      then have "deep P nodes p" using Cons.prems(5) by blast
      moreover obtain r where "l = x # r" "lineage P p r" using lineage_parent [OF l Some] by blast
      ultimately show ?thesis by (simp add: self d_def Some deep_def)
    qed
  qed
  moreover have "deep P nodes1 i" if "i \<in> D" for i
  proof -
    have "i \<noteq> x" using that Cons.prems(6) by auto
    then show ?thesis using Cons.prems(5) that by (simp add: deep_def other)
  qed
  ultimately have D1: "\<forall>i \<in> insert x D. deep P nodes1 i" by blast
  have run: "fold visit xs (nodes1, po @ [x]) = (nodes', po')"
    using Cons.prems(7) by (simp add: step)
  have "distinct xs" "parents_first P (insert x D) xs" "insert x D \<inter> set xs = {}"
    using Cons.prems by auto
  moreover have "\<forall>i \<in> set xs. i < length nodes1 \<and> nd_parent (nodes1 ! i) = P i"
    using Cons.prems(2) by (simp add: fields len)
  moreover have "\<forall>i \<in> set xs. nd_depth (nodes1 ! i) = 0"
  proof
    fix i assume "i \<in> set xs"
    then have "i \<noteq> x" "nd_depth (nodes ! i) = 0" using Cons.prems(1,3) by auto
    then show "nd_depth (nodes1 ! i) = 0" by (simp add: other)
  qed
  ultimately have IH: "po' = (po @ [x]) @ xs \<and> length nodes' = length nodes1 \<and>
    (\<forall>i. i \<notin> set xs \<longrightarrow> nodes' ! i = nodes1 ! i) \<and>
    (\<forall>k < length xs. nd_enter (nodes' ! (xs ! k)) = length (po @ [x]) + k) \<and>
    (\<forall>i. nd_state (nodes' ! i) = nd_state (nodes1 ! i) \<and> nd_parent (nodes' ! i) = nd_parent (nodes1 ! i)
       \<and> nd_destination (nodes' ! i) = nd_destination (nodes1 ! i)) \<and>
    (\<forall>i \<in> set xs. deep P nodes' i)"
    using Cons.IH [OF _ _ _ _ D1 _ run] by blast
  then have x': "nodes' ! x = nodes1 ! x" using Cons.prems(1) by simp
  have "nd_enter (nodes' ! ((x # xs) ! k)) = length po + k" if "k < length (x # xs)" for k
    using IH that x' self by (cases k) auto
  moreover have "deep P nodes' x" using D1 x' by (simp add: deep_def)
  moreover have "nodes' ! i = nodes ! i" if "i \<notin> set (x # xs)" for i
    using IH that other by simp
  ultimately show ?case using IH len fields by simp
qed simp

section \<open>The reverse pass\<close>

text \<open>A list in which every child comes after its parent.\<close>

fun children_later :: "(nat \<Rightarrow> nat option) \<Rightarrow> nat \<Rightarrow> nat list \<Rightarrow> bool" where
  "children_later P n [] = True"
| "children_later P n (x # xs) \<longleftrightarrow>
     set (kids P n x) \<subseteq> set xs \<and> x \<notin> set xs \<and> children_later P n xs"

lemma children_later_append:
  "children_later P n xs \<Longrightarrow> children_later P n ys \<Longrightarrow> set xs \<inter> set ys = {} \<Longrightarrow>
     children_later P n (xs @ ys)"
  by (induction xs) auto

lemma children_later_concat:
  "distinct (concat (map pre ts)) \<Longrightarrow> \<forall>t \<in> set ts. children_later P n (pre t) \<Longrightarrow>
     children_later P n (concat (map pre ts))"
  by (induction ts) (auto intro!: children_later_append)

lemma children_later_pre:
  assumes h: "ihier P n" shows "repr P n t \<Longrightarrow> children_later P n (pre t)"
proof (induction t)
  case (Node i ts)
  have d: "distinct (i # concat (map pre ts))"
    using distinct_pre [OF h Node.prems] by simp
  have "set (kids P n i) = label ` set ts"
    using Node.prems by (metis list.set_map repr.simps set_rev)
  then have "set (kids P n i) \<subseteq> set (concat (map pre ts))"
    using label_pre by auto
  with Node d show ?case by (simp add: children_later_concat)
qed

lemma fold_max:
  fixes f :: "'a \<Rightarrow> nat"
  shows "(fold (\<lambda>c e. max e (f c)) cs b = b \<or> (\<exists>c \<in> set cs. fold (\<lambda>c e. max e (f c)) cs b = f c)) \<and>
    b \<le> fold (\<lambda>c e. max e (f c)) cs b \<and>
    (\<forall>c \<in> set cs. f c \<le> fold (\<lambda>c e. max e (f c)) cs b)"
proof (induction cs arbitrary: b)
  case (Cons c cs)
  from Cons [of "max b (f c)"] show ?case by (auto simp: max_def split: if_splits)
qed simp

text \<open>The numbers below \<open>i\<close> in the hierarchy, \<open>i\<close> included.\<close>

definition below :: "(nat \<Rightarrow> nat option) \<Rightarrow> nat \<Rightarrow> nat \<Rightarrow> nat set" where
  "below P n i = {j. j < n \<and> (\<exists>l. lineage P j l \<and> i \<in> set l)}"

definition ends :: "(nat \<Rightarrow> nat option) \<Rightarrow> nat \<Rightarrow> 's node list \<Rightarrow> nat \<Rightarrow> bool" where
  "ends P n nodes i \<longleftrightarrow>
     (\<exists>j \<in> below P n i. nd_exit (nodes ! i) = Suc (nd_enter (nodes ! j))) \<and>
     (\<forall>j \<in> below P n i. nd_enter (nodes ! j) < nd_exit (nodes ! i))"

lemma below_step:
  assumes h: "ihier P n" and "i < n"
  shows "below P n i = insert i (\<Union>c \<in> set (kids P n i). below P n c)"
proof (intro set_eqI iffI)
  fix j assume "j \<in> below P n i"
  then obtain l where l: "j < n" "lineage P j l" "i \<in> set l" by (auto simp: below_def)
  show "j \<in> insert i (\<Union>c \<in> set (kids P n i). below P n c)"
  proof (cases "j = i")
    case False
    with lineage_child [OF l(2,3)] obtain c where "c \<in> set l" "P c = Some i" by blast
    then show ?thesis using l h by (auto simp: below_def set_kids ihier_def)
  qed simp
next
  fix j assume "j \<in> insert i (\<Union>c \<in> set (kids P n i). below P n c)"
  then consider "j = i" | c where "c \<in> set (kids P n i)" "j \<in> below P n c" by blast
  then show "j \<in> below P n i"
  proof cases
    case 1
    obtain l where "lineage P i l" using assms by (auto simp: ihier_def)
    then show ?thesis using 1 assms(2) lineage_head by (fastforce simp: below_def)
  next
    case 2
    then show ?thesis by (auto simp: below_def set_kids dest: lineage_parent_mem)
  qed
qed

lemma below_subset:
  assumes h: "ihier P n" and "j \<in> below P n i"
  shows "below P n j \<subseteq> below P n i"
proof
  fix k assume "k \<in> below P n j"
  then obtain l where k: "k < n" "lineage P k l" "j \<in> set l" by (auto simp: below_def)
  then obtain l1 l2 where l: "l = l1 @ l2" "lineage P j l2" by (blast dest: lineage_suffix)
  obtain l3 where "lineage P j l3" "i \<in> set l3" using assms(2) by (auto simp: below_def)
  then have "i \<in> set l" using l lineage_unique by fastforce
  with k show "k \<in> below P n i" by (auto simp: below_def)
qed

lemma below_self: "ihier P n \<Longrightarrow> i < n \<Longrightarrow> i \<in> below P n i"
  by (simp add: below_step)

lemma below_bound: "j \<in> below P n i \<Longrightarrow> j < n"
  by (simp add: below_def)

lemma settle_spec:
  assumes h: "ihier P n" and "distinct order" "length order = n" and "children_later P n xs"
    and "\<forall>i \<in> set xs. i < length nodes \<and> children ! i = kids P n i"
    and "\<forall>i < n. i < length nodes \<and> nd_state (nodes ! i) = order ! i"
    and "\<forall>i \<in> set xs. nd_destination (nodes ! i) = i"
    and idx: "\<forall>i < n. \<forall>c. initials (order ! i) = Some c \<longrightarrow>
       index_of index c \<in> set (kids P n i) \<and> order ! index_of index c = c"
    and "nodes' = foldr (settle initials index children) xs nodes"
  shows "length nodes' = length nodes \<and> (\<forall>i. i \<notin> set xs \<longrightarrow> nodes' ! i = nodes ! i) \<and>
    (\<forall>i. nd_state (nodes' ! i) = nd_state (nodes ! i) \<and> nd_parent (nodes' ! i) = nd_parent (nodes ! i)
       \<and> nd_depth (nodes' ! i) = nd_depth (nodes ! i) \<and> nd_enter (nodes' ! i) = nd_enter (nodes ! i)) \<and>
    (\<forall>i \<in> set xs. i < n \<longrightarrow> ends P n nodes' i \<and> nd_destination (nodes' ! i) < n \<and>
       chain initials (order ! i) (order ! nd_destination (nodes' ! i)))"
  using assms(4,5,7,9)
proof (induction xs arbitrary: nodes')
  case (Cons x xs)
  define nodes1 where "nodes1 = foldr (settle initials index children) xs nodes"
  have IH: "length nodes1 = length nodes \<and> (\<forall>i. i \<notin> set xs \<longrightarrow> nodes1 ! i = nodes ! i) \<and>
    (\<forall>i. nd_state (nodes1 ! i) = nd_state (nodes ! i) \<and> nd_parent (nodes1 ! i) = nd_parent (nodes ! i)
       \<and> nd_depth (nodes1 ! i) = nd_depth (nodes ! i) \<and> nd_enter (nodes1 ! i) = nd_enter (nodes ! i)) \<and>
    (\<forall>i \<in> set xs. i < n \<longrightarrow> ends P n nodes1 i \<and> nd_destination (nodes1 ! i) < n \<and>
       chain initials (order ! i) (order ! nd_destination (nodes1 ! i)))"
    by (rule Cons.IH) (use Cons.prems in \<open>auto simp: nodes1_def\<close>)
  have x: "x < length nodes1" "x \<notin> set xs" "children ! x = kids P n x" "set (kids P n x) \<subseteq> set xs"
    using Cons.prems IH by auto
  define e where "e = fold (\<lambda>c e. max e (nd_exit (nodes1 ! c))) (kids P n x)
    (Suc (nd_enter (nodes1 ! x)))"
  define d where "d = (case initials (nd_state (nodes1 ! x)) of None \<Rightarrow> nd_destination (nodes1 ! x)
    | Some s \<Rightarrow> nd_destination (nodes1 ! index_of index s))"
  have nodes': "nodes' = nodes1[x := (nodes1 ! x)\<lparr>nd_exit := e, nd_destination := d\<rparr>]"
  proof -
    have "nodes' = settle initials index children x nodes1"
      using Cons.prems(4) by (simp add: nodes1_def)
    then show ?thesis by (simp only: settle_def x(3) e_def d_def)
  qed
  have other: "nodes' ! i = nodes1 ! i" if "i \<noteq> x" for i
    using that by (simp add: nodes')
  have self: "nodes' ! x = (nodes1 ! x)\<lparr>nd_exit := e, nd_destination := d\<rparr>"
    using x(1) by (simp add: nodes')
  have fields: "nd_state (nodes' ! i) = nd_state (nodes1 ! i)"
    "nd_parent (nodes' ! i) = nd_parent (nodes1 ! i)"
    "nd_depth (nodes' ! i) = nd_depth (nodes1 ! i)" "nd_enter (nodes' ! i) = nd_enter (nodes1 ! i)" for i
    by (cases "i = x"; simp add: self other)+
  have ends: "ends P n nodes' x" if "x < n"
  proof -
    have kid: "ends P n nodes1 c" if "c \<in> set (kids P n x)" for c
      using IH x(4) that by (auto simp: set_kids)
    have F: "(e = Suc (nd_enter (nodes1 ! x)) \<or> (\<exists>c \<in> set (kids P n x). e = nd_exit (nodes1 ! c)))"
      "Suc (nd_enter (nodes1 ! x)) \<le> e" "\<forall>c \<in> set (kids P n x). nd_exit (nodes1 ! c) \<le> e"
      using fold_max [of "\<lambda>c. nd_exit (nodes1 ! c)" "kids P n x" "Suc (nd_enter (nodes1 ! x))"]
      unfolding e_def by blast+
    have "\<exists>j \<in> below P n x. e = Suc (nd_enter (nodes1 ! j))"
      using F(1) kid unfolding below_step [OF h that] ends_def by blast
    moreover have "nd_enter (nodes1 ! j) < e" if j: "j \<in> below P n x" for j
    proof -
      consider "j = x" | c where "c \<in> set (kids P n x)" "j \<in> below P n c"
        using j unfolding below_step [OF h \<open>x < n\<close>] by blast
      then show ?thesis
      proof cases
        case 1
        then show ?thesis using F(2) by simp
      next
        case 2
        then have "nd_enter (nodes1 ! j) < nd_exit (nodes1 ! c)"
          using kid unfolding ends_def by blast
        then show ?thesis using F(3) 2(1) by fastforce
      qed
    qed
    ultimately show ?thesis by (simp add: ends_def fields self)
  qed
  have dest: "d < n \<and> chain initials (order ! x) (order ! d)" if "x < n"
  proof (cases "initials (order ! x)")
    case None
    have "nodes1 ! x = nodes ! x" using IH x(2) by blast
    then have "d = x" using None that assms(6) Cons.prems(3) by (simp add: d_def)
    then show ?thesis using None that by (simp add: chain.stop)
  next
    case (Some c)
    let ?c = "index_of index c"
    have c: "?c \<in> set (kids P n x)" "order ! ?c = c" using idx that Some by auto
    have "nd_state (nodes1 ! x) = order ! x" using IH that assms(6) by simp
    then have "d = nd_destination (nodes1 ! ?c)" by (simp add: d_def Some)
    moreover have "?c \<in> set xs" "?c < n" using c x(4) by (auto simp: set_kids)
    ultimately show ?thesis using IH c(2) chain.descend [of initials, OF Some] by auto
  qed
  have keep: "ends P n nodes' i \<longleftrightarrow> ends P n nodes1 i" "nd_destination (nodes' ! i) = nd_destination (nodes1 ! i)"
    if "i \<in> set xs" for i
  proof -
    have "nodes' ! i = nodes1 ! i" by (rule other) (use that x(2) in blast)
    then show "ends P n nodes' i \<longleftrightarrow> ends P n nodes1 i"
      "nd_destination (nodes' ! i) = nd_destination (nodes1 ! i)" by (simp_all add: ends_def fields)
  qed
  have "length nodes' = length nodes" using IH by (simp add: nodes')
  moreover have "nodes' ! i = nodes ! i" if "i \<notin> set (x # xs)" for i
    using IH that other by simp
  ultimately show ?case using IH ends dest keep by (auto simp: fields self)
qed simp

section \<open>The compiled shape represents the hierarchy\<close>

lemma interval_below:
  assumes h: "ihier P n" and "distinct po" "set po = {..<n}"
    and enter: "\<forall>k < length po. nd_enter (nodes ! (po ! k)) = k"
    and ends: "\<forall>i < n. ends P n nodes i"
    and slice: "po = xs @ pre t @ ys" "label t = i" "repr P n t"
    and "i < n" "j < n"
  shows "nd_enter (nodes ! i) \<le> nd_enter (nodes ! j) \<and> nd_exit (nodes ! j) \<le> nd_exit (nodes ! i)
     \<longleftrightarrow> j \<in> below P n i"
proof -
  have below: "k \<in> below P n i \<longleftrightarrow> k \<in> set (pre t)" if "k < n" for k
  proof -
    obtain l where l: "lineage P k l" using h \<open>k < n\<close> by (auto simp: ihier_def)
    have "k \<in> below P n i \<longleftrightarrow> i \<in> set l"
      using l that by (auto simp: below_def dest: lineage_unique)
    then show ?thesis using pre_lineage [OF h that l slice(3)] slice(2) by simp
  qed
  have pos: "\<exists>k < length po. po ! k = m \<and> nd_enter (nodes ! m) = k" if "m < n" for m
  proof -
    have "m \<in> set po" using that assms(3) by simp
    then show ?thesis using enter by (metis in_set_conv_nth)
  qed
  have in_slice: "m \<in> set (pre t) \<longleftrightarrow>
      length xs \<le> nd_enter (nodes ! m) \<and> nd_enter (nodes ! m) < length xs + length (pre t)"
    if "m < n" for m
  proof -
    obtain k where k: "k < length po" "po ! k = m" "nd_enter (nodes ! m) = k" using pos [OF \<open>m < n\<close>] by blast
    have "m \<in> set (pre t) \<longleftrightarrow> (\<exists>q < length (pre t). po ! (length xs + q) = m)"
      by (auto simp: slice(1) in_set_conv_nth nth_append)
    also have "\<dots> \<longleftrightarrow> (\<exists>q < length (pre t). k = length xs + q)"
    proof -
      have "length xs + q < length po" if "q < length (pre t)" for q
        using that by (simp add: slice(1))
      then have "po ! (length xs + q) = m \<longleftrightarrow> k = length xs + q" if "q < length (pre t)" for q
        using nth_eq_iff_index_eq [OF assms(2) _ k(1)] k(2) that by auto
      then show ?thesis by blast
    qed
    also have "\<dots> \<longleftrightarrow> length xs \<le> k \<and> k < length xs + length (pre t)"
      by (metis add_less_cancel_left le_Suc_ex le_add1)
    finally show ?thesis by (simp add: k(3))
  qed
  have start: "nd_enter (nodes ! i) = length xs"
  proof -
    obtain ts where t: "t = Node i ts" using slice(2) by (cases t) simp
    have "po ! length xs = i" "length xs < length po" by (simp_all add: slice(1) t nth_append)
    then show ?thesis using enter by blast
  qed
  have ext: "nd_exit (nodes ! i) \<le> length xs + length (pre t)"
  proof -
    obtain k where k: "k \<in> below P n i" "nd_exit (nodes ! i) = Suc (nd_enter (nodes ! k))"
      using ends assms(9) by (auto simp: ends_def)
    then have "k < n" by (blast dest: below_bound)
    with k have "nd_enter (nodes ! k) < length xs + length (pre t)" using in_slice below by blast
    then show ?thesis using k(2) by simp
  qed
  show ?thesis
  proof
    assume le: "nd_enter (nodes ! i) \<le> nd_enter (nodes ! j) \<and> nd_exit (nodes ! j) \<le> nd_exit (nodes ! i)"
    have "nd_enter (nodes ! j) < nd_exit (nodes ! j)"
      using ends below_self [OF h] assms(10) by (auto simp: ends_def)
    then have "j \<in> set (pre t)" using le start ext in_slice [OF assms(10)] by linarith
    then show "j \<in> below P n i" using below assms(10) by blast
  next
    assume j: "j \<in> below P n i"
    then have "length xs \<le> nd_enter (nodes ! j)"
      using in_slice below assms(10) by blast
    moreover obtain k where k: "k \<in> below P n j" "nd_exit (nodes ! j) = Suc (nd_enter (nodes ! k))"
      using ends assms(10) by (auto simp: ends_def)
    moreover have "nd_enter (nodes ! k) < nd_exit (nodes ! i)"
      using below_subset [OF h j] k(1) ends assms(9) by (auto simp: ends_def)
    ultimately show "nd_enter (nodes ! i) \<le> nd_enter (nodes ! j) \<and>
        nd_exit (nodes ! j) \<le> nd_exit (nodes ! i)"
      using start by simp
  qed
qed

definition parent_number :: "'s list \<Rightarrow> ('s \<rightharpoonup> 's) \<Rightarrow> nat \<Rightarrow> nat option" where
  "parent_number order parents i =
     (if i < length order
      then map_option (index_of (number 0 order Map.empty)) (parents (order ! i)) else None)"

lemma index_of_number:
  assumes "distinct order" "s \<in> set order"
  shows "index_of (number 0 order Map.empty) s < length order"
    "order ! index_of (number 0 order Map.empty) s = s"
proof -
  obtain i where "i < length order" "order ! i = s" using assms(2) by (auto simp: in_set_conv_nth)
  then have "number 0 order Map.empty s = Some i" using number_index [OF assms(1)] by blast
  then show "index_of (number 0 order Map.empty) s < length order"
    "order ! index_of (number 0 order Map.empty) s = s"
    using \<open>i < length order\<close> \<open>order ! i = s\<close> by (simp_all add: index_of_def)
qed

lemma index_of_nth:
  "distinct order \<Longrightarrow> i < length order \<Longrightarrow> index_of (number 0 order Map.empty) (order ! i) = i"
  using number_index [of order "order ! i" i] by (simp add: index_of_def)

lemma hierarchy_parent:
  assumes "hierarchy_ok order parents initials" "i < length order" "parents (order ! i) = Some p"
  shows "parent_number order parents i = Some (index_of (number 0 order Map.empty) p)"
    "index_of (number 0 order Map.empty) p < length order"
    "order ! index_of (number 0 order Map.empty) p = p"
  using assms index_of_number [of order p] by (auto simp: parent_number_def hierarchy_ok_def)

lemma lineage_states:
  assumes h: "hierarchy_ok order parents initials"
  shows "lineage (parent_number order parents) i l \<Longrightarrow> i < length order \<Longrightarrow>
     lineage parents (order ! i) (map ((!) order) l)"
proof (induction rule: lineage.induct)
  case (root i)
  then show ?case by (auto simp: parent_number_def intro: lineage.root)
next
  case (up i j js)
  then obtain p where p: "parents (order ! i) = Some p" by (auto simp: parent_number_def)
  with hierarchy_parent [OF h up.prems p] up show ?case by (auto intro: lineage.up)
qed

lemma lineage_numbers:
  assumes h: "hierarchy_ok order parents initials"
  shows "lineage parents s xs \<Longrightarrow> i < length order \<Longrightarrow> order ! i = s \<Longrightarrow>
     \<exists>l. xs = map ((!) order) l \<and> lineage (parent_number order parents) i l"
proof (induction arbitrary: i rule: lineage.induct)
  case (root s)
  then have "lineage (parent_number order parents) i [i]"
    by (intro lineage.root) (simp add: parent_number_def)
  with root show ?case by (intro exI [of _ "[i]"]) simp
next
  case (up s p ys)
  then have p: "parents (order ! i) = Some p" by simp
  note P = hierarchy_parent [OF h up.prems(1) p]
  from up.IH [OF P(2,3)] obtain l where "ys = map ((!) order) l"
    "lineage (parent_number order parents) (index_of (number 0 order Map.empty) p) l" by blast
  with P(1) up.prems show ?case by (intro exI [of _ "i # l"]) (auto intro: lineage.up)
qed

lemma hierarchy_ihier:
  assumes h: "hierarchy_ok order parents initials"
  shows "ihier (parent_number order parents) (length order)"
proof -
  have "i < length order \<and> p < length order" if "parent_number order parents i = Some p" for i p
  proof -
    from that have i: "i < length order" by (simp add: parent_number_def split: if_splits)
    with that obtain q where "parents (order ! i) = Some q" by (auto simp: parent_number_def)
    from hierarchy_parent [OF h i this] that i show ?thesis by simp
  qed
  moreover have "rooted (parent_number order parents) i" if "i < length order" for i
  proof -
    have "order ! i \<in> set order" using that by simp
    then obtain xs where "lineage parents (order ! i) xs"
      using h unfolding hierarchy_ok_def by blast
    from lineage_numbers [OF h this that refl] show ?thesis by blast
  qed
  ultimately show ?thesis by (simp add: ihier_def)
qed

lemma below_states:
  assumes h: "hierarchy_ok order parents initials" and ij: "i < length order" "j < length order"
    and l: "lineage parents (order ! j) xs"
  shows "j \<in> below (parent_number order parents) (length order) i \<longleftrightarrow> order ! i \<in> set xs"
proof -
  obtain l where n: "xs = map ((!) order) l" "lineage (parent_number order parents) j l"
    using lineage_numbers [OF h l ij(2) refl] by blast
  have "j \<in> below (parent_number order parents) (length order) i \<longleftrightarrow> i \<in> set l"
    using n(2) ij(2) by (auto simp: below_def dest: lineage_unique)
  moreover have "set l \<subseteq> {..<length order}"
    by (rule ihier_lineage_bound(1) [OF hierarchy_ihier [OF h] ij(2) n(2)])
  moreover have "distinct order" using h by (simp add: hierarchy_ok_def)
  ultimately show ?thesis
    using ij(1) unfolding n(1) by (auto simp: nth_eq_iff_index_eq subset_eq)
qed

text \<open>The forest of a hierarchy, in the order of the stack.\<close>

lemma forest_exists:
  assumes h: "ihier P n"
  obtains forest where "map label forest = rev (filter (\<lambda>i. P i = None) [0..<n])"
    and "\<forall>t \<in> set forest. repr P n t"
    and "distinct (concat (map pre forest))" and "set (concat (map pre forest)) = {..<n}"
proof -
  let ?roots = "rev (filter (\<lambda>i. P i = None) [0..<n])"
  have "\<forall>i \<in> set ?roots. \<exists>t. label t = i \<and> repr P n t"
    using repr_exists [OF h] by simp
  then obtain f where f: "\<forall>i \<in> set ?roots. label (f i) = i \<and> repr P n (f i)" by metis
  let ?forest = "map f ?roots"
  have labels: "map label ?forest = ?roots"
    unfolding map_map by (rule map_idI) (use f in simp)
  have reprs: "\<forall>t \<in> set ?forest. repr P n t" using f by auto
  have "distinct (concat (map pre ?forest))"
  proof (rule distinct_forest [OF h, where q = None])
    show "\<forall>t \<in> set ?forest. repr P n t \<and> distinct (pre t) \<and> P (label t) = None"
      using f distinct_pre [OF h] by auto
    show "distinct (map label ?forest)" unfolding labels by simp
  qed
  moreover have "set (concat (map pre ?forest)) = {..<n}"
  proof (intro set_eqI iffI)
    fix j assume "j \<in> set (concat (map pre ?forest))"
    then show "j \<in> {..<n}" using reprs pre_bound by fastforce
  next
    fix j assume "j \<in> {..<n}"
    then obtain l where l: "lineage P j l" "j < n" using h by (auto simp: ihier_def)
    have "P (last l) = None" by (rule lineage_last [OF l(1)])
    moreover have "last l \<in> set l" using lineage_head [OF l(1)] by auto
    moreover have "last l < n" using ihier_lineage_bound(1) [OF h l(2,1)] calculation(2) by auto
    ultimately have "last l \<in> set ?roots" by simp
    then have "j \<in> set (pre (f (last l)))" "f (last l) \<in> set ?forest"
      using f pre_lineage [OF h l(2,1)] \<open>last l \<in> set l\<close> by auto
    then show "j \<in> set (concat (map pre ?forest))" by auto
  qed
  ultimately show thesis using that [of ?forest] labels reprs by blast
qed

lemma forest_parents_first:
  assumes "\<forall>t \<in> set forest. repr P n t \<and> P (label t) = None"
  shows "parents_first P {} (concat (map pre forest))"
  by (rule parents_first_concat) (use assms parents_first_pre in fastforce)

lemma forest_slice:
  assumes "\<forall>t \<in> set forest. repr P n t" "i \<in> set (concat (map pre forest))"
  shows "\<exists>xs t ys. concat (map pre forest) = xs @ pre t @ ys \<and> label t = i \<and> repr P n t"
proof -
  obtain t where t: "t \<in> set forest" "i \<in> set (pre t)" using assms(2) by auto
  then obtain us vs where "forest = us @ t # vs" by (meson split_list)
  moreover obtain xs t' ys where "pre t = xs @ pre t' @ ys" "label t' = i" "repr P n t'"
    using pre_slice assms(1) t by metis
  ultimately have "concat (map pre forest) =
      (concat (map pre us) @ xs) @ pre t' @ (ys @ concat (map pre vs))" by simp
  then show ?thesis using \<open>label t' = i\<close> \<open>repr P n t'\<close> by blast
qed

theorem compileShape_ok:
  assumes h: "hierarchy_ok order parents initials"
  shows "shape_ok (compileShape K order parents initials) order parents initials"
proof -
  define n where "n = length order"
  define index where "index = number 0 order Map.empty"
  define P where "P = parent_number order parents"
  define nodes0 where "nodes0 = map (\<lambda>(i, s). new_node i s) (List.enumerate 0 order)"
  have d: "distinct order" using h by (simp add: hierarchy_ok_def)
  have I: "ihier P n" unfolding P_def n_def by (rule hierarchy_ihier [OF h])
  have nodes0: "length nodes0 = n" "\<And>i. i < n \<Longrightarrow> nodes0 ! i = new_node i (order ! i)"
    by (auto simp: nodes0_def n_def nth_enumerate_eq)
  define nodes1 where "nodes1 = map (\<lambda>j. (nodes0 ! j)\<lparr>nd_parent := P j\<rparr>) [0..<n]"
  define children where "children = map (kids P n) [0..<n]"
  have linked: "link parents index 0 order (nodes0, replicate n []) = (nodes1, children)"
  proof -
    have "link parents index 0 order (nodes0, replicate n []) =
      (map (\<lambda>j. if 0 \<le> j \<and> j < 0 + length order then (nodes0 ! j)\<lparr>nd_parent := P j\<rparr>
           else nodes0 ! j) [0..<length nodes0],
       map (\<lambda>p. replicate n [] ! p @ filter (\<lambda>c. P c = Some p) [0..<0 + length order])
        [0..<length (replicate n ([] :: nat list))])"
      by (rule link_spec) (auto simp: P_def parent_number_def index_def nodes0 n_def new_node_def)
    then show ?thesis
      by (auto simp: nodes1_def children_def kids_def nodes0 n_def [symmetric] intro!: map_cong)
  qed
  have nodes1: "length nodes1 = n" "\<And>i. i < n \<Longrightarrow> nodes1 ! i = (new_node i (order ! i))\<lparr>nd_parent := P i\<rparr>"
    by (simp_all add: nodes1_def nodes0)
  obtain forest where F: "map label forest = rev (filter (\<lambda>i. P i = None) [0..<n])"
    "\<forall>t \<in> set forest. repr P n t"
    "distinct (concat (map pre forest))" "set (concat (map pre forest)) = {..<n}"
    using forest_exists [OF I] by blast
  define po where "po = concat (map pre forest)"
  have stack: "filter (\<lambda>i. nd_parent (nodes1 ! i) = None) [0..<length nodes1] = rev (map label forest)"
    by (auto simp: F(1) nodes1 intro!: filter_cong)
  have "card {..<n} = length po" using F(3,4) by (metis distinct_card po_def)
  then have len: "length po = n" by simp
  obtain nodes2 po2 where run: "fold visit po (nodes1, []) = (nodes2, po2)" by fastforce
  have loop: "preorder_loop n children (rev (map label forest)) (nodes1, []) = (nodes2, po2)"
    unfolding run [symmetric] po_def
    by (rule preorder_loop_forest [where P = P and n = n])
       (use F(2) len in \<open>auto simp: children_def po_def\<close>)
  have "parents_first P {} po"
    unfolding po_def
  proof (rule forest_parents_first)
    have "label t \<in> set (filter (\<lambda>i. P i = None) [0..<n])" if "t \<in> set forest" for t
      using that F(1) by (metis image_eqI list.set_map set_rev)
    then show "\<forall>t \<in> set forest. repr P n t \<and> P (label t) = None" using F(2) by auto
  qed
  then have V: "po2 = [] @ po \<and> length nodes2 = length nodes1 \<and>
    (\<forall>i. i \<notin> set po \<longrightarrow> nodes2 ! i = nodes1 ! i) \<and>
    (\<forall>k < length po. nd_enter (nodes2 ! (po ! k)) = length ([] :: nat list) + k) \<and>
    (\<forall>i. nd_state (nodes2 ! i) = nd_state (nodes1 ! i) \<and> nd_parent (nodes2 ! i) = nd_parent (nodes1 ! i)
       \<and> nd_destination (nodes2 ! i) = nd_destination (nodes1 ! i)) \<and>
    (\<forall>i \<in> set po. deep P nodes2 i)"
    by (intro fold_visit_spec [OF _ _ _ _ _ _ run])
       (use F(3,4) in \<open>auto simp: po_def nodes1 new_node_def\<close>)
  define nodes3 where "nodes3 = foldr (settle initials index children) po nodes2"
  have idx: "index_of index c \<in> set (kids P n i) \<and> order ! index_of index c = c"
    if "i < n" "initials (order ! i) = Some c" for i c
  proof -
    have pc: "parents c = Some (order ! i)" using h that(2) by (simp add: hierarchy_ok_def)
    then have c: "c \<in> set order" using h by (auto simp: hierarchy_ok_def)
    note C = index_of_number [OF d c, folded index_def]
    have "parents (order ! index_of index c) = Some (order ! i)" using C(2) pc by simp
    from hierarchy_parent(1) [OF h C(1) this]
    have "P (index_of index c) = Some i"
      using index_of_nth [OF d] that(1) by (simp add: P_def n_def)
    then show ?thesis using C by (simp add: set_kids n_def)
  qed
  have S: "length nodes3 = length nodes2 \<and> (\<forall>i. i \<notin> set po \<longrightarrow> nodes3 ! i = nodes2 ! i) \<and>
    (\<forall>i. nd_state (nodes3 ! i) = nd_state (nodes2 ! i) \<and> nd_parent (nodes3 ! i) = nd_parent (nodes2 ! i)
       \<and> nd_depth (nodes3 ! i) = nd_depth (nodes2 ! i) \<and> nd_enter (nodes3 ! i) = nd_enter (nodes2 ! i)) \<and>
    (\<forall>i \<in> set po. i < n \<longrightarrow> ends P n nodes3 i \<and> nd_destination (nodes3 ! i) < n \<and>
       chain initials (order ! i) (order ! nd_destination (nodes3 ! i)))"
  proof (rule settle_spec [OF I d _ _ _ _ _ _ nodes3_def])
    show "length order = n" by (simp add: n_def)
    show "children_later P n po"
      unfolding po_def
      by (rule children_later_concat [OF F(3)]) (use F(2) children_later_pre [OF I] in blast)
    show "\<forall>i \<in> set po. i < length nodes2 \<and> children ! i = kids P n i"
      using V F(4) nodes1(1) by (auto simp: po_def children_def)
    show "\<forall>i < n. i < length nodes2 \<and> nd_state (nodes2 ! i) = order ! i"
      using V nodes1 by (simp add: new_node_def)
    show "\<forall>i \<in> set po. nd_destination (nodes2 ! i) = i"
      using V nodes1 F(4) by (auto simp: po_def new_node_def)
    show "\<forall>i < n. \<forall>c. initials (order ! i) = Some c \<longrightarrow>
       index_of index c \<in> set (kids P n i) \<and> order ! index_of index c = c"
      using idx by blast
  qed
  have shape: "compileShape K order parents initials =
      \<lparr>sh_nodes = nodes3, sh_index = index, sh_reflexive = reflexive_type K\<rparr>"
    using V by (simp add: compileShape_def Let_def linked loop stack nodes3_def foldr_conv_fold
        flip: index_def n_def nodes0_def)
  have len3: "length nodes3 = n" using S V nodes1 by simp
  have setpo: "set po = {..<n}" using F(4) by (simp add: po_def)
  have ends: "\<forall>i < n. ends P n nodes3 i" using S by (simp add: setpo)
  have interval: "nd_enter (nodes3 ! i) \<le> nd_enter (nodes3 ! j) \<and>
       nd_exit (nodes3 ! j) \<le> nd_exit (nodes3 ! i) \<longleftrightarrow> j \<in> below P n i"
    if "i < n" "j < n" for i j
  proof -
    have "i \<in> set (concat (map pre forest))" using that F(4) by simp
    from forest_slice [OF F(2) this] obtain xs t ys
      where t: "po = xs @ pre t @ ys" "label t = i" "repr P n t" unfolding po_def by blast
    show ?thesis
      by (rule interval_below [OF I _ _ _ ends t that]) (use F V S in \<open>auto simp: po_def\<close>)
  qed
  have depth: "Suc (nd_depth (nodes3 ! i)) = length l"
    if i: "i < n" and l: "lineage parents (order ! i) l" for i l
  proof -
    obtain m where m: "l = map ((!) order) m" "lineage P i m"
      using lineage_numbers [OF h l] i unfolding P_def n_def by blast
    have "i \<in> set po" using i by (simp add: setpo)
    then have "deep P nodes2 i" using V by blast
    then show ?thesis using m S by (simp add: deep_def)
  qed
  show ?thesis
    unfolding shape_ok_def shape shape.simps
  proof (intro conjI allI impI)
    show "map nd_state nodes3 = order"
      using S V nodes1 len3 by (auto intro!: nth_equalityI simp: n_def new_node_def)
    show "index s = Some i \<longleftrightarrow> i < length order \<and> order ! i = s" for s i
      unfolding index_def by (rule number_index [OF d])
    fix i assume i: "i < length order"
    show "nd_parent (nodes3 ! i) = map_option (index_of index) (parents (order ! i))"
      using S V nodes1 i by (simp add: n_def P_def parent_number_def index_def)
    show "Suc (nd_depth (nodes3 ! i)) = length l" if "lineage parents (order ! i) l" for l
      using depth i that by (simp add: n_def)
    show "nd_destination (nodes3 ! i) < length order"
      "chain initials (order ! i) (order ! nd_destination (nodes3 ! i))"
      using S i by (simp_all add: setpo flip: n_def)
    fix j l assume j: "j < length order" and l: "lineage parents (order ! j) l"
    show "nd_enter (nodes3 ! i) \<le> nd_enter (nodes3 ! j) \<and>
        nd_exit (nodes3 ! j) \<le> nd_exit (nodes3 ! i) \<longleftrightarrow> order ! i \<in> set l"
      using interval [of i j] below_states [OF h i j l] i j by (simp add: n_def P_def)
  qed
qed

end
