(* ===== verification/Chart_Paths.thy ===== *)
theory Chart_Paths
  imports Chart_Position
begin

text \<open>
  What the queries of \<^verbatim>\<open>statechart/position.go\<close> compute on a compiled shape, in terms of lineages
  only: \<open>leastCommonAncestor_spec\<close> (the first state of one lineage that is in the other),
  \<open>paths_spec\<close> (the exits are the part of the active lineage below the stop, the entries the part
  of the destination's, outermost first), \<open>Path_spec\<close> and \<open>Status_spec\<close>.
\<close>

section \<open>Reading a shape that represents a hierarchy\<close>

text \<open>The hypotheses every lemma about a compiled shape shares.\<close>

definition compiled :: "'s shape \<Rightarrow> 's list \<Rightarrow> ('s \<rightharpoonup> 's) \<Rightarrow> ('s \<rightharpoonup> 's) \<Rightarrow> bool" where
  "compiled h order parents initials \<longleftrightarrow>
     hierarchy_ok order parents initials \<and> shape_ok h order parents initials"

lemma compileShape_compiled:
  "hierarchy_ok order parents initials \<Longrightarrow>
     compiled (compileShape K order parents initials) order parents initials"
  by (simp add: compiled_def compileShape_ok)

named_theorems compiled_dest \<open>facts read off a compiled shape\<close>

lemma compiled_hierarchy [compiled_dest]:
  "compiled h order parents initials \<Longrightarrow> hierarchy_ok order parents initials"
  by (simp add: compiled_def)

lemma compiled_distinct [compiled_dest]: "compiled h order parents initials \<Longrightarrow> distinct order"
  by (simp add: compiled_def hierarchy_ok_def)

lemma compiled_length [compiled_dest]:
  "compiled h order parents initials \<Longrightarrow> length (sh_nodes h) = length order"
  unfolding compiled_def shape_ok_def by (metis length_map)

lemma compiled_state [compiled_dest]:
  "compiled h order parents initials \<Longrightarrow> i < length order \<Longrightarrow>
     nd_state (sh_nodes h ! i) = order ! i"
  unfolding compiled_def shape_ok_def by (metis length_map nth_map)

lemma compiled_index_map [compiled_dest]:
  assumes c: "compiled h order parents initials"
  shows "sh_index h = number 0 order Map.empty"
proof
  fix s
  have "sh_index h s = Some i \<longleftrightarrow> number 0 order Map.empty s = Some i" for i
    using c number_index [OF compiled_distinct [OF c], of s i]
    by (simp add: compiled_def shape_ok_def)
  then show "sh_index h s = number 0 order Map.empty s" by (metis option.exhaust)
qed

lemma compiled_index:
  assumes "compiled h order parents initials" "s \<in> set order"
  shows "index_of (sh_index h) s < length order" "order ! index_of (sh_index h) s = s"
    "sh_index h s = Some (index_of (sh_index h) s)"
proof -
  note d = compiled_distinct [OF assms(1)]
  show "index_of (sh_index h) s < length order" "order ! index_of (sh_index h) s = s"
    unfolding compiled_index_map [OF assms(1)] by (rule index_of_number [OF d assms(2)])+
  then show "sh_index h s = Some (index_of (sh_index h) s)"
    unfolding compiled_index_map [OF assms(1)] using number_index [OF d] by blast
qed

lemma compiled_index_nth:
  "compiled h order parents initials \<Longrightarrow> i < length order \<Longrightarrow>
     index_of (sh_index h) (order ! i) = i"
  by (simp add: compiled_index_map index_of_nth compiled_distinct)

lemma compiled_index_None:
  "compiled h order parents initials \<Longrightarrow> sh_index h s = None \<longleftrightarrow> s \<notin> set order"
proof -
  assume c: "compiled h order parents initials"
  have "sh_index h s = Some i \<Longrightarrow> s \<in> set order" for i
    using c by (auto simp: compiled_def shape_ok_def)
  moreover have "s \<in> set order \<Longrightarrow> sh_index h s \<noteq> None" using compiled_index(3) [OF c] by simp
  ultimately show "sh_index h s = None \<longleftrightarrow> s \<notin> set order" by (cases "sh_index h s") auto
qed

lemma compiled_parent [compiled_dest]:
  assumes c: "compiled h order parents initials" and "i < length order"
  shows "nd_parent (sh_nodes h ! i) = parent_number order parents i"
  using assms compiled_index_map [OF c]
  by (simp add: compiled_def shape_ok_def parent_number_def)

lemma compiled_depth:
  assumes c: "compiled h order parents initials" and "i < length order"
    and l: "lineage (parent_number order parents) i l"
  shows "Suc (nd_depth (sh_nodes h ! i)) = length l"
proof -
  have "lineage parents (order ! i) (map ((!) order) l)"
    by (rule lineage_states [OF compiled_hierarchy [OF c] l assms(2)])
  then show ?thesis using c assms(2) by (auto simp: compiled_def shape_ok_def)
qed

lemma compiled_lineage:
  assumes c: "compiled h order parents initials" and "s \<in> set order"
  obtains xs l where "lineage parents s xs" and "xs = map ((!) order) l"
    and "lineage (parent_number order parents) (index_of (sh_index h) s) l"
    and "set l \<subseteq> {..<length order}"
proof -
  note h = compiled_hierarchy [OF c]
  obtain xs where xs: "lineage parents s xs" using h assms(2) by (auto simp: hierarchy_ok_def)
  note I = compiled_index [OF assms]
  obtain l where "xs = map ((!) order) l"
    "lineage (parent_number order parents) (index_of (sh_index h) s) l"
    using lineage_numbers [OF h xs I(1,2)] by blast
  then show thesis
    using that [OF xs] ihier_lineage_bound(1) [OF hierarchy_ihier [OF h] I(1)] by blast
qed

section \<open>The least common ancestor\<close>

lemma lineage_drop:
  "lineage p x l \<Longrightarrow> k < length l \<Longrightarrow> lineage p (l ! k) (drop k l)"
proof (induction k arbitrary: x l)
  case 0
  then show ?case using lineage_head by fastforce
next
  case (Suc k)
  from Suc.prems obtain y ys where "l = x # ys" "lineage p y ys"
    by (cases rule: lineage.cases) auto
  with Suc show ?case by auto
qed

lemma lift_to_spec:
  assumes par: "\<forall>i < n. nd_parent (nodes ! i) = P i"
    and dep: "\<forall>i < n. \<forall>l. lineage P i l \<longrightarrow> Suc (nd_depth (nodes ! i)) = length l"
  shows "lineage P i l \<Longrightarrow> set l \<subseteq> {..<n} \<Longrightarrow> length l \<le> fuel \<Longrightarrow>
     lift_to fuel nodes d i = l ! (length l - Suc d)"
proof (induction fuel arbitrary: i l)
  case 0
  then show ?case using lineage_head by fastforce
next
  case (Suc fuel)
  have i: "i < n" using Suc.prems(1,2) lineage_head by fastforce
  have len: "Suc (nd_depth (nodes ! i)) = length l" using dep i Suc.prems(1) by blast
  show ?case
  proof (cases "d < nd_depth (nodes ! i)")
    case True
    then have "2 \<le> length l" using len by simp
    from Suc.prems(1) this obtain y ys where y: "l = i # ys" "P i = Some y" "lineage P y ys"
      by (cases rule: lineage.cases) auto
    then have "lift_to fuel nodes d y = ys ! (length ys - Suc d)"
      using Suc by auto
    moreover have "length l - Suc d = Suc (length ys - Suc d)" using y len True by simp
    ultimately show ?thesis using True y par i by simp
  next
    case False
    then have "length l - Suc d = 0" using len by simp
    moreover obtain r where "l = i # r" using lineage_head [OF Suc.prems(1)] by blast
    ultimately show ?thesis using False by simp
  qed
qed

lemma meet_spec:
  assumes par: "\<forall>i < n. nd_parent (nodes ! i) = P i"
  shows "lineage P i l \<Longrightarrow> lineage P j m \<Longrightarrow> length l = length m \<Longrightarrow>
     set l \<subseteq> {..<n} \<Longrightarrow> set m \<subseteq> {..<n} \<Longrightarrow> length l \<le> fuel \<Longrightarrow>
     meet fuel nodes i j = find (\<lambda>k. k \<in> set m) l"
proof (induction fuel arbitrary: i j l m)
  case 0
  then show ?case using lineage_head by fastforce
next
  case (Suc fuel)
  have ij: "i < n" "j < n" using Suc.prems lineage_head by fastforce+
  show ?case
  proof (cases "i = j")
    case True
    then have "l = m" using Suc.prems(1,2) lineage_unique by metis
    moreover obtain r where "l = i # r" using lineage_head [OF Suc.prems(1)] by blast
    ultimately show ?thesis using True by auto
  next
    case False
    have no: "x \<notin> set m'" if x: "lineage P x (x # l')" and y: "lineage P y (y # m')"
      and eq: "length l' = length m'" "x \<noteq> y" for x y l' m'
    proof
      assume "x \<in> set m'"
      then obtain l1 l2 where "y # m' = l1 @ l2" "lineage P x l2"
        using lineage_suffix [OF y, of x] by auto
      moreover from this have "l2 = x # l'" using x lineage_unique by metis
      ultimately have "l1 = []" using eq(1) by (auto dest: arg_cong [where f = length])
      then show False using \<open>y # m' = l1 @ l2\<close> \<open>l2 = x # l'\<close> eq(2) by simp
    qed
    obtain l' m' where l: "l = i # l'" and m: "m = j # m'"
      using lineage_head Suc.prems(1,2) by metis
    have i_m: "i \<notin> set m" using no [of i l' j m'] Suc.prems(1-3) False by (simp add: l m)
    have j_l: "j \<notin> set l" using no [of j m' i l'] Suc.prems(1-3) False by (simp add: l m)
    show ?thesis
    proof (cases "P i")
      case None
      then have "l' = []" using Suc.prems(1) l by (auto elim: lineage_ConsE)
      then have "m' = []" using Suc.prems(3) l m by simp
      then have "P j = None" using Suc.prems(2) m by (auto elim!: lineage_ConsE dest: lineage_head)
      then show ?thesis using None False par ij \<open>l' = []\<close> i_m by (simp add: l)
    next
      case (Some x)
      then have x: "lineage P x l'" using lineage_parent [OF Suc.prems(1)] l by auto
      then have "l' \<noteq> []" using lineage_head by fastforce
      then have "m' \<noteq> []" using Suc.prems(3) l m by auto
      then obtain y where y: "P j = Some y" "lineage P y m'"
        using Suc.prems(2) m by (auto elim: lineage_ConsE)
      have "meet fuel nodes x y = find (\<lambda>k. k \<in> set m') l'"
        by (rule Suc.IH [OF x y(2)]) (use Suc.prems l m in auto)
      moreover have "find (\<lambda>k. k \<in> set m') l' = find (\<lambda>k. k \<in> set m) l"
        using i_m j_l by (auto simp: l m intro!: find_cong)
      ultimately show ?thesis using Some y False par ij by simp
    qed
  qed
qed

lemma find_append: "find Q (xs @ ys) = (case find Q xs of None \<Rightarrow> find Q ys | Some x \<Rightarrow> Some x)"
  by (induction xs) auto

lemma lineage_common_position:
  assumes "lineage p i l" "lineage p j m" "k < length l" "k' < length m" "l ! k = m ! k'"
  shows "length l - k = length m - k'"
proof -
  have "drop k l = drop k' m"
    using lineage_drop [OF assms(1,3)] lineage_drop [OF assms(2,4)] assms(5) lineage_unique
    by metis
  then show ?thesis by (metis length_drop)
qed

lemma find_common_drop:
  assumes "lineage p i l" "lineage p j m"
  shows "find (\<lambda>x. x \<in> set (drop (length m - length l) m)) (drop (length l - length m) l) =
     find (\<lambda>x. x \<in> set m) l"
proof -
  let ?a = "length l - length m" and ?b = "length m - length l"
  have "l ! k \<notin> set m" if k: "k < ?a" for k
  proof
    assume "l ! k \<in> set m"
    then obtain k' where "k' < length m" "m ! k' = l ! k" by (auto simp: in_set_conv_nth)
    moreover have "k < length l" using k by simp
    ultimately have "length l - k = length m - k'"
      using lineage_common_position [OF assms, of k k'] by simp
    then show False using k by linarith
  qed
  then have "\<forall>x \<in> set (take ?a l). x \<notin> set m"
    by (metis in_set_conv_nth length_take min_less_iff_conj nth_take)
  then have "find (\<lambda>x. x \<in> set m) (take ?a l) = None" by (auto simp: find_None_iff)
  then have "find (\<lambda>x. x \<in> set m) l = find (\<lambda>x. x \<in> set m) (drop ?a l)"
    using find_append [of "\<lambda>x. x \<in> set m" "take ?a l" "drop ?a l"] by simp
  also have "\<dots> = find (\<lambda>x. x \<in> set (drop ?b m)) (drop ?a l)"
  proof (rule find_cong [OF refl])
    fix x assume "x \<in> set (drop ?a l)"
    then obtain i where "i < length (drop ?a l)" "x = drop ?a l ! i"
      by (metis in_set_conv_nth)
    then have k: "?a + i < length l" "?a \<le> ?a + i" "x = l ! (?a + i)" by auto
    show "x \<in> set m \<longleftrightarrow> x \<in> set (drop ?b m)"
    proof
      assume "x \<in> set m"
      then obtain k' where k': "k' < length m" "m ! k' = x" by (auto simp: in_set_conv_nth)
      moreover from this have "length l - (?a + i) = length m - k'"
        using lineage_common_position [OF assms k(1), of k'] k(3) by metis
      ultimately have "?b \<le> k'" using k(1) by linarith
      then have "drop ?b m ! (k' - ?b) = x" "k' - ?b < length (drop ?b m)" using k' by auto
      then show "x \<in> set (drop ?b m)" by (metis nth_mem)
    qed (rule in_set_dropD)
  qed
  finally show ?thesis by simp
qed

theorem leastCommonAncestor_spec:
  assumes c: "compiled h order parents initials" and xy: "x \<in> set order" "y \<in> set order"
    and lx: "lineage parents x lx" and ly: "lineage parents y ly"
  shows "leastCommonAncestor h (index_of (sh_index h) x) (index_of (sh_index h) y) =
     map_option (index_of (sh_index h)) (find (\<lambda>s. s \<in> set ly) lx)"
proof -
  let ?P = "parent_number order parents" and ?n = "length order" and ?nodes = "sh_nodes h"
  obtain l where l: "lx = map ((!) order) l" "lineage ?P (index_of (sh_index h) x) l" "set l \<subseteq> {..<?n}"
    using compiled_lineage [OF c xy(1)] lx lineage_unique by metis
  obtain m where m: "ly = map ((!) order) m" "lineage ?P (index_of (sh_index h) y) m" "set m \<subseteq> {..<?n}"
    using compiled_lineage [OF c xy(2)] ly lineage_unique by metis
  note ix = compiled_index(1) [OF c xy(1)] and iy = compiled_index(1) [OF c xy(2)]
  note h = hierarchy_ihier [OF compiled_hierarchy [OF c]]
  have par: "\<forall>i < ?n. nd_parent (?nodes ! i) = ?P i" using compiled_parent [OF c] by blast
  have dep: "\<forall>i < ?n. \<forall>l. lineage ?P i l \<longrightarrow> Suc (nd_depth (?nodes ! i)) = length l"
    using compiled_depth [OF c] by blast
  have len: "length l \<le> ?n" "length m \<le> ?n"
    using ihier_lineage_bound(2) [OF h] ix iy l(2) m(2) by blast+
  have pos: "0 < length l" "0 < length m" using lineage_head l(2) m(2) by fastforce+
  let ?a = "length l - length m" and ?b = "length m - length l"
  have dy: "Suc (nd_depth (?nodes ! index_of (sh_index h) y)) = length m"
    using dep iy m(2) by blast
  have left: "lift_to ?n ?nodes (nd_depth (?nodes ! index_of (sh_index h) y)) (index_of (sh_index h) x)
      = l ! ?a"
    using lift_to_spec [OF par dep l(2,3) len(1)] dy by simp
  have la: "lineage ?P (l ! ?a) (drop ?a l)" by (rule lineage_drop [OF l(2)]) (use pos in simp)
  have "l ! ?a < ?n" using l(3) pos by (metis diff_less lessThan_iff nth_mem subsetD)
  then have "Suc (nd_depth (?nodes ! (l ! ?a))) = length (drop ?a l)" using dep la by blast
  then have right: "lift_to ?n ?nodes (nd_depth (?nodes ! (l ! ?a))) (index_of (sh_index h) y) = m ! ?b"
  proof -
    have "length m - length (drop ?a l) = ?b" by auto
    then show ?thesis
      using lift_to_spec [OF par dep m(2,3) len(2), of "nd_depth (?nodes ! (l ! ?a))"]
        \<open>Suc _ = length (drop ?a l)\<close> by simp
  qed
  have mb: "lineage ?P (m ! ?b) (drop ?b m)" by (rule lineage_drop [OF m(2)]) (use pos in simp)
  have "meet ?n ?nodes (l ! ?a) (m ! ?b) = find (\<lambda>k. k \<in> set (drop ?b m)) (drop ?a l)"
    by (rule meet_spec [OF par la mb])
       (use l(3) m(3) len in \<open>auto dest: in_set_dropD\<close>)
  also have "\<dots> = find (\<lambda>k. k \<in> set m) l" by (rule find_common_drop [OF l(2) m(2)])
  finally have "leastCommonAncestor h (index_of (sh_index h) x) (index_of (sh_index h) y) =
      find (\<lambda>k. k \<in> set m) l"
    by (simp add: leastCommonAncestor_def Let_def left right compiled_length [OF c])
  moreover have "map_option (index_of (sh_index h)) (find (\<lambda>s. s \<in> set ly) (map ((!) order) l')) =
      find (\<lambda>k. k \<in> set m) l'" if "set l' \<subseteq> {..<?n}" for l'
    using that
  proof (induction l')
    case (Cons k l')
    have "order ! k \<in> set ly \<longleftrightarrow> k \<in> set m"
      using Cons.prems m compiled_distinct [OF c] by (auto simp: nth_eq_iff_index_eq subset_eq)
    with Cons compiled_index_nth [OF c] show ?case by auto
  qed simp
  ultimately show ?thesis using l(1,3) by simp
qed

section \<open>Exit and entry paths\<close>

lemma compiled_state_depth:
  assumes c: "compiled h order parents initials" and "s \<in> set order" "lineage parents s l"
  shows "Suc (nd_depth (sh_nodes h ! index_of (sh_index h) s)) = length l"
  using c compiled_index [OF c assms(2)] assms(3) by (simp add: compiled_def shape_ok_def)

lemma compiled_state_parent:
  assumes c: "compiled h order parents initials" and "s \<in> set order"
  shows "nd_parent (sh_nodes h ! index_of (sh_index h) s) =
     map_option (index_of (sh_index h)) (parents s)"
  using c compiled_index [OF c assms(2)] by (simp add: compiled_def shape_ok_def)

lemma compiled_lineage_states:
  assumes c: "compiled h order parents initials"
  shows "lineage parents s l \<Longrightarrow> s \<in> set order \<Longrightarrow> set l \<subseteq> set order"
  by (induction rule: lineage.induct)
     (use compiled_hierarchy [OF c] in \<open>auto simp: hierarchy_ok_def\<close>)

lemma climb_spec:
  assumes c: "compiled h order parents initials"
  shows "lineage parents s l \<Longrightarrow> s \<in> set order \<Longrightarrow>
     climb k (sh_nodes h) (Some (index_of (sh_index h) s)) = take k l"
proof (induction arbitrary: k rule: lineage.induct)
  case (root s)
  have "climb m (sh_nodes h) None = []" for m by (cases m) auto
  with root show ?case
    using compiled_state_parent [OF c root(2)] compiled_state [OF c] compiled_index [OF c root(2)]
    by (cases k) auto
next
  case (up s p l)
  then have "p \<in> set order" using compiled_hierarchy [OF c] by (auto simp: hierarchy_ok_def)
  with up show ?case
    using compiled_state_parent [OF c up(4)] compiled_state [OF c] compiled_index [OF c up(4)]
    by (cases k) auto
qed

text \<open>The state both paths stop at.\<close>

definition stop_state :: "('s \<rightharpoonup> 's) \<Rightarrow> 's list \<Rightarrow> 's \<Rightarrow> 's list \<Rightarrow> bool \<Rightarrow> 's option" where
  "stop_state parents source_lineage target target_lineage reentry =
     (if reentry then parents target else find (\<lambda>s. s \<in> set target_lineage) source_lineage)"

definition until :: "'s option \<Rightarrow> 's list \<Rightarrow> 's list" where
  "until stop l = takeWhile (\<lambda>s. stop \<noteq> Some s) l"

lemma until_take:
  assumes "lineage parents s l"
    and "case stop of None \<Rightarrow> m = 0 | Some t \<Rightarrow> t \<in> set l \<and> (\<exists>lt. lineage parents t lt \<and> length lt = m)"
  shows "until stop l = take (length l - m) l"
proof (cases stop)
  case None
  with assms(2) show ?thesis by (simp add: until_def)
next
  case (Some t)
  with assms(2) obtain lt where t: "t \<in> set l" "lineage parents t lt" "length lt = m" by auto
  from lineage_suffix [OF assms(1) t(1)] obtain l1 l2 where l: "l = l1 @ l2" "lineage parents t l2"
    by blast
  then have l2: "l2 = lt" using t(2) lineage_unique by metis
  obtain r where "l2 = t # r" using lineage_head [OF l(2)] by blast
  moreover have "t \<notin> set l1" using lineage_distinct [OF assms(1)] l(1) calculation by auto
  then have "takeWhile (\<lambda>s. stop \<noteq> Some s) l1 = l1"
    using Some by (intro takeWhile_eq_all_conv [THEN iffD2]) auto
  ultimately show ?thesis using Some l(1) l2 t(3) by (simp add: until_def takeWhile_append)
qed

theorem paths_spec:
  assumes c: "compiled h order parents initials"
    and in_order: "source \<in> set order" "target \<in> set order" "destination \<in> set order"
    and ls: "lineage parents source ls" and lt: "lineage parents target lt"
    and ld: "lineage parents destination ld"
    and stop: "stop = stop_state parents ls target lt reentry"
    and common: "\<forall>s. stop = Some s \<longrightarrow> s \<in> set ls \<and> s \<in> set ld"
  shows "paths h source target destination reentry = (until stop ls, rev (until stop ld))"
proof -
  let ?ix = "index_of (sh_index h)"
  have at: "path_stop h (?ix source) (?ix target) reentry = map_option ?ix stop"
    using leastCommonAncestor_spec [OF c in_order(1,2) ls lt] compiled_state_parent [OF c in_order(2)]
    by (simp add: path_stop_def stop stop_state_def)
  have "\<exists>m. case stop of None \<Rightarrow> m = 0
      | Some t \<Rightarrow> t \<in> set order \<and> (\<exists>lt. lineage parents t lt \<and> length lt = m)"
  proof (cases stop)
    case (Some t)
    then have "t \<in> set order" using common compiled_lineage_states [OF c ls in_order(1)] by auto
    moreover obtain l where "lineage parents t l"
      using compiled_hierarchy [OF c] calculation by (auto simp: hierarchy_ok_def)
    ultimately show ?thesis using Some by auto
  qed simp
  then obtain m where m: "case stop of None \<Rightarrow> m = 0
      | Some t \<Rightarrow> t \<in> set order \<and> (\<exists>lt. lineage parents t lt \<and> length lt = m)" by blast
  have depth: "(case map_option ?ix stop of None \<Rightarrow> - 1
      | Some i \<Rightarrow> int (nd_depth (sh_nodes h ! i))) = int m - 1"
  proof (cases stop)
    case None
    then show ?thesis using m by simp
  next
    case (Some t)
    then obtain l where "t \<in> set order" "lineage parents t l" "length l = m" using m by auto
    with compiled_state_depth [OF c] have "Suc (nd_depth (sh_nodes h ! ?ix t)) = m" by blast
    then show ?thesis using Some by auto
  qed
  have exits: "until stop ls = take (length ls - m) ls"
    by (rule until_take [OF ls]) (use m common in \<open>auto split: option.splits\<close>)
  have entries: "until stop ld = take (length ld - m) ld"
    by (rule until_take [OF ld]) (use m common in \<open>auto split: option.splits\<close>)
  have counts: "nat (int (nd_depth (sh_nodes h ! ?ix source)) - (int m - 1)) = length ls - m"
    "nat (int (nd_depth (sh_nodes h ! ?ix destination)) - (int m - 1)) = length ld - m"
    using compiled_state_depth [OF c in_order(1) ls] compiled_state_depth [OF c in_order(3) ld] by auto
  have climbs: "climb k (sh_nodes h) (Some (?ix source)) = take k ls"
    "climb k (sh_nodes h) (Some (?ix destination)) = take k ld" for k
    by (rule climb_spec [OF c ls in_order(1)], rule climb_spec [OF c ld in_order(3)])
  show ?thesis
    unfolding paths_def Let_def at depth counts climbs exits entries by simp
qed

text \<open>Following Initials goes down the hierarchy.\<close>

lemma chain_lineage:
  assumes h: "hierarchy_ok order parents initials"
  shows "chain initials s d \<Longrightarrow> s \<in> set order \<Longrightarrow> lineage parents d ld \<Longrightarrow>
     d \<in> set order \<and> s \<in> set ld"
proof (induction rule: chain.induct)
  case (stop x)
  then show ?case using lineage_head by fastforce
next
  case (descend x y d)
  then have "parents y = Some x" using h by (simp add: hierarchy_ok_def)
  with h descend show ?case
    by (auto simp: hierarchy_ok_def dest: lineage_parent_mem)
qed

lemma compiled_lineage_length:
  assumes c: "compiled h order parents initials" and "s \<in> set order" "lineage parents s l"
  shows "length l \<le> length (sh_nodes h)"
proof -
  have "distinct l" "set l \<subseteq> set order"
    using lineage_distinct [OF assms(3)] compiled_lineage_states [OF c assms(3,2)] by auto
  then show ?thesis
    using card_mono [of "set order" "set l"] distinct_card [of l]
      distinct_card [OF compiled_distinct [OF c]] compiled_length [OF c] by simp
qed

section \<open>Positions\<close>

lemma range_over_walk:
  assumes c: "compiled h order parents initials"
  shows "lineage parents s l \<Longrightarrow> s \<in> set order \<Longrightarrow> length l \<le> fuel \<Longrightarrow>
     walk_yield fuel (sh_nodes h) yield (Some (index_of (sh_index h) s)) acc = range_over yield l acc"
proof (induction arbitrary: fuel acc rule: lineage.induct)
  case (root s)
  have "walk_yield m (sh_nodes h) yield None acc' = (acc', True)" for m acc' by (cases m) auto
  with root show ?case
    using compiled_state_parent [OF c root(2)] compiled_state [OF c] compiled_index [OF c root(2)]
    by (cases fuel) (auto split: prod.splits bool.splits)
next
  case (up s p l)
  then have "p \<in> set order" using compiled_hierarchy [OF c] by (auto simp: hierarchy_ok_def)
  with up show ?case
    using compiled_state_parent [OF c up(4)] compiled_state [OF c] compiled_index [OF c up(4)]
    by (cases fuel) (auto split: prod.splits bool.splits)
qed

definition position_at :: "'s shape \<Rightarrow> 's \<Rightarrow> 's position" where
  "position_at h s = \<lparr>pos_shape = Some h, pos_active = int (index_of (sh_index h) s)\<rparr>"

lemma position_at_valid:
  "compiled h order parents initials \<Longrightarrow> s \<in> set order \<Longrightarrow> valid_position (position_at h s)"
  using compiled_index(1) compiled_length by (fastforce simp: valid_position_def position_at_def)

lemma Active_spec:
  "compiled h order parents initials \<Longrightarrow> s \<in> set order \<Longrightarrow> Active (position_at h s) = Some s"
  using position_at_valid [of h order parents initials s]
  by (simp add: Active_def position_at_def compiled_state compiled_index)

lemma Path_spec:
  assumes c: "compiled h order parents initials" and s: "s \<in> set order" and l: "lineage parents s l"
  shows "Path (position_at h s) yield acc = fst (range_over yield l acc)"
proof -
  have "length l \<le> length (sh_nodes h)" by (rule compiled_lineage_length [OF c s l])
  with range_over_walk [OF c l s, of "length (sh_nodes h)" yield acc] position_at_valid [OF c s] show ?thesis
    by (simp add: Path_def position_at_def Let_def)
qed

lemma Status_spec:
  assumes c: "compiled h order parents initials" and s: "s \<in> set order" and l: "lineage parents s l"
    and ok: "sh_reflexive h \<or> (\<forall>x \<in> set order. key_ok K x)"
  shows "Status K (position_at h s) x =
     (if x \<notin> set order then None
      else Some (if x = s then StatusActive
                 else if x \<in> set l then StatusEnclosing else StatusInactive))"
proof -
  let ?ix = "index_of (sh_index h)"
  have look: "stateIndex K (Some h) x = (if x \<in> set order then Some (?ix x) else None)"
    using ok compiled_index(3) [OF c] compiled_index_None [OF c]
    by (auto simp: stateIndex_def)
  show ?thesis
  proof (cases "x \<in> set order")
    case True
    note X = compiled_index [OF c True] and S = compiled_index [OF c s]
    have "?ix x = ?ix s \<longleftrightarrow> x = s" using X(2) S(2) by metis
    moreover have "nd_enter (sh_nodes h ! ?ix x) \<le> nd_enter (sh_nodes h ! ?ix s) \<and>
        nd_exit (sh_nodes h ! ?ix s) \<le> nd_exit (sh_nodes h ! ?ix x) \<longleftrightarrow> x \<in> set l"
    proof -
      have interval: "\<forall>i < length order. \<forall>j < length order. \<forall>l. lineage parents (order ! j) l \<longrightarrow>
          (nd_enter (sh_nodes h ! i) \<le> nd_enter (sh_nodes h ! j) \<and>
           nd_exit (sh_nodes h ! j) \<le> nd_exit (sh_nodes h ! i) \<longleftrightarrow> order ! i \<in> set l)"
        using c by (simp add: compiled_def shape_ok_def)
      from interval [rule_format, OF X(1) S(1)] show ?thesis using l X(2) S(2) by simp
    qed
    ultimately show ?thesis
      using True look position_at_valid [OF c s]
      by (simp add: Status_def position_at_def Let_def)
  next
    case False
    then show ?thesis using look position_at_valid [OF c s]
      by (simp add: Status_def position_at_def)
  qed
qed

end
