(* ===== verification/Chart_Compile.thy ===== *)
theory Chart_Compile
  imports Chart_Paths Machine
begin

text \<open>
  \<^verbatim>\<open>statechart/statechart.go\<close>: declarations and \<^verbatim>\<open>Compile\<close>.

  The records are the code's \<^verbatim>\<open>State\<close>, \<^verbatim>\<open>Substate\<close>, \<^verbatim>\<open>Initial\<close>, \<^verbatim>\<open>Transition\<close>, \<^verbatim>\<open>Definition\<close>
  and \<^verbatim>\<open>Chart\<close>; a nil action is \<open>None\<close>. \<open>compile_chart\<close> runs the code's four loops
  (\<open>declare_states\<close>, \<open>declare_parents\<close>, \<open>declare_initials\<close>, \<open>declare_rows\<close>), each of which carries on
  after a defect and appends it to the problems; \<open>knownState\<close> is shared by the last three. A Go map
  whose key is not equal to itself never finds it again, so \<open>go_put\<close> drops such a key.

  The specification is \<open>good_definition\<close>, what a definition has to satisfy, and \<open>chart_of\<close>, the chart
  of a definition. The lemmas show that each loop reports nothing exactly when its part of the
  definition is good, and builds the part of \<open>chart_of\<close> then.
\<close>

section \<open>Declarations\<close>

datatype kind = External | Internal | Reentry | OtherKind "8 word"

record ('s, 'e) info =
  in_source :: 's
  in_handler :: 's
  in_target :: 's
  in_destination :: 's
  in_event :: 'e
  in_kind :: kind

type_synonym ('s, 'e, 'c, 't, 'w) chart_action =
  "'c \<Rightarrow> ('s, 'e) info \<Rightarrow> 't \<Rightarrow> ('s, 'e, 'w, ('s, 'e) err option) act"

record ('s, 'e, 'c, 't, 'w) chart_state =
  cs_name :: 's
  cs_entry :: "('s, 'e, 'c, 't, 'w) chart_action option list"
  cs_exit :: "('s, 'e, 'c, 't, 'w) chart_action option list"

record 's substate =
  sub_child :: 's
  sub_parent :: 's

record 's initial =
  ini_parent :: 's
  ini_child :: 's

record ('s, 'e, 'c, 't, 'w) chart_transition =
  ct_from :: 's
  ct_event :: 'e
  ct_to :: 's
  ct_kind :: kind
  ct_guard :: "('s, 'e, 'c, 't, 'w) chart_action option"
  ct_do :: "('s, 'e, 'c, 't, 'w) chart_action option"

record ('s, 'e, 'c, 't, 'w) chart_definition =
  df_states :: "('s, 'e, 'c, 't, 'w) chart_state list"
  df_substates :: "'s substate list"
  df_initials :: "'s initial list"
  df_transitions :: "('s, 'e, 'c, 't, 'w) chart_transition list"

record ('s, 'e, 'c, 't, 'w) state_actions =
  sa_entry :: "('s, 'e, 'c, 't, 'w) chart_action option list"
  sa_exit :: "('s, 'e, 'c, 't, 'w) chart_action option list"

text \<open>A nil shape is \<open>None\<close>: the zero chart has one.\<close>

record ('s, 'e, 'c, 't, 'w) chart =
  ch_states :: "'s \<rightharpoonup> ('s, 'e, 'c, 't, 'w) state_actions"
  ch_rows :: "'s \<times> 'e \<rightharpoonup> ('s, 'e, 'c, 't, 'w) chart_transition list"
  ch_events :: "'s \<rightharpoonup> 'e list"
  ch_shape :: "'s shape option"
  ch_reflexiveEvent :: bool

definition zero_chart :: "('s, 'e, 'c, 't, 'w) chart" where
  "zero_chart = \<lparr>ch_states = Map.empty, ch_rows = Map.empty, ch_events = Map.empty,
     ch_shape = None, ch_reflexiveEvent = False\<rparr>"

definition ct_key :: "('s, 'e, 'c, 't, 'w) chart_transition \<Rightarrow> 's \<times> 'e" where
  "ct_key t = (ct_from t, ct_event t)"

section \<open>Compile\<close>

datatype field =
    SubstateChild | SubstateParent | InitialParent | InitialChild | TransitionFrom | TransitionTo

datatype ('s, 'e) problem =
    InvalidName nat
  | DuplicateState nat 's nat
  | InvalidField field nat
  | UndeclaredField field nat 's
  | SelfParent nat 's
  | SecondParent nat 's nat
  | HierarchyCycle "'s list"
  | SecondInitial nat 's nat
  | NotDirectChild nat 's 's
  | InvalidEvent nat
  | ExternalSelf nat 's
  | KindMismatch nat kind 's 's
  | InvalidKind nat kind
  | HiddenRow nat 's 'e nat

datatype ('s, 'e) chart_error =
    ChartStateInterface
  | ChartEventInterface
  | ChartProblems "('s, 'e) problem list"

definition go_put :: "'k keyops \<Rightarrow> 'k \<Rightarrow> 'v \<Rightarrow> ('k \<rightharpoonup> 'v) \<Rightarrow> ('k \<rightharpoonup> 'v)" where
  "go_put K k v m = (if key_ok K k then m(k \<mapsto> v) else m)"

text \<open>Go's \<^verbatim>\<open>==\<close> on two keys: a value that is not equal to itself equals nothing.\<close>

definition go_same :: "'k keyops \<Rightarrow> 'k \<Rightarrow> 'k \<Rightarrow> bool" where
  "go_same K a b \<longleftrightarrow> key_ok K a \<and> a = b"

definition knownState ::
    "'s keyops \<Rightarrow> ('s \<rightharpoonup> nat) \<Rightarrow> 's \<Rightarrow> field \<Rightarrow> nat \<Rightarrow> bool \<times> ('s, 'e) problem list" where
  "knownState K states v field index =
     (if \<not> key_ok K v then (False, [InvalidField field index])
      else if states v \<noteq> None then (True, [])
      else (False, [UndeclaredField field index v]))"

fun declare_states ::
    "'s keyops \<Rightarrow> nat \<Rightarrow> ('s, 'e, 'c, 't, 'w) chart_state list \<Rightarrow>
      's list \<times> ('s \<rightharpoonup> nat) \<times> ('s \<rightharpoonup> ('s, 'e, 'c, 't, 'w) state_actions) \<times> ('s, 'e) problem list \<Rightarrow>
      's list \<times> ('s \<rightharpoonup> nat) \<times> ('s \<rightharpoonup> ('s, 'e, 'c, 't, 'w) state_actions) \<times> ('s, 'e) problem list" where
  "declare_states K i [] st = st"
| "declare_states K i (s # states) (order, stateAt, actions, problems) =
     declare_states K (Suc i) states
       (if \<not> key_ok K (cs_name s) then (order, stateAt, actions, problems @ [InvalidName i])
        else (case stateAt (cs_name s) of
                Some previous \<Rightarrow>
                  (order, stateAt, actions, problems @ [DuplicateState i (cs_name s) previous])
              | None \<Rightarrow>
                  (order @ [cs_name s], stateAt(cs_name s \<mapsto> i),
                   actions(cs_name s \<mapsto> \<lparr>sa_entry = cs_entry s, sa_exit = cs_exit s\<rparr>), problems)))"

definition declare_parent ::
    "'s keyops \<Rightarrow> ('s \<rightharpoonup> nat) \<Rightarrow> nat \<Rightarrow> 's substate \<Rightarrow>
      ('s \<rightharpoonup> nat) \<times> ('s \<rightharpoonup> 's) \<times> ('s, 'e) problem list \<Rightarrow>
      ('s \<rightharpoonup> nat) \<times> ('s \<rightharpoonup> 's) \<times> ('s, 'e) problem list" where
  "declare_parent K stateAt i edge st =
     (case st of (parentAt, parents, problems) \<Rightarrow>
      case knownState K stateAt (sub_child edge) SubstateChild i of (childKnown, p1) \<Rightarrow>
      case knownState K stateAt (sub_parent edge) SubstateParent i of (parentKnown, p2) \<Rightarrow>
        let problems = problems @ p1 @ p2 in
        if go_same K (sub_child edge) (sub_parent edge) \<and> childKnown \<and> parentKnown
        then (parentAt, parents, problems @ [SelfParent i (sub_child edge)])
        else (case parentAt (sub_child edge) of
                Some previous \<Rightarrow>
                  (parentAt, parents, problems @ [SecondParent i (sub_child edge) previous])
              | None \<Rightarrow>
                  (go_put K (sub_child edge) i parentAt,
                   (if childKnown \<and> parentKnown then parents(sub_child edge \<mapsto> sub_parent edge)
                    else parents),
                   problems)))"

fun declare_parents ::
    "'s keyops \<Rightarrow> ('s \<rightharpoonup> nat) \<Rightarrow> nat \<Rightarrow> 's substate list \<Rightarrow>
      ('s \<rightharpoonup> nat) \<times> ('s \<rightharpoonup> 's) \<times> ('s, 'e) problem list \<Rightarrow>
      ('s \<rightharpoonup> nat) \<times> ('s \<rightharpoonup> 's) \<times> ('s, 'e) problem list" where
  "declare_parents K stateAt i [] st = st"
| "declare_parents K stateAt i (edge # edges) st =
     declare_parents K stateAt (Suc i) edges (declare_parent K stateAt i edge st)"

definition declare_initial ::
    "'s keyops \<Rightarrow> ('s \<rightharpoonup> nat) \<Rightarrow> ('s \<rightharpoonup> 's) \<Rightarrow> nat \<Rightarrow> 's initial \<Rightarrow>
      ('s \<rightharpoonup> nat) \<times> ('s \<rightharpoonup> 's) \<times> ('s, 'e) problem list \<Rightarrow>
      ('s \<rightharpoonup> nat) \<times> ('s \<rightharpoonup> 's) \<times> ('s, 'e) problem list" where
  "declare_initial K stateAt parents i edge st =
     (case st of (initialAt, initials, problems) \<Rightarrow>
      case knownState K stateAt (ini_parent edge) InitialParent i of (parentKnown, p1) \<Rightarrow>
      case knownState K stateAt (ini_child edge) InitialChild i of (childKnown, p2) \<Rightarrow>
        let problems = problems @ p1 @ p2 in
        case initialAt (ini_parent edge) of
          Some previous \<Rightarrow>
            (initialAt, initials, problems @ [SecondInitial i (ini_parent edge) previous])
        | None \<Rightarrow>
            let initialAt = go_put K (ini_parent edge) i initialAt in
            if \<not> parentKnown \<or> \<not> childKnown then (initialAt, initials, problems)
            else if parents (ini_child edge) \<noteq> Some (ini_parent edge)
            then (initialAt, initials,
                  problems @ [NotDirectChild i (ini_child edge) (ini_parent edge)])
            else (initialAt, initials(ini_parent edge \<mapsto> ini_child edge), problems))"

fun declare_initials ::
    "'s keyops \<Rightarrow> ('s \<rightharpoonup> nat) \<Rightarrow> ('s \<rightharpoonup> 's) \<Rightarrow> nat \<Rightarrow> 's initial list \<Rightarrow>
      ('s \<rightharpoonup> nat) \<times> ('s \<rightharpoonup> 's) \<times> ('s, 'e) problem list \<Rightarrow>
      ('s \<rightharpoonup> nat) \<times> ('s \<rightharpoonup> 's) \<times> ('s, 'e) problem list" where
  "declare_initials K stateAt parents i [] st = st"
| "declare_initials K stateAt parents i (edge # edges) st =
     declare_initials K stateAt parents (Suc i) edges (declare_initial K stateAt parents i edge st)"

definition kind_problems ::
    "'s keyops \<Rightarrow> nat \<Rightarrow> ('s, 'e, 'c, 't, 'w) chart_transition \<Rightarrow> ('s, 'e) problem list" where
  "kind_problems K i t =
     (case ct_kind t of
        External \<Rightarrow> if go_same K (ct_from t) (ct_to t) then [ExternalSelf i (ct_from t)] else []
      | OtherKind k \<Rightarrow> [InvalidKind i (OtherKind k)]
      | kind \<Rightarrow> if \<not> go_same K (ct_from t) (ct_to t)
                then [KindMismatch i kind (ct_from t) (ct_to t)] else [])"

definition declare_row ::
    "'s keyops \<Rightarrow> 'e keyops \<Rightarrow> ('s \<rightharpoonup> nat) \<Rightarrow> nat \<Rightarrow> ('s, 'e, 'c, 't, 'w) chart_transition \<Rightarrow>
      ('s \<times> 'e \<rightharpoonup> ('s, 'e, 'c, 't, 'w) chart_transition list) \<times> ('s \<rightharpoonup> 'e list) \<times>
        ('s \<times> 'e \<rightharpoonup> nat) \<times> ('s, 'e) problem list \<Rightarrow>
      ('s \<times> 'e \<rightharpoonup> ('s, 'e, 'c, 't, 'w) chart_transition list) \<times> ('s \<rightharpoonup> 'e list) \<times>
        ('s \<times> 'e \<rightharpoonup> nat) \<times> ('s, 'e) problem list" where
  "declare_row K L stateAt i t st =
     (case st of (rows, events, unguarded, problems) \<Rightarrow>
      case knownState K stateAt (ct_from t) TransitionFrom i of (fromKnown, p1) \<Rightarrow>
      case knownState K stateAt (ct_to t) TransitionTo i of (toKnown, p2) \<Rightarrow>
        let problems = problems @ p1 @ p2 in
        if \<not> key_ok L (ct_event t) then (rows, events, unguarded, problems @ [InvalidEvent i])
        else let problems = problems @ kind_problems K i t in
        if \<not> fromKnown \<or> \<not> toKnown then (rows, events, unguarded, problems)
        else
          (append_at rows (ct_key t) t,
           (case rows (ct_key t) of
              None \<Rightarrow> append_at events (ct_from t) (ct_event t)
            | Some _ \<Rightarrow> events),
           (if ct_guard t = None \<and> unguarded (ct_key t) = None
            then unguarded(ct_key t \<mapsto> i) else unguarded),
           (case unguarded (ct_key t) of
              None \<Rightarrow> problems
            | Some previous \<Rightarrow>
                problems @ [HiddenRow i (ct_from t) (ct_event t) previous])))"

fun declare_rows ::
    "'s keyops \<Rightarrow> 'e keyops \<Rightarrow> ('s \<rightharpoonup> nat) \<Rightarrow> nat \<Rightarrow> ('s, 'e, 'c, 't, 'w) chart_transition list \<Rightarrow>
      ('s \<times> 'e \<rightharpoonup> ('s, 'e, 'c, 't, 'w) chart_transition list) \<times> ('s \<rightharpoonup> 'e list) \<times>
        ('s \<times> 'e \<rightharpoonup> nat) \<times> ('s, 'e) problem list \<Rightarrow>
      ('s \<times> 'e \<rightharpoonup> ('s, 'e, 'c, 't, 'w) chart_transition list) \<times> ('s \<rightharpoonup> 'e list) \<times>
        ('s \<times> 'e \<rightharpoonup> nat) \<times> ('s, 'e) problem list" where
  "declare_rows K L stateAt i [] st = st"
| "declare_rows K L stateAt i (t # ts) st =
     declare_rows K L stateAt (Suc i) ts (declare_row K L stateAt i t st)"

definition compile_chart ::
    "'s keyops \<Rightarrow> 'e keyops \<Rightarrow> ('s, 'e, 'c, 't, 'w) chart_definition \<Rightarrow>
      ('s, 'e) chart_error + ('s, 'e, 'c, 't, 'w) chart" where
  "compile_chart K L d =
     (if \<not> strict_type K then Inl ChartStateInterface
      else if \<not> strict_type L then Inl ChartEventInterface
      else
        (case declare_states K 0 (df_states d) ([], Map.empty, Map.empty, []) of
           (order, stateAt, actions, problems) \<Rightarrow>
         case declare_parents K stateAt 0 (df_substates d) (Map.empty, Map.empty, problems) of
           (_, parents, problems) \<Rightarrow>
         let problems = problems @ map HierarchyCycle (hierarchyCycles order parents) in
         case declare_initials K stateAt parents 0 (df_initials d) (Map.empty, Map.empty, problems) of
           (_, initials, problems) \<Rightarrow>
         case declare_rows K L stateAt 0 (df_transitions d)
                (Map.empty, Map.empty, Map.empty, problems) of
           (rows, events, _, problems) \<Rightarrow>
             if problems \<noteq> [] then Inl (ChartProblems problems)
             else Inr \<lparr>ch_states = actions, ch_rows = rows, ch_events = events,
                       ch_shape = Some (compileShape K order parents initials),
                       ch_reflexiveEvent = reflexive_type L\<rparr>))"

section \<open>What a definition has to satisfy\<close>

definition state_names :: "('s, 'e, 'c, 't, 'w) chart_definition \<Rightarrow> 's list" where
  "state_names d = map cs_name (df_states d)"

definition parent_map :: "'s substate list \<Rightarrow> ('s \<rightharpoonup> 's)" where
  "parent_map edges = map_of (map (\<lambda>e. (sub_child e, sub_parent e)) edges)"

definition initial_map :: "'s initial list \<Rightarrow> ('s \<rightharpoonup> 's)" where
  "initial_map edges = map_of (map (\<lambda>e. (ini_parent e, ini_child e)) edges)"

definition kind_ok :: "('s, 'e, 'c, 't, 'w) chart_transition \<Rightarrow> bool" where
  "kind_ok t = (case ct_kind t of
      External \<Rightarrow> ct_from t \<noteq> ct_to t
    | OtherKind _ \<Rightarrow> False
    | _ \<Rightarrow> ct_from t = ct_to t)"

definition row_ok ::
    "'e keyops \<Rightarrow> 's set \<Rightarrow> ('s, 'e, 'c, 't, 'w) chart_transition \<Rightarrow> bool" where
  "row_ok L names t \<longleftrightarrow>
     ct_from t \<in> names \<and> ct_to t \<in> names \<and> key_ok L (ct_event t) \<and> kind_ok t"

text \<open>No row comes after an unguarded row of the same From and Event.\<close>

fun no_hidden_row :: "('s, 'e, 'c, 't, 'w) chart_transition list \<Rightarrow> bool" where
  "no_hidden_row [] = True"
| "no_hidden_row (t # ts) \<longleftrightarrow>
     (ct_guard t = None \<longrightarrow> (\<forall>u \<in> set ts. ct_key u \<noteq> ct_key t)) \<and> no_hidden_row ts"

definition good_definition ::
    "'s keyops \<Rightarrow> 'e keyops \<Rightarrow> ('s, 'e, 'c, 't, 'w) chart_definition \<Rightarrow> bool" where
  "good_definition K L d \<longleftrightarrow>
     distinct (state_names d) \<and> (\<forall>s \<in> set (state_names d). key_ok K s) \<and>
     distinct (map sub_child (df_substates d)) \<and>
     (\<forall>e \<in> set (df_substates d). sub_child e \<in> set (state_names d) \<and> sub_parent e \<in> set (state_names d)) \<and>
     (\<forall>s \<in> set (state_names d). rooted (parent_map (df_substates d)) s) \<and>
     distinct (map ini_parent (df_initials d)) \<and>
     (\<forall>e \<in> set (df_initials d). parent_map (df_substates d) (ini_child e) = Some (ini_parent e)) \<and>
     (\<forall>t \<in> set (df_transitions d). row_ok L (set (state_names d)) t) \<and>
     no_hidden_row (df_transitions d)"

definition chart_rows ::
    "('s, 'e, 'c, 't, 'w) chart_transition list \<Rightarrow> 's \<times> 'e \<Rightarrow>
      ('s, 'e, 'c, 't, 'w) chart_transition list" where
  "chart_rows ts k = filter (\<lambda>t. ct_key t = k) ts"

definition chart_events :: "('s, 'e, 'c, 't, 'w) chart_transition list \<Rightarrow> 's \<Rightarrow> 'e list" where
  "chart_events ts s = first_mentions (map ct_event (filter (\<lambda>t. ct_from t = s) ts))"

definition actions_map ::
    "('s, 'e, 'c, 't, 'w) chart_state list \<Rightarrow> ('s \<rightharpoonup> ('s, 'e, 'c, 't, 'w) state_actions)" where
  "actions_map states =
     map_of (map (\<lambda>s. (cs_name s, \<lparr>sa_entry = cs_entry s, sa_exit = cs_exit s\<rparr>)) states)"

definition chart_of ::
    "'s keyops \<Rightarrow> 'e keyops \<Rightarrow> ('s, 'e, 'c, 't, 'w) chart_definition \<Rightarrow>
      ('s, 'e, 'c, 't, 'w) chart" where
  "chart_of K L d =
     \<lparr>ch_states = actions_map (df_states d),
      ch_rows = (\<lambda>k. nonempty (chart_rows (df_transitions d) k)),
      ch_events = (\<lambda>s. nonempty (chart_events (df_transitions d) s)),
      ch_shape = Some (compileShape K (state_names d) (parent_map (df_substates d))
                        (initial_map (df_initials d))),
      ch_reflexiveEvent = reflexive_type L\<rparr>"

section \<open>Compile accepts good definitions and builds their chart\<close>

lemma knownState_known:
  "\<forall>s. states s \<noteq> None \<longrightarrow> key_ok K s \<Longrightarrow>
     fst (knownState K states v field i) = (states v \<noteq> None)"
  "\<forall>s. states s \<noteq> None \<longrightarrow> key_ok K s \<Longrightarrow>
     snd (knownState K states v field i) = [] \<longleftrightarrow> states v \<noteq> None"
  by (auto simp: knownState_def)

lemma actions_map_Cons:
  "cs_name s \<notin> cs_name ` set states \<Longrightarrow>
     actions(cs_name s \<mapsto> \<lparr>sa_entry = cs_entry s, sa_exit = cs_exit s\<rparr>) ++ actions_map states =
     actions ++ actions_map (s # states)"
  by (subst map_add_upd_left) (auto simp: actions_map_def dom_map_of_conv_image_fst)

lemma declare_states_spec:
  assumes "declare_states K i states (order, stateAt, actions, ps) = (order', stateAt', actions', ps')"
  shows "ps' = [] \<longleftrightarrow> ps = [] \<and> distinct (map cs_name states) \<and>
      (\<forall>s \<in> set states. key_ok K (cs_name s) \<and> stateAt (cs_name s) = None)"
    and "ps' = [] \<Longrightarrow> order' = order @ map cs_name states \<and>
      dom stateAt' = dom stateAt \<union> cs_name ` set states \<and> actions' = actions ++ actions_map states"
proof -
  have "(ps' = [] \<longleftrightarrow> ps = [] \<and> distinct (map cs_name states) \<and>
      (\<forall>s \<in> set states. key_ok K (cs_name s) \<and> stateAt (cs_name s) = None)) \<and>
    (ps' = [] \<longrightarrow> order' = order @ map cs_name states \<and>
      dom stateAt' = dom stateAt \<union> cs_name ` set states \<and> actions' = actions ++ actions_map states)"
    using assms
  proof (induction states arbitrary: i order stateAt actions ps)
    case Nil
    then show ?case by (simp add: actions_map_def)
  next
    case (Cons s states)
    let ?new = "\<lparr>sa_entry = cs_entry s, sa_exit = cs_exit s\<rparr>"
    show ?case
    proof (cases "key_ok K (cs_name s) \<and> stateAt (cs_name s) = None")
      case True
      then have run: "declare_states K (Suc i) states (order @ [cs_name s], stateAt(cs_name s \<mapsto> i),
          actions(cs_name s \<mapsto> ?new), ps) = (order', stateAt', actions', ps')"
        using Cons.prems by simp
      have "(ps' = [] \<longleftrightarrow> ps = [] \<and> distinct (map cs_name states) \<and>
          (\<forall>s \<in> set states. key_ok K (cs_name s)) \<and>
          cs_name s \<notin> cs_name ` set states \<and> (\<forall>s \<in> set states. stateAt (cs_name s) = None)) \<and>
        (ps' = [] \<longrightarrow> order' = (order @ [cs_name s]) @ map cs_name states \<and>
          dom stateAt' = insert (cs_name s) (dom stateAt) \<union> cs_name ` set states \<and>
          actions' = actions(cs_name s \<mapsto> ?new) ++ actions_map states)"
        using Cons.IH [OF run] unfolding ball_conj_distrib fresh_upd
        by (auto simp del: fun_upd_apply)
      then show ?thesis using True by (auto simp: actions_map_Cons simp del: fun_upd_apply)
    next
      case False
      then obtain ps1 where "ps1 \<noteq> []"
        "declare_states K (Suc i) states (order, stateAt, actions, ps1) = (order', stateAt', actions', ps')"
      proof (cases "key_ok K (cs_name s)")
        case True
        with False obtain y where "stateAt (cs_name s) = Some y" by auto
        with True Cons.prems that [of "ps @ [DuplicateState i (cs_name s) y]"] show thesis by simp
      next
        case False
        with Cons.prems that [of "ps @ [InvalidName i]"] show thesis by simp
      qed
      with Cons.IH have "ps' \<noteq> []" by blast
      then show ?thesis using False by auto
    qed
  qed
  then show "ps' = [] \<longleftrightarrow> ps = [] \<and> distinct (map cs_name states) \<and>
      (\<forall>s \<in> set states. key_ok K (cs_name s) \<and> stateAt (cs_name s) = None)"
    and "ps' = [] \<Longrightarrow> order' = order @ map cs_name states \<and>
      dom stateAt' = dom stateAt \<union> cs_name ` set states \<and> actions' = actions ++ actions_map states"
    by blast+
qed

definition edge_ok :: "'s set \<Rightarrow> 's substate \<Rightarrow> bool" where
  "edge_ok names e \<longleftrightarrow> sub_child e \<in> names \<and> sub_parent e \<in> names \<and> sub_child e \<noteq> sub_parent e"

lemma parent_map_Cons:
  "sub_child e \<notin> sub_child ` set edges \<Longrightarrow>
     parents(sub_child e \<mapsto> sub_parent e) ++ parent_map edges = parents ++ parent_map (e # edges)"
  by (subst map_add_upd_left) (auto simp: parent_map_def dom_map_of_conv_image_fst)

lemma initial_map_Cons:
  "ini_parent e \<notin> ini_parent ` set edges \<Longrightarrow>
     initials(ini_parent e \<mapsto> ini_child e) ++ initial_map edges = initials ++ initial_map (e # edges)"
  by (subst map_add_upd_left) (auto simp: initial_map_def dom_map_of_conv_image_fst)

lemma declare_parent_step:
  assumes ok: "\<forall>s. stateAt s \<noteq> None \<longrightarrow> key_ok K s"
  shows "edge_ok (dom stateAt) e \<and> parentAt (sub_child e) = None \<Longrightarrow>
      declare_parent K stateAt i e (parentAt, parents, ps) =
        (parentAt(sub_child e \<mapsto> i), parents(sub_child e \<mapsto> sub_parent e), ps)"
    and "\<not> (edge_ok (dom stateAt) e \<and> parentAt (sub_child e) = None) \<Longrightarrow>
      snd (snd (declare_parent K stateAt i e (parentAt, parents, ps))) \<noteq> []"
    and "ps \<noteq> [] \<Longrightarrow> snd (snd (declare_parent K stateAt i e (parentAt, parents, ps))) \<noteq> []"
proof -
  have known: "key_ok K s" if "stateAt s = Some v" for s v using ok that by simp
  show "edge_ok (dom stateAt) e \<and> parentAt (sub_child e) = None \<Longrightarrow>
      declare_parent K stateAt i e (parentAt, parents, ps) =
        (parentAt(sub_child e \<mapsto> i), parents(sub_child e \<mapsto> sub_parent e), ps)"
    by (auto simp: declare_parent_def edge_ok_def knownState_def go_same_def go_put_def known)
  show "\<not> (edge_ok (dom stateAt) e \<and> parentAt (sub_child e) = None) \<Longrightarrow>
      snd (snd (declare_parent K stateAt i e (parentAt, parents, ps))) \<noteq> []"
    by (cases "stateAt (sub_child e)"; cases "stateAt (sub_parent e)";
        cases "parentAt (sub_child e)")
       (auto simp: declare_parent_def edge_ok_def knownState_def go_same_def known dom_def)
  show "ps \<noteq> [] \<Longrightarrow> snd (snd (declare_parent K stateAt i e (parentAt, parents, ps))) \<noteq> []"
    by (auto simp: declare_parent_def Let_def case_prod_beta split: option.split)
qed

lemma declare_parents_problems:
  assumes ok: "\<forall>s. stateAt s \<noteq> None \<longrightarrow> key_ok K s"
  shows "snd (snd st) \<noteq> [] \<Longrightarrow> snd (snd (declare_parents K stateAt i edges st)) \<noteq> []"
proof (induction edges arbitrary: i st)
  case (Cons e edges)
  show ?case
    unfolding declare_parents.simps
    by (rule Cons.IH) (use Cons.prems in \<open>cases st, simp add: declare_parent_step(3) [OF ok]\<close>)
qed simp

lemma declare_parents_spec:
  assumes ok: "\<forall>s. stateAt s \<noteq> None \<longrightarrow> key_ok K s"
    and "declare_parents K stateAt i edges (parentAt, parents, ps) = (parentAt', parents', ps')"
  shows "(ps' = [] \<longleftrightarrow> ps = [] \<and> (\<forall>e \<in> set edges. edge_ok (dom stateAt) e) \<and>
      distinct (map sub_child edges) \<and> (\<forall>e \<in> set edges. parentAt (sub_child e) = None)) \<and>
    (ps' = [] \<longrightarrow> parents' = parents ++ parent_map edges)"
  using assms(2)
proof (induction edges arbitrary: i parentAt parents ps)
  case Nil
  then show ?case by (simp add: parent_map_def)
next
  case (Cons e edges)
  show ?case
  proof (cases "edge_ok (dom stateAt) e \<and> parentAt (sub_child e) = None")
    case True
    then have run: "declare_parents K stateAt (Suc i) edges
        (parentAt(sub_child e \<mapsto> i), parents(sub_child e \<mapsto> sub_parent e), ps) = (parentAt', parents', ps')"
      using Cons.prems by (simp add: declare_parent_step(1) [OF ok])
    show ?thesis using Cons.IH [OF run] True unfolding fresh_upd
      by (auto simp: parent_map_Cons simp del: fun_upd_apply)
  next
    case False
    have "snd (snd (declare_parents K stateAt (Suc i) edges
        (declare_parent K stateAt i e (parentAt, parents, ps)))) \<noteq> []"
      by (rule declare_parents_problems [OF ok]) (rule declare_parent_step(2) [OF ok], rule False)
    then show ?thesis using Cons.prems False by auto
  qed
qed

definition initial_ok :: "'s set \<Rightarrow> ('s \<rightharpoonup> 's) \<Rightarrow> 's initial \<Rightarrow> bool" where
  "initial_ok names parents e \<longleftrightarrow>
     ini_parent e \<in> names \<and> ini_child e \<in> names \<and> parents (ini_child e) = Some (ini_parent e)"

lemma declare_initial_step:
  assumes ok: "\<forall>s. stateAt s \<noteq> None \<longrightarrow> key_ok K s"
  shows "initial_ok (dom stateAt) parents e \<and> initialAt (ini_parent e) = None \<Longrightarrow>
      declare_initial K stateAt parents i e (initialAt, initials, ps) =
        (initialAt(ini_parent e \<mapsto> i), initials(ini_parent e \<mapsto> ini_child e), ps)"
    and "\<not> (initial_ok (dom stateAt) parents e \<and> initialAt (ini_parent e) = None) \<Longrightarrow>
      snd (snd (declare_initial K stateAt parents i e (initialAt, initials, ps))) \<noteq> []"
    and "ps \<noteq> [] \<Longrightarrow> snd (snd (declare_initial K stateAt parents i e (initialAt, initials, ps))) \<noteq> []"
proof -
  have known: "key_ok K s" if "stateAt s = Some v" for s v using ok that by simp
  show "initial_ok (dom stateAt) parents e \<and> initialAt (ini_parent e) = None \<Longrightarrow>
      declare_initial K stateAt parents i e (initialAt, initials, ps) =
        (initialAt(ini_parent e \<mapsto> i), initials(ini_parent e \<mapsto> ini_child e), ps)"
    by (auto simp: declare_initial_def initial_ok_def knownState_def go_put_def known)
  show "\<not> (initial_ok (dom stateAt) parents e \<and> initialAt (ini_parent e) = None) \<Longrightarrow>
      snd (snd (declare_initial K stateAt parents i e (initialAt, initials, ps))) \<noteq> []"
    by (cases "stateAt (ini_child e)"; cases "stateAt (ini_parent e)";
        cases "initialAt (ini_parent e)")
       (auto simp: declare_initial_def initial_ok_def knownState_def known dom_def)
  show "ps \<noteq> [] \<Longrightarrow> snd (snd (declare_initial K stateAt parents i e (initialAt, initials, ps))) \<noteq> []"
    by (auto simp: declare_initial_def Let_def case_prod_beta split: option.split)
qed

lemma declare_initials_problems:
  assumes ok: "\<forall>s. stateAt s \<noteq> None \<longrightarrow> key_ok K s"
  shows "snd (snd st) \<noteq> [] \<Longrightarrow> snd (snd (declare_initials K stateAt parents i edges st)) \<noteq> []"
proof (induction edges arbitrary: i st)
  case (Cons e edges)
  show ?case
    unfolding declare_initials.simps
    by (rule Cons.IH) (use Cons.prems in \<open>cases st, simp add: declare_initial_step(3) [OF ok]\<close>)
qed simp

lemma declare_initials_spec:
  assumes ok: "\<forall>s. stateAt s \<noteq> None \<longrightarrow> key_ok K s"
    and "declare_initials K stateAt parents i edges (initialAt, initials, ps) = (initialAt', initials', ps')"
  shows "(ps' = [] \<longleftrightarrow> ps = [] \<and> (\<forall>e \<in> set edges. initial_ok (dom stateAt) parents e) \<and>
      distinct (map ini_parent edges) \<and> (\<forall>e \<in> set edges. initialAt (ini_parent e) = None)) \<and>
    (ps' = [] \<longrightarrow> initials' = initials ++ initial_map edges)"
  using assms(2)
proof (induction edges arbitrary: i initialAt initials ps)
  case Nil
  then show ?case by (simp add: initial_map_def)
next
  case (Cons e edges)
  show ?case
  proof (cases "initial_ok (dom stateAt) parents e \<and> initialAt (ini_parent e) = None")
    case True
    then have run: "declare_initials K stateAt parents (Suc i) edges
        (initialAt(ini_parent e \<mapsto> i), initials(ini_parent e \<mapsto> ini_child e), ps) =
        (initialAt', initials', ps')"
      using Cons.prems by (simp add: declare_initial_step(1) [OF ok])
    show ?thesis using Cons.IH [OF run] True unfolding fresh_upd
      by (auto simp: initial_map_Cons simp del: fun_upd_apply)
  next
    case False
    have "snd (snd (declare_initials K stateAt parents (Suc i) edges
        (declare_initial K stateAt parents i e (initialAt, initials, ps)))) \<noteq> []"
      by (rule declare_initials_problems [OF ok]) (rule declare_initial_step(2) [OF ok], rule False)
    then show ?thesis using Cons.prems False by auto
  qed
qed

text \<open>The row maps after the rows \<open>seen\<close> have been read, and the keys with an unguarded row.\<close>

definition unguarded_keys ::
    "('s, 'e, 'c, 't, 'w) chart_transition list \<Rightarrow> ('s \<times> 'e \<rightharpoonup> nat) \<Rightarrow> bool" where
  "unguarded_keys seen ug \<longleftrightarrow>
     (\<forall>k. ug k \<noteq> None \<longleftrightarrow> (\<exists>t \<in> set seen. ct_key t = k \<and> ct_guard t = None))"

lemma chart_rows_snoc:
  "append_at (\<lambda>k. nonempty (chart_rows seen k)) (ct_key t) t =
     (\<lambda>k. nonempty (chart_rows (seen @ [t]) k))"
  by (rule ext) (auto simp: append_at_def chart_rows_def nonempty_def slice_def)

lemma chart_events_snoc:
  "(case nonempty (chart_rows seen (ct_key t)) of
      None \<Rightarrow> append_at (\<lambda>s. nonempty (chart_events seen s)) (ct_from t) (ct_event t)
    | Some _ \<Rightarrow> (\<lambda>s. nonempty (chart_events seen s))) =
     (\<lambda>s. nonempty (chart_events (seen @ [t]) s))"
proof -
  have "chart_events (seen @ [t]) s =
      (if ct_from t = s \<and> chart_rows seen (ct_key t) = []
       then chart_events seen s @ [ct_event t] else chart_events seen s)" for s
    by (auto simp: chart_events_def chart_rows_def ct_key_def first_mentions_snoc
        filter_empty_conv image_iff)
  then show ?thesis
    by (intro ext) (auto simp: append_at_def nonempty_def slice_def split: option.splits if_splits)
qed

definition row_fits ::
    "'s keyops \<Rightarrow> 'e keyops \<Rightarrow> ('s \<rightharpoonup> nat) \<Rightarrow> ('s \<times> 'e \<rightharpoonup> nat) \<Rightarrow>
      ('s, 'e, 'c, 't, 'w) chart_transition \<Rightarrow> bool" where
  "row_fits K L stateAt ug t \<longleftrightarrow> row_ok L (dom stateAt) t \<and> ug (ct_key t) = None"

lemma kind_problems_ok:
  "key_ok K (ct_from t) \<Longrightarrow> kind_problems K i t = [] \<longleftrightarrow> kind_ok t"
  by (auto simp: kind_problems_def kind_ok_def go_same_def split: kind.split)

lemma declare_row_step:
  assumes ok: "\<forall>s. stateAt s \<noteq> None \<longrightarrow> key_ok K s"
  shows "row_fits K L stateAt ug t \<Longrightarrow>
      declare_row K L stateAt i t (rows, events, ug, ps) =
        (append_at rows (ct_key t) t,
         (case rows (ct_key t) of
            None \<Rightarrow> append_at events (ct_from t) (ct_event t) | Some _ \<Rightarrow> events),
         (if ct_guard t = None then ug(ct_key t \<mapsto> i) else ug), ps)"
    and "\<not> row_fits K L stateAt ug t \<Longrightarrow>
      snd (snd (snd (declare_row K L stateAt i t (rows, events, ug, ps)))) \<noteq> []"
    and "ps \<noteq> [] \<Longrightarrow> snd (snd (snd (declare_row K L stateAt i t (rows, events, ug, ps)))) \<noteq> []"
proof -
  have known: "key_ok K s" if "stateAt s = Some v" for s v using ok that by simp
  show "row_fits K L stateAt ug t \<Longrightarrow>
      declare_row K L stateAt i t (rows, events, ug, ps) =
        (append_at rows (ct_key t) t,
         (case rows (ct_key t) of
            None \<Rightarrow> append_at events (ct_from t) (ct_event t) | Some _ \<Rightarrow> events),
         (if ct_guard t = None then ug(ct_key t \<mapsto> i) else ug), ps)"
    by (auto simp: declare_row_def row_fits_def row_ok_def knownState_def known
        kind_problems_ok [THEN iffD2])
  show "\<not> row_fits K L stateAt ug t \<Longrightarrow>
      snd (snd (snd (declare_row K L stateAt i t (rows, events, ug, ps)))) \<noteq> []"
    by (cases "stateAt (ct_from t)"; cases "stateAt (ct_to t)"; cases "ug (ct_key t)")
       (auto simp: declare_row_def row_fits_def row_ok_def knownState_def known dom_def
        kind_problems_ok Let_def)
  show "ps \<noteq> [] \<Longrightarrow> snd (snd (snd (declare_row K L stateAt i t (rows, events, ug, ps)))) \<noteq> []"
    by (auto simp: declare_row_def Let_def case_prod_beta split: option.split)
qed

lemma declare_rows_problems:
  assumes ok: "\<forall>s. stateAt s \<noteq> None \<longrightarrow> key_ok K s"
  shows "snd (snd (snd st)) \<noteq> [] \<Longrightarrow> snd (snd (snd (declare_rows K L stateAt i ts st))) \<noteq> []"
proof (induction ts arbitrary: i st)
  case (Cons t ts)
  show ?case
    unfolding declare_rows.simps
    by (rule Cons.IH) (use Cons.prems in \<open>cases st, simp add: declare_row_step(3) [OF ok]\<close>)
qed simp

definition rows_good ::
    "'e keyops \<Rightarrow> 's set \<Rightarrow> ('s, 'e, 'c, 't, 'w) chart_transition list \<Rightarrow>
      ('s, 'e, 'c, 't, 'w) chart_transition list \<Rightarrow> bool" where
  "rows_good L names seen ts \<longleftrightarrow>
     (\<forall>t \<in> set ts. row_ok L names t) \<and> no_hidden_row ts \<and>
     (\<forall>t \<in> set ts. \<forall>u \<in> set seen. ct_guard u = None \<longrightarrow> ct_key u \<noteq> ct_key t)"

lemma rows_good_Cons:
  "rows_good L names seen (t # ts) \<longleftrightarrow>
     row_ok L names t \<and> (\<forall>u \<in> set seen. ct_guard u = None \<longrightarrow> ct_key u \<noteq> ct_key t) \<and>
     rows_good L names (seen @ [t]) ts"
  by (auto simp: rows_good_def)

lemma declare_rows_spec:
  assumes ok: "\<forall>s. stateAt s \<noteq> None \<longrightarrow> key_ok K s"
    and "unguarded_keys seen ug"
    and "declare_rows K L stateAt i ts (\<lambda>k. nonempty (chart_rows seen k),
       \<lambda>s. nonempty (chart_events seen s), ug, ps) = (rows', events', ug', ps')"
  shows "(ps' = [] \<longleftrightarrow> ps = [] \<and> rows_good L (dom stateAt) seen ts) \<and>
    (ps' = [] \<longrightarrow> rows' = (\<lambda>k. nonempty (chart_rows (seen @ ts) k)) \<and>
       events' = (\<lambda>s. nonempty (chart_events (seen @ ts) s)))"
  using assms(2,3)
proof (induction ts arbitrary: i seen ug ps)
  case Nil
  then show ?case by (simp add: rows_good_def)
next
  case (Cons t ts)
  have free: "ug (ct_key t) = None \<longleftrightarrow> (\<forall>u \<in> set seen. ct_guard u = None \<longrightarrow> ct_key u \<noteq> ct_key t)"
    using Cons.prems(1) unfolding unguarded_keys_def by metis
  show ?case
  proof (cases "row_fits K L stateAt ug t")
    case True
    then have "declare_rows K L stateAt (Suc i) ts (\<lambda>k. nonempty (chart_rows (seen @ [t]) k),
       \<lambda>s. nonempty (chart_events (seen @ [t]) s),
       if ct_guard t = None then ug(ct_key t \<mapsto> i) else ug, ps) = (rows', events', ug', ps')"
      using Cons.prems(2) by (simp add: declare_row_step(1) [OF ok] chart_rows_snoc chart_events_snoc)
    moreover have "unguarded_keys (seen @ [t]) (if ct_guard t = None then ug(ct_key t \<mapsto> i) else ug)"
      using Cons.prems(1) by (auto simp: unguarded_keys_def)
    ultimately have "(ps' = [] \<longleftrightarrow> ps = [] \<and> rows_good L (dom stateAt) (seen @ [t]) ts) \<and>
        (ps' = [] \<longrightarrow> rows' = (\<lambda>k. nonempty (chart_rows ((seen @ [t]) @ ts) k)) \<and>
           events' = (\<lambda>s. nonempty (chart_events ((seen @ [t]) @ ts) s)))"
      by (intro Cons.IH)
    then show ?thesis using True free by (auto simp: rows_good_Cons row_fits_def)
  next
    case False
    have "snd (snd (snd (declare_rows K L stateAt (Suc i) ts
        (declare_row K L stateAt i t (\<lambda>k. nonempty (chart_rows seen k),
           \<lambda>s. nonempty (chart_events seen s), ug, ps))))) \<noteq> []"
      by (rule declare_rows_problems [OF ok]) (rule declare_row_step(2) [OF ok], rule False)
    then show ?thesis using Cons.prems False free by (auto simp: rows_good_Cons row_fits_def)
  qed
qed

text \<open>The hierarchy of a good definition.\<close>

lemma parent_map_Some:
  "parent_map edges s = Some p \<Longrightarrow> \<exists>e \<in> set edges. sub_child e = s \<and> sub_parent e = p"
  by (auto simp: parent_map_def dest!: map_of_SomeD)

lemma parent_map_mem:
  "distinct (map sub_child edges) \<Longrightarrow> e \<in> set edges \<Longrightarrow>
     parent_map edges (sub_child e) = Some (sub_parent e)"
  by (auto simp: parent_map_def intro!: map_of_is_SomeI simp: comp_def)

lemma initial_map_Some:
  "initial_map edges s = Some c \<Longrightarrow> \<exists>e \<in> set edges. ini_parent e = s \<and> ini_child e = c"
  by (auto simp: initial_map_def dest!: map_of_SomeD)

lemma not_self_parent: "rooted p s \<Longrightarrow> p s \<noteq> Some s"
proof
  assume "rooted p s" "p s = Some s"
  then obtain l where l: "lineage p s l" by blast
  from lineage_parent [OF l \<open>p s = Some s\<close>] obtain r where "l = s # r" "lineage p s r" by blast
  then show False using lineage_unique [OF l] by fastforce
qed

lemma good_definition_hierarchy:
  assumes "good_definition K L d"
  shows "hierarchy_ok (state_names d) (parent_map (df_substates d)) (initial_map (df_initials d))"
  using assms
  by (auto simp: good_definition_def hierarchy_ok_def dest!: parent_map_Some initial_map_Some)

lemma stage_cycles:
  assumes "\<forall>e \<in> set edges. edge_ok (set order) e"
  shows "hierarchyCycles order (parent_map edges) = [] \<longleftrightarrow>
     (\<forall>s \<in> set order. rooted (parent_map edges) s)"
proof -
  have "\<forall>s t. parent_map edges s = Some t \<longrightarrow> t \<in> set order"
    using assms by (auto simp: edge_ok_def dest!: parent_map_Some)
  then show ?thesis using hierarchyCycles_result by blast
qed

lemma declare_states_keys:
  "declare_states K i states (order, stateAt, actions, ps) = (order', stateAt', actions', ps') \<Longrightarrow>
     \<forall>s. stateAt s \<noteq> None \<longrightarrow> key_ok K s \<Longrightarrow> \<forall>s. stateAt' s \<noteq> None \<longrightarrow> key_ok K s"
proof (induction states arbitrary: i order stateAt actions ps)
  case (Cons s states)
  obtain order1 stateAt1 actions1 ps1 where
    run: "declare_states K (Suc i) states (order1, stateAt1, actions1, ps1) =
      (order', stateAt', actions', ps')"
    and at: "stateAt1 = (if key_ok K (cs_name s) \<and> stateAt (cs_name s) = None
      then stateAt(cs_name s \<mapsto> i) else stateAt)"
  proof (cases "key_ok K (cs_name s)")
    case True
    with Cons.prems(1) that show thesis by (cases "stateAt (cs_name s)") auto
  next
    case False
    with Cons.prems(1) that show thesis by auto
  qed
  show ?case by (rule Cons.IH [OF run]) (use Cons.prems(2) at in auto)
qed simp

lemma compile_chart_result:
  assumes "strict_type K" "strict_type L"
  shows "(case compile_chart K L d of
      Inl e \<Rightarrow> \<not> good_definition K L d \<and> (\<exists>ps. e = ChartProblems ps \<and> ps \<noteq> [])
    | Inr c \<Rightarrow> good_definition K L d \<and> c = chart_of K L d)"
proof -
  let ?names = "state_names d" and ?subs = "df_substates d" and ?inis = "df_initials d"
  obtain order stateAt actions p1 where 1:
    "declare_states K 0 (df_states d) ([], Map.empty, Map.empty, []) = (order, stateAt, actions, p1)"
    by (metis prod_cases4)
  obtain pa parents p2 where 2:
    "declare_parents K stateAt 0 ?subs (Map.empty, Map.empty, p1) = (pa, parents, p2)"
    by (metis prod_cases3)
  define p3 where "p3 = p2 @ map HierarchyCycle (hierarchyCycles order parents)"
  obtain ia initials p4 where 3:
    "declare_initials K stateAt parents 0 ?inis (Map.empty, Map.empty, p3) = (ia, initials, p4)"
    by (metis prod_cases3)
  obtain rows events ug p5 where 4:
    "declare_rows K L stateAt 0 (df_transitions d) (Map.empty, Map.empty, Map.empty, p4) =
      (rows, events, ug, p5)" by (metis prod_cases4)
  have result: "compile_chart K L d =
      (if p5 \<noteq> [] then Inl (ChartProblems p5)
       else Inr \<lparr>ch_states = actions, ch_rows = rows, ch_events = events,
                 ch_shape = Some (compileShape K order parents initials),
                 ch_reflexiveEvent = reflexive_type L\<rparr>)"
    using assms 1 2 3 4 by (simp add: compile_chart_def p3_def)
  have keys: "\<forall>s. stateAt s \<noteq> None \<longrightarrow> key_ok K s"
    by (rule declare_states_keys [OF 1]) simp
  have empty: "(\<lambda>k. nonempty (chart_rows [] k)) = Map.empty" "(\<lambda>s. nonempty (chart_events [] s)) = Map.empty"
    "unguarded_keys [] Map.empty"
    by (auto simp: nonempty_def chart_rows_def chart_events_def unguarded_keys_def)
  have S4: "(p5 = [] \<longleftrightarrow> p4 = [] \<and> rows_good L (dom stateAt) [] (df_transitions d)) \<and>
      (p5 = [] \<longrightarrow> rows = (\<lambda>k. nonempty (chart_rows ([] @ df_transitions d) k)) \<and>
         events = (\<lambda>s. nonempty (chart_events ([] @ df_transitions d) s)))"
    by (rule declare_rows_spec [where i = 0 and ug' = ug, OF keys empty(3)]) (simp only: empty 4)
  note S3 = declare_initials_spec [OF keys 3] and S2 = declare_parents_spec [OF keys 2]
    and S1 = declare_states_spec [OF 1]
  have good: "p5 = [] \<longleftrightarrow> good_definition K L d"
  proof (cases "p1 = [] \<and> p2 = []")
    case True
    then have names: "order = ?names" "dom stateAt = set ?names" "distinct ?names"
      "\<forall>s \<in> set ?names. key_ok K s"
      using S1 by (auto simp: state_names_def)
    have edges: "\<forall>e \<in> set ?subs. edge_ok (set order) e" "distinct (map sub_child ?subs)"
      "parents = parent_map ?subs"
      using S2 True by (simp_all add: names)
    have "p3 = [] \<longleftrightarrow> (\<forall>s \<in> set ?names. rooted (parent_map ?subs) s)"
      using True stage_cycles [OF edges(1)] edges(3) by (simp add: p3_def names(1))
    moreover have "(\<forall>e \<in> set ?inis. initial_ok (dom stateAt) parents e) \<longleftrightarrow>
        (\<forall>e \<in> set ?inis. parent_map ?subs (ini_child e) = Some (ini_parent e))"
      using edges names by (force simp: initial_ok_def edge_ok_def dest: parent_map_Some)
    ultimately have "p4 = [] \<longleftrightarrow> (\<forall>s \<in> set ?names. rooted (parent_map ?subs) s) \<and>
        distinct (map ini_parent ?inis) \<and>
        (\<forall>e \<in> set ?inis. parent_map ?subs (ini_child e) = Some (ini_parent e))"
      using S3 by auto
    then show ?thesis
      using S4 names edges by (auto simp: good_definition_def rows_good_def edge_ok_def)
  next
    case False
    then have "p2 \<noteq> []" using S2 by blast
    then have "p5 \<noteq> []" using S3 S4 by (simp add: p3_def)
    moreover have "\<not> good_definition K L d"
    proof
      assume g: "good_definition K L d"
      then have "p1 = []" using S1 by (auto simp: good_definition_def state_names_def)
      then have "dom stateAt = set ?names" using S1 by (auto simp: state_names_def)
      moreover have "edge_ok (set ?names) e" if "e \<in> set ?subs" for e
      proof -
        have "parent_map ?subs (sub_child e) = Some (sub_parent e)"
          by (rule parent_map_mem [OF _ that]) (use g in \<open>simp add: good_definition_def\<close>)
        then show ?thesis
          using g that not_self_parent [of "parent_map ?subs" "sub_child e"]
          by (auto simp: good_definition_def edge_ok_def)
      qed
      ultimately show False using S2 \<open>p1 = []\<close> \<open>p2 \<noteq> []\<close> g by (auto simp: good_definition_def)
    qed
    ultimately show ?thesis by simp
  qed
  have "\<lparr>ch_states = actions, ch_rows = rows, ch_events = events,
         ch_shape = Some (compileShape K order parents initials),
         ch_reflexiveEvent = reflexive_type L\<rparr> = chart_of K L d" if "p5 = []"
  proof -
    have "p4 = []" using S4 that by blast
    then have "p3 = []" using S3 by blast
    then have "p2 = []" by (simp add: p3_def)
    then have "p1 = []" using S2 by blast
    then show ?thesis
      using S1 S2 S3 S4 that \<open>p4 = []\<close> \<open>p2 = []\<close> by (simp add: chart_of_def state_names_def)
  qed
  then show ?thesis using result good by (auto simp: Let_def)
qed

end
