(* ===== verification/Chart_Runs.thy ===== *)
theory Chart_Runs
  imports Chart
begin

text \<open>
  What a compiled statechart does, stated over the definition's lineages and rows: which row is
  selected, which lifecycle actions run and in what order, what is committed, what \<open>Permitted\<close> and
  \<open>Arrows\<close> report. The properties are at the end, with a small chart for their witnesses.
\<close>

section \<open>Charts of good definitions\<close>

abbreviation parents_of :: "('s, 'e, 'c, 't, 'w) chart_definition \<Rightarrow> ('s \<rightharpoonup> 's)" where
  "parents_of d \<equiv> parent_map (df_substates d)"

abbreviation initials_of :: "('s, 'e, 'c, 't, 'w) chart_definition \<Rightarrow> ('s \<rightharpoonup> 's)" where
  "initials_of d \<equiv> initial_map (df_initials d)"

definition shape_of :: "'s keyops \<Rightarrow> ('s, 'e, 'c, 't, 'w) chart_definition \<Rightarrow> 's shape" where
  "shape_of K d = compileShape K (state_names d) (parents_of d) (initials_of d)"

lemma shape_of_compiled:
  "good_definition K L d \<Longrightarrow> compiled (shape_of K d) (state_names d) (parents_of d) (initials_of d)"
  by (simp add: shape_of_def compileShape_compiled good_definition_hierarchy)

lemma chart_of_simps [simp]:
  "ch_shape (chart_of K L d) = Some (shape_of K d)"
  "slice (ch_rows (chart_of K L d)) k = chart_rows (df_transitions d) k"
  "slice (ch_events (chart_of K L d)) s = chart_events (df_transitions d) s"
  "ch_reflexiveEvent (chart_of K L d) = reflexive_type L"
  by (simp_all add: chart_of_def shape_of_def)

lemma stateIndex_known:
  assumes "good_definition K L d"
  shows "stateIndex K (Some (shape_of K d)) s =
     (if s \<in> set (state_names d) then Some (index_of (sh_index (shape_of K d)) s) else None)"
proof -
  note c = shape_of_compiled [OF assms]
  have "key_ok K s" if "s \<in> set (state_names d)"
    using assms that by (auto simp: good_definition_def)
  then show ?thesis
    using compiled_index(3) [OF c] compiled_index_None [OF c] by (auto simp: stateIndex_def)
qed

lemma destination_chain:
  assumes "good_definition K L d" "s \<in> set (state_names d)"
  shows "chain (initials_of d) s (destination (shape_of K d) s)"
    "destination (shape_of K d) s \<in> set (state_names d)"
proof -
  note c = shape_of_compiled [OF assms(1)]
  note I = compiled_index [OF c assms(2)]
  let ?j = "nd_destination (sh_nodes (shape_of K d) ! index_of (sh_index (shape_of K d)) s)"
  have "?j < length (state_names d)" "chain (initials_of d) s (state_names d ! ?j)"
    using c I by (auto simp: compiled_def shape_ok_def)
  then show "chain (initials_of d) s (destination (shape_of K d) s)"
    "destination (shape_of K d) s \<in> set (state_names d)"
    by (simp_all add: destination_def compiled_state [OF c])
qed

section \<open>Selection over the lineage\<close>

text \<open>The rows selection tries, in order, each with the state that declares it.\<close>

definition lineage_rows ::
    "('s, 'e, 'c, 't, 'w) chart_transition list \<Rightarrow> 's list \<Rightarrow> 'e \<Rightarrow>
      ('s \<times> ('s, 'e, 'c, 't, 'w) chart_transition) list" where
  "lineage_rows ts l event = concat (map (\<lambda>s. map (Pair s) (chart_rows ts (s, event))) l)"

definition row_declines ::
    "'s shape \<Rightarrow> 'c \<Rightarrow> 's \<Rightarrow> 'e \<Rightarrow> 't \<Rightarrow> 'w \<Rightarrow> 's \<times> ('s, 'e, 'c, 't, 'w) chart_transition \<Rightarrow>
      ('s, 'e) err option" where
  "row_declines h ctx source event data w r =
     (case ct_guard (snd r) of
        None \<Rightarrow> None
      | Some g \<Rightarrow>
          (case g ctx (row_info h source (fst r) event (snd r)) data w of
             (_, Ret e) \<Rightarrow> e | _ \<Rightarrow> None))"

definition pure_rows :: "'c \<Rightarrow> 't \<Rightarrow> ('s, 'e, 'c, 't, 'w) chart_transition list \<Rightarrow> bool" where
  "pure_rows ctx data ts \<longleftrightarrow>
     (\<forall>t \<in> set ts. case ct_guard t of None \<Rightarrow> True | Some g \<Rightarrow> \<forall>info. pure_act (g ctx info data))"

definition pick ::
    "'s shape \<Rightarrow> 'c \<Rightarrow> 's \<Rightarrow> 'e \<Rightarrow> 't \<Rightarrow> 'w \<Rightarrow> ('s, 'e) err list \<Rightarrow>
      ('s \<times> ('s, 'e, 'c, 't, 'w) chart_transition) list \<Rightarrow>
      ('s, 'e) err list + ('s, 'e, 'c, 't, 'w) chart_transition \<times> ('s, 'e) info" where
  "pick h ctx source event data w reasons rows =
     (case find (\<lambda>r. row_declines h ctx source event data w r = None) rows of
        Some (handler, t) \<Rightarrow> Inr (t, row_info h source handler event t)
      | None \<Rightarrow> Inl (reasons @ present (map (row_declines h ctx source event data w) rows)))"

lemma pick_Nil [simp]: "pick h ctx source event data w reasons [] = Inl reasons"
  by (simp add: pick_def)

lemma pick_Cons:
  "pick h ctx source event data w reasons ((handler, t) # rows) =
     (case row_declines h ctx source event data w (handler, t) of
        None \<Rightarrow> Inr (t, row_info h source handler event t)
      | Some e \<Rightarrow> pick h ctx source event data w (reasons @ [e]) rows)"
  by (simp add: pick_def split: option.splits)

lemma pick_append:
  "pick h ctx source event data w reasons (xs @ ys) =
     (case pick h ctx source event data w reasons xs of
        Inr sel \<Rightarrow> Inr sel
      | Inl reasons' \<Rightarrow> pick h ctx source event data w reasons' ys)"
proof (induction xs arbitrary: reasons)
  case (Cons r xs)
  then show ?case by (cases r) (auto simp: pick_Cons split: option.splits)
qed simp

lemma try_chart_rows_pure:
  assumes "pure_rows ctx data rows"
  shows "try_chart_rows h ctx source handler event data rows reasons w =
     (w, Ret (pick h ctx source event data w reasons (map (Pair handler) rows)))"
  using assms
proof (induction rows arbitrary: reasons)
  case (Cons t rows)
  have IH: "try_chart_rows h ctx source handler event data rows reasons w =
      (w, Ret (pick h ctx source event data w reasons (map (Pair handler) rows)))" for reasons
    by (rule Cons.IH) (use Cons.prems in \<open>simp add: pure_rows_def\<close>)
  show ?case
  proof (cases "ct_guard t")
    case None
    then show ?thesis by (simp add: pick_Cons row_declines_def act_simps)
  next
    case (Some g)
    then have "pure_act (g ctx (row_info h source handler event t) data)"
      using Cons.prems by (simp add: pure_rows_def)
    then obtain e where "g ctx (row_info h source handler event t) data w = (w, Ret e)"
      by (rule pure_actE)
    then show ?thesis
      using Some by (auto simp: pick_Cons row_declines_def act_simps Let_def IH split: option.splits)
  qed
qed (simp add: act_simps)

lemma pure_rows_subset: "pure_rows ctx data ts \<Longrightarrow> pure_rows ctx data (chart_rows ts k)"
  by (simp add: pure_rows_def chart_rows_def)

lemma select_from_pure:
  assumes g: "good_definition K L d" and p: "pure_rows ctx data (df_transitions d)"
  shows "lineage (parents_of d) s l \<Longrightarrow> s \<in> set (state_names d) \<Longrightarrow> length l \<le> fuel \<Longrightarrow>
     select_from fuel (chart_of K L d) (shape_of K d) ctx source event data
       (Some (index_of (sh_index (shape_of K d)) s)) reasons w =
     (w, Ret (pick (shape_of K d) ctx source event data w reasons
                (lineage_rows (df_transitions d) l event)))"
proof (induction arbitrary: fuel reasons rule: lineage.induct)
  case (root s)
  note c = shape_of_compiled [OF g]
  have stop: "select_from m c' h ctx source event data None reasons w = (w, Ret (Inl reasons))"
    for m c' h reasons by (cases m) (auto simp: act_simps)
  from root.prems(2) obtain m where "fuel = Suc m" by (cases fuel) auto
  then show ?case
    using compiled_state_parent [OF c root.prems(1)] compiled_index [OF c root.prems(1)]
      try_chart_rows_pure [OF pure_rows_subset [OF p]] root.hyps
    by (simp add: compiled_state [OF c] lineage_rows_def Let_def bindA_def ret_def stop
        split: sum.split)
next
  case (up s q l)
  note c = shape_of_compiled [OF g]
  have q: "q \<in> set (state_names d)"
    using compiled_hierarchy [OF c] up.hyps(1) by (auto simp: hierarchy_ok_def)
  from up.prems(2) obtain m where m: "fuel = Suc m" "length l \<le> m" by (cases fuel) auto
  note IH = up.IH [OF q m(2)]
  show ?case
    using compiled_state_parent [OF c up.prems(1)] compiled_index [OF c up.prems(1)]
      try_chart_rows_pure [OF pure_rows_subset [OF p]] up.hyps(1) IH
    by (simp add: compiled_state [OF c] lineage_rows_def Let_def bindA_def ret_def m(1)
        pick_append split: sum.split)
qed

lemma select_pure:
  assumes g: "good_definition K L d" and p: "pure_rows ctx data (df_transitions d)"
    and s: "source \<in> set (state_names d)" and l: "lineage (parents_of d) source l"
  shows "chart_selectTransition (chart_of K L d) ctx source event data w =
     (w, Ret (pick (shape_of K d) ctx source event data w []
                (lineage_rows (df_transitions d) l event)))"
  using select_from_pure [OF g p l s compiled_lineage_length [OF shape_of_compiled [OF g] s l]]
  by (simp add: chart_selectTransition_def)

section \<open>Permitted and Arrows over the lineage\<close>

text \<open>The elements of a list that are not in \<open>seen\<close>, each once, in order of first occurrence.\<close>

fun new_mentions :: "'a list \<Rightarrow> 'a list \<Rightarrow> 'a list" where
  "new_mentions seen [] = []"
| "new_mentions seen (x # xs) =
     (if x \<in> set seen then new_mentions seen xs else x # new_mentions (seen @ [x]) xs)"

lemma new_mentions_append:
  "new_mentions seen (xs @ ys) = new_mentions seen xs @ new_mentions (seen @ new_mentions seen xs) ys"
  by (induction xs arbitrary: seen) auto

lemma set_new_mentions: "set (new_mentions seen xs) = set xs - set seen"
  by (induction xs arbitrary: seen) auto

lemma distinct_new_mentions: "distinct (new_mentions seen xs)"
  by (induction xs arbitrary: seen) (auto simp: set_new_mentions)

text \<open>The events declared along a lineage, as the iterators visit them.\<close>

definition lineage_events ::
    "('s, 'e, 'c, 't, 'w) chart_transition list \<Rightarrow> 's list \<Rightarrow> 'e list" where
  "lineage_events ts l = new_mentions [] (concat (map (chart_events ts) l))"

definition offer ::
    "('e \<Rightarrow> ('s, 'e) err list + ('s, 'e, 'c, 't, 'w) chart_transition \<times> ('s, 'e) info) \<Rightarrow>
      'e \<Rightarrow> ('e \<times> 's) list" where
  "offer P event = (case P event of Inl _ \<Rightarrow> [] | Inr (t, info) \<Rightarrow> [(event, in_destination info)])"

lemma permit_chart_events_pure:
  assumes "\<And>event. chart_selectTransition c ctx source event data w = (w, Ret (P event))"
  shows "permit_chart_events c ctx source data events (seen, permits) w =
     (w, Ret (seen @ new_mentions seen events, permits @ concat (map (offer P) (new_mentions seen events))))"
  by (induction events arbitrary: seen permits)
     (auto simp: act_simps assms offer_def split: sum.split)

lemma permit_from_pure:
  assumes g: "good_definition K L d"
    and P: "\<And>event. chart_selectTransition (chart_of K L d) ctx source event data w = (w, Ret (P event))"
  shows "lineage (parents_of d) s l \<Longrightarrow> s \<in> set (state_names d) \<Longrightarrow> length l \<le> fuel \<Longrightarrow>
     permit_from fuel (chart_of K L d) (shape_of K d) ctx source data
       (Some (index_of (sh_index (shape_of K d)) s)) (seen, permits) w =
     (let new = new_mentions seen (concat (map (chart_events (df_transitions d)) l)) in
      (w, Ret (seen @ new, permits @ concat (map (offer P) new))))"
proof (induction arbitrary: fuel seen permits rule: lineage.induct)
  case (root s)
  note c = shape_of_compiled [OF g]
  have stop: "permit_from m c' h ctx source data None acc w = (w, Ret acc)" for m c' h acc
    by (cases m) (auto simp: act_simps)
  from root.prems(2) obtain m where "fuel = Suc m" by (cases fuel) auto
  then show ?case
    using compiled_state_parent [OF c root.prems(1)] compiled_index [OF c root.prems(1)] root.hyps
    by (simp add: compiled_state [OF c] bindA_def stop permit_chart_events_pure [OF P] Let_def)
next
  case (up s q l)
  note c = shape_of_compiled [OF g]
  have q: "q \<in> set (state_names d)"
    using compiled_hierarchy [OF c] up.hyps(1) by (auto simp: hierarchy_ok_def)
  from up.prems(2) obtain m where m: "fuel = Suc m" "length l \<le> m" by (cases fuel) auto
  show ?case
    using compiled_state_parent [OF c up.prems(1)] compiled_index [OF c up.prems(1)] up.hyps(1)
    by (simp add: compiled_state [OF c] bindA_def m(1) permit_chart_events_pure [OF P] Let_def
        up.IH [OF q m(2)] new_mentions_append)
qed

lemma Permitted_pure:
  assumes g: "good_definition K L d" and p: "pure_rows ctx data (df_transitions d)"
    and i: "ci_chart i = chart_of K L d" and s: "ci_state i \<in> set (state_names d)"
    and l: "lineage (parents_of d) (ci_state i) l"
  shows "chart_Permitted i ctx data w =
     (w, Ret (concat (map (offer (\<lambda>event. pick (shape_of K d) ctx (ci_state i) event data w []
                (lineage_rows (df_transitions d) l event))) (lineage_events (df_transitions d) l))))"
  using permit_from_pure [OF g select_pure [OF g p s l] l s
      compiled_lineage_length [OF shape_of_compiled [OF g] s l]]
  by (simp add: chart_Permitted_def i bindA_def ret_def Let_def lineage_events_def)

lemma pick_event:
  assumes "pick h ctx source event data w rs (lineage_rows ts l event) = Inr (t, info)"
  shows "\<exists>s \<in> set l. t \<in> set (chart_rows ts (s, event)) \<and> info = row_info h source s event t \<and>
     row_declines h ctx source event data w (s, t) = None"
proof -
  obtain r where r: "find (\<lambda>r. row_declines h ctx source event data w r = None)
      (lineage_rows ts l event) = Some r"
    using assms by (auto simp: pick_def split: option.splits)
  then have "r \<in> set (lineage_rows ts l event)" "row_declines h ctx source event data w r = None"
    by (auto simp: find_Some_iff)
  then show ?thesis using assms r by (auto simp: pick_def lineage_rows_def)
qed

lemma chart_rows_event: "t \<in> set (chart_rows ts (s, event)) \<Longrightarrow> event \<in> set (chart_events ts s)"
  by (auto simp: chart_rows_def chart_events_def ct_key_def)

lemma offers_iff:
  assumes "\<And>event t info. P event = Inr (t, info) \<Longrightarrow> event \<in> set events"
  shows "(event, to) \<in> set (concat (map (offer P) events)) \<longleftrightarrow>
     (\<exists>t info. P event = Inr (t, info) \<and> to = in_destination info)"
proof -
  have "(event, to) \<in> set (offer P e) \<longleftrightarrow>
      e = event \<and> (\<exists>t info. P event = Inr (t, info) \<and> to = in_destination info)" for e
    by (cases "P e") (auto simp: offer_def)
  then show ?thesis using assms by auto
qed

lemma offers_distinct: "distinct events \<Longrightarrow> distinct (map fst (concat (map (offer P) events)))"
  by (rule distinct_concat_singletons) (auto simp: offer_def split: sum.split)

lemma range_over_append:
  "range_over yield (xs @ ys) acc =
     (case range_over yield xs acc of
        (acc', True) \<Rightarrow> range_over yield ys acc'
      | (acc', False) \<Rightarrow> (acc', False))"
  by (induction xs arbitrary: acc) (auto split: prod.splits bool.splits)

text \<open>The rows up to and including the first unguarded one.\<close>

fun cut :: "('s \<times> ('s, 'e, 'c, 't, 'w) chart_transition) list \<Rightarrow>
      ('s \<times> ('s, 'e, 'c, 't, 'w) chart_transition) list" where
  "cut [] = []"
| "cut (r # rs) = r # (if ct_guard (snd r) = None then [] else cut rs)"

definition has_unguarded :: "('s \<times> ('s, 'e, 'c, 't, 'w) chart_transition) list \<Rightarrow> bool" where
  "has_unguarded rs \<longleftrightarrow> list_ex (\<lambda>r. ct_guard (snd r) = None) rs"

lemma has_unguarded_simps [simp]:
  "\<not> has_unguarded []"
  "has_unguarded (r # rs) \<longleftrightarrow> ct_guard (snd r) = None \<or> has_unguarded rs"
  by (simp_all add: has_unguarded_def)

lemma cut_append: "cut (xs @ ys) = cut xs @ (if has_unguarded xs then [] else cut ys)"
  by (induction xs) simp_all

definition arrow_list ::
    "'s shape \<Rightarrow> 's \<Rightarrow> 'e \<Rightarrow> ('s \<times> ('s, 'e, 'c, 't, 'w) chart_transition) list \<Rightarrow>
      ('s, 'e) arrow list" where
  "arrow_list h source event rows = map (\<lambda>(s, t). row_arrow h source s event t) (cut rows)"

lemma arrow_rows_spec:
  "arrow_rows h source handler event yield rows acc =
     (case range_over yield (arrow_list h source event (map (Pair handler) rows)) acc of
        (acc', True) \<Rightarrow> (acc', if has_unguarded (map (Pair handler) rows) then Unconditional else Continue)
      | (acc', False) \<Rightarrow> (acc', Stopped))"
  by (induction rows arbitrary: acc) (auto simp: arrow_list_def split: prod.splits bool.splits)

lemma arrow_list_append:
  "arrow_list h source event (xs @ ys) =
     arrow_list h source event xs @
     (if has_unguarded xs then [] else arrow_list h source event ys)"
  by (simp add: arrow_list_def cut_append)

lemma arrows_from_spec:
  assumes g: "good_definition K L d"
  shows "lineage (parents_of d) s l \<Longrightarrow> s \<in> set (state_names d) \<Longrightarrow> length l \<le> fuel \<Longrightarrow>
     arrows_from fuel (chart_of K L d) (shape_of K d) source event yield
       (Some (index_of (sh_index (shape_of K d)) s)) acc =
     range_over yield (arrow_list (shape_of K d) source event
       (lineage_rows (df_transitions d) l event)) acc"
proof (induction arbitrary: fuel acc rule: lineage.induct)
  case (root s)
  note c = shape_of_compiled [OF g]
  have stop: "arrows_from m c' h source event yield None acc = (acc, True)" for m c' h acc
    by (cases m) auto
  from root.prems(2) obtain m where "fuel = Suc m" by (cases fuel) auto
  then show ?case
    using compiled_state_parent [OF c root.prems(1)] compiled_index [OF c root.prems(1)] root.hyps
    by (simp add: compiled_state [OF c] stop arrow_rows_spec lineage_rows_def Let_def
        split: prod.split bool.split)
next
  case (up s q l)
  note c = shape_of_compiled [OF g]
  have q: "q \<in> set (state_names d)"
    using compiled_hierarchy [OF c] up.hyps(1) by (auto simp: hierarchy_ok_def)
  from up.prems(2) obtain m where m: "fuel = Suc m" "length l \<le> m" by (cases fuel) auto
  have rows: "lineage_rows (df_transitions d) (s # l) event =
      map (Pair s) (chart_rows (df_transitions d) (s, event)) @ lineage_rows (df_transitions d) l event"
    by (simp add: lineage_rows_def)
  show ?case
    using compiled_state_parent [OF c up.prems(1)] compiled_index [OF c up.prems(1)] up.hyps(1)
    by (simp add: compiled_state [OF c] m(1) arrow_rows_spec rows arrow_list_append Let_def
        range_over_append up.IH [OF q m(2)] split: prod.split bool.split)
qed

lemma arrow_events_spec:
  assumes "\<And>event acc. arrowsForEvent c h source event yield acc = range_over yield (A event) acc"
    and "range_over yield (concat (map A (new_mentions seen events))) acc = (acc', go)"
  shows "\<exists>seen'. arrow_events c h source yield events seen acc = (seen', acc', go) \<and>
     (go \<longrightarrow> seen' = seen @ new_mentions seen events)"
  using assms(2)
proof (induction events arbitrary: seen acc)
  case (Cons event events)
  show ?case
  proof (cases "event \<in> set seen")
    case True
    then show ?thesis using Cons.IH [of seen acc] Cons.prems by simp
  next
    case False
    obtain a b where r: "range_over yield (A event) acc = (a, b)" by fastforce
    show ?thesis
      using False r Cons.IH [of "seen @ [event]" a] Cons.prems
      by (cases b) (auto simp: assms(1) range_over_append)
  qed
qed simp

lemma arrows_up_spec:
  assumes g: "good_definition K L d"
    and A: "\<And>event acc. arrowsForEvent (chart_of K L d) (shape_of K d) source event yield acc =
       range_over yield (A event) acc"
  shows "lineage (parents_of d) s l \<Longrightarrow> s \<in> set (state_names d) \<Longrightarrow> length l \<le> fuel \<Longrightarrow>
     arrows_up fuel (chart_of K L d) (shape_of K d) source yield
       (Some (index_of (sh_index (shape_of K d)) s)) seen acc =
     fst (range_over yield (concat (map A
       (new_mentions seen (concat (map (chart_events (df_transitions d)) l))))) acc)"
proof (induction arbitrary: fuel seen acc rule: lineage.induct)
  case (root s)
  note c = shape_of_compiled [OF g]
  have stop: "arrows_up m c' h source yield None seen acc = acc" for m c' h seen acc by (cases m) auto
  from root.prems(2) obtain m where "fuel = Suc m" by (cases fuel) auto
  then show ?case
  proof -
    obtain a b where r: "range_over yield (concat (map A
        (new_mentions seen (chart_events (df_transitions d) s)))) acc = (a, b)" by fastforce
    with arrow_events_spec [OF A r] \<open>fuel = Suc m\<close> show ?thesis
      using compiled_state_parent [OF c root.prems(1)] compiled_index [OF c root.prems(1)] root.hyps
      by (cases b) (auto simp: compiled_state [OF c] stop)
  qed
next
  case (up s q l)
  note c = shape_of_compiled [OF g]
  have q: "q \<in> set (state_names d)"
    using compiled_hierarchy [OF c] up.hyps(1) by (auto simp: hierarchy_ok_def)
  from up.prems(2) obtain m where m: "fuel = Suc m" "length l \<le> m" by (cases fuel) auto
  show ?case
  proof -
    obtain a b where r: "range_over yield (concat (map A
        (new_mentions seen (chart_events (df_transitions d) s)))) acc = (a, b)" by fastforce
    with arrow_events_spec [OF A r] m(1) show ?thesis
      using compiled_state_parent [OF c up.prems(1)] compiled_index [OF c up.prems(1)] up.hyps(1)
      by (cases b)
         (auto simp: compiled_state [OF c] up.IH [OF q m(2)] new_mentions_append range_over_append)
  qed
qed

definition static_arrows ::
    "'s keyops \<Rightarrow> ('s, 'e, 'c, 't, 'w) chart_definition \<Rightarrow> 's \<Rightarrow> 's list \<Rightarrow> ('s, 'e) arrow list" where
  "static_arrows K d source l =
     concat (map (\<lambda>event. arrow_list (shape_of K d) source event
       (lineage_rows (df_transitions d) l event)) (lineage_events (df_transitions d) l))"

lemma Arrows_spec:
  assumes g: "good_definition K L d" and s: "source \<in> set (state_names d)"
    and l: "lineage (parents_of d) source l"
  shows "Arrows K (chart_of K L d) source yield acc =
     fst (range_over yield (static_arrows K d source l) acc)"
proof -
  note len = compiled_lineage_length [OF shape_of_compiled [OF g] s l]
  have A: "arrowsForEvent (chart_of K L d) (shape_of K d) source event yield acc =
      range_over yield (arrow_list (shape_of K d) source event
        (lineage_rows (df_transitions d) l event)) acc" for event acc
    unfolding arrowsForEvent_def by (rule arrows_from_spec [OF g l s len])
  show ?thesis
    using arrows_up_spec [OF g A l s len, of "[]" acc]
    by (simp add: Arrows_def stateIndex_known [OF g] s Let_def static_arrows_def lineage_events_def)
qed

section \<open>The lifecycle as one script\<close>

type_synonym ('s, 'e, 'c, 't, 'w) lifecycle_step =
  "phase \<times> 's option \<times> nat \<times> ('s, 'e, 'c, 't, 'w) chart_action"

text \<open>The non-nil actions of one state, of a path, and of a whole transition.\<close>

definition state_script ::
    "phase \<Rightarrow> 's \<Rightarrow> nat \<Rightarrow> ('s, 'e, 'c, 't, 'w) chart_action option list \<Rightarrow>
      ('s, 'e, 'c, 't, 'w) lifecycle_step list" where
  "state_script ph s k actions =
     present (map (\<lambda>(k, a). map_option (\<lambda>f. (ph, Some s, k, f)) a) (List.enumerate k actions))"

definition path_script ::
    "phase \<Rightarrow> ('s \<Rightarrow> ('s, 'e, 'c, 't, 'w) chart_action option list) \<Rightarrow> 's list \<Rightarrow>
      ('s, 'e, 'c, 't, 'w) lifecycle_step list" where
  "path_script ph actions states = concat (map (\<lambda>s. state_script ph s 0 (actions s)) states)"

definition script ::
    "('s, 'e, 'c, 't, 'w) chart \<Rightarrow> ('s, 'e, 'c, 't, 'w) chart_transition \<Rightarrow> 's list \<Rightarrow> 's list \<Rightarrow>
      ('s, 'e, 'c, 't, 'w) lifecycle_step list" where
  "script c t exits entries =
     path_script PhaseExit (exit_actions c) exits @
     (case ct_do t of None \<Rightarrow> [] | Some f \<Rightarrow> [(PhaseEffect, None, 0, f)]) @
     path_script PhaseEntry (entry_actions c) entries"

text \<open>Run the steps until one fails; \<open>completed\<close> counts, per phase, those that returned nil.\<close>

fun run_script ::
    "'c \<Rightarrow> ('s, 'e) info \<Rightarrow> 't \<Rightarrow> (phase \<Rightarrow> nat) \<Rightarrow> ('s, 'e, 'c, 't, 'w) lifecycle_step list \<Rightarrow>
      ('s, 'e, 'w, ('s, 'e) err option) act" where
  "run_script ctx info data completed [] = ret None"
| "run_script ctx info data completed ((ph, st, k, f) # steps) =
     bindA (f ctx info data) (\<lambda>err.
     case err of
       Some e \<Rightarrow> ret (Some (ActionError (phase_code ph) False st k (completed ph) e))
     | None \<Rightarrow> run_script ctx info data (completed(ph := Suc (completed ph))) steps)"

lemma bindA_cong: "(\<And>a. f a = g a) \<Longrightarrow> bindA m f = bindA m g"
  by (simp add: bindA_def cong: outcome.case_cong)

lemma bindA_cases:
  "bindA (bindA m (\<lambda>x. case x of Some e \<Rightarrow> f e | None \<Rightarrow> g)) h =
     bindA m (\<lambda>x. case x of Some e \<Rightarrow> bindA (f e) h | None \<Rightarrow> bindA g h)"
  unfolding bindA_assoc by (rule bindA_cong) (simp split: option.split)

lemma run_state_script:
  "run_script ctx info data completed (state_script ph s k actions @ steps) =
     bindA (run_actions ctx info data ph s k actions (completed ph)) (\<lambda>r.
     case r of
       Inl e \<Rightarrow> ret (Some e)
     | Inr n \<Rightarrow> run_script ctx info data (completed(ph := n)) steps)"
proof (induction actions arbitrary: k completed)
  case Nil
  show ?case by (simp add: state_script_def)
next
  case (Cons action actions)
  show ?case
  proof (cases action)
    case None
    then show ?thesis using Cons.IH [of completed "Suc k"] by (simp add: state_script_def)
  next
    case (Some f)
    have unfold: "state_script ph s k (Some f # actions) @ steps =
        (ph, Some s, k, f) # state_script ph s (Suc k) actions @ steps"
      by (simp add: state_script_def)
    show ?thesis
      unfolding Some unfold run_script.simps run_actions.simps option.case bindA_cases
      by (rule bindA_cong)
         (auto simp: Cons.IH intro!: bindA_cong split: option.split sum.split)
  qed
qed

lemma run_path_script:
  "run_script ctx info data completed (path_script ph actions states @ steps) =
     bindA (run_path ctx info data ph actions states (completed ph)) (\<lambda>err.
     case err of
       Some e \<Rightarrow> ret (Some e)
     | None \<Rightarrow> run_script ctx info data
         (completed(ph := completed ph + length (path_script ph actions states))) steps)"
proof (induction states arbitrary: completed)
  case Nil
  show ?case by (simp add: path_script_def)
next
  case (Cons s states)
  have count: "run_actions ctx info data ph s k as m w = (w', Ret (Inr n)) \<Longrightarrow>
      n = m + length (state_script ph s k as)" for k as m n w w'
  proof (induction as arbitrary: k m w)
    case (Cons a as)
    then show ?case
      by (cases a) (fastforce simp: state_script_def act_simps
          split: prod.splits outcome.splits option.splits)+
  qed (simp add: act_simps state_script_def)
  have "run_script ctx info data completed (path_script ph actions (s # states) @ steps) =
      bindA (run_actions ctx info data ph s 0 (actions s) (completed ph)) (\<lambda>r.
      case r of
        Inl e \<Rightarrow> ret (Some e)
      | Inr n \<Rightarrow> run_script ctx info data (completed(ph := n)) (path_script ph actions states @ steps))"
  proof -
    have "path_script ph actions (s # states) =
        state_script ph s 0 (actions s) @ path_script ph actions states"
      by (simp add: path_script_def)
    then show ?thesis unfolding append_assoc by (simp only: append_assoc run_state_script)
  qed
  also have "\<dots> = bindA (run_path ctx info data ph actions (s # states) (completed ph)) (\<lambda>err.
     case err of
       Some e \<Rightarrow> ret (Some e)
     | None \<Rightarrow> run_script ctx info data
         (completed(ph := completed ph + length (path_script ph actions (s # states)))) steps)"
  proof (rule ext)
    fix w
    obtain w1 out where run: "run_actions ctx info data ph s 0 (actions s) (completed ph) w = (w1, out)"
      by fastforce
    show "bindA (run_actions ctx info data ph s 0 (actions s) (completed ph)) (\<lambda>r.
      case r of
        Inl e \<Rightarrow> ret (Some e)
      | Inr n \<Rightarrow> run_script ctx info data (completed(ph := n)) (path_script ph actions states @ steps)) w =
      bindA (run_path ctx info data ph actions (s # states) (completed ph)) (\<lambda>err.
     case err of
       Some e \<Rightarrow> ret (Some e)
     | None \<Rightarrow> run_script ctx info data
         (completed(ph := completed ph + length (path_script ph actions (s # states)))) steps) w"
    proof (cases "\<exists>n. out = Ret (Inr n)")
      case True
      then obtain n where n: "out = Ret (Inr n)" by blast
      have "n = completed ph + length (state_script ph s 0 (actions s))"
        by (rule count [OF run [unfolded n]])
      then have len: "completed ph + length (path_script ph actions (s # states)) =
          n + length (path_script ph actions states)"
        by (simp add: path_script_def)
      have tail: "bindA (run_path ctx info data ph actions (s # states) (completed ph)) g w =
          bindA (run_path ctx info data ph actions states n) g w1" for g
        by (simp add: bindA_def run n)
      have head: "bindA (run_actions ctx info data ph s 0 (actions s) (completed ph)) g w =
          g (Inr n) w1" for g
        by (simp add: bindA_def run n)
      show ?thesis unfolding head tail len sum.case Cons.IH by simp
    next
      case False
      then show ?thesis using run by (auto simp: bindA_def ret_def split: outcome.split sum.split)
    qed
  qed
  finally show ?case .
qed

lemma lifecycle_script:
  "lifecycle c ctx t info data exits entries =
     run_script ctx info data (\<lambda>_. 0) (script c t exits entries)"
proof -
  have entry: "run_script ctx info data completed (path_script PhaseEntry (entry_actions c) entries) =
      run_path ctx info data PhaseEntry (entry_actions c) entries (completed PhaseEntry)" for completed
    using run_path_script [of ctx info data completed PhaseEntry "entry_actions c" entries "[]"]
    by (simp add: bindA_def ret_def fun_eq_iff split: prod.split outcome.split option.split)
  have effect: "run_script ctx info data completed
        ((case ct_do t of None \<Rightarrow> [] | Some f \<Rightarrow> [(PhaseEffect, None, 0, f)]) @
         path_script PhaseEntry (entry_actions c) entries) =
      bindA (run_effect ctx (ct_do t) info data) (\<lambda>err.
      case err of Some e \<Rightarrow> ret (Some e)
      | None \<Rightarrow> run_path ctx info data PhaseEntry (entry_actions c) entries 0)"
    if "completed PhaseEffect = 0" "completed PhaseEntry = 0" for completed
    using that
    by (cases "ct_do t")
       (auto simp: run_effect_def runAction_def entry bindA_assoc intro!: bindA_cong
         split: option.split)
  show ?thesis
    unfolding script_def run_path_script lifecycle_def
    by (rule bindA_cong) (simp add: effect split: option.split)
qed

section \<open>Selected rows, and where their paths stop\<close>

lemma try_chart_rows_selected:
  "try_chart_rows h ctx source handler event data rows reasons w = (w', Ret (Inr (t, info))) \<Longrightarrow>
     t \<in> set rows \<and> info = row_info h source handler event t"
  by (induction rows arbitrary: reasons w)
     (auto simp: act_simps Let_def split: option.splits prod.splits outcome.splits)

lemma select_from_selected:
  assumes g: "good_definition K L d"
  shows "lineage (parents_of d) s l \<Longrightarrow> s \<in> set (state_names d) \<Longrightarrow>
     select_from fuel (chart_of K L d) (shape_of K d) ctx source event data
       (Some (index_of (sh_index (shape_of K d)) s)) reasons w = (w', Ret (Inr (t, info))) \<Longrightarrow>
     \<exists>x \<in> set l. t \<in> set (chart_rows (df_transitions d) (x, event)) \<and>
       info = row_info (shape_of K d) source x event t"
proof (induction arbitrary: fuel reasons w rule: lineage.induct)
  case (root s)
  note c = shape_of_compiled [OF g]
  have stop: "select_from m c' h ctx source event data None reasons w \<noteq> (w', Ret (Inr (t, info)))"
    for m c' h reasons w by (cases m) (auto simp: act_simps)
  from root.prems(2) obtain m where "fuel = Suc m" by (cases fuel) (auto simp: act_simps)
  with root.prems compiled_state_parent [OF c root.prems(1)] compiled_index [OF c root.prems(1)] root.hyps
  show ?case
    by (auto simp: compiled_state [OF c] Let_def stop act_simps
        dest!: try_chart_rows_selected split: prod.splits outcome.splits sum.splits)
next
  case (up s q l)
  note c = shape_of_compiled [OF g]
  have q: "q \<in> set (state_names d)"
    using compiled_hierarchy [OF c] up.hyps(1) by (auto simp: hierarchy_ok_def)
  from up.prems(2) obtain m where "fuel = Suc m" by (cases fuel) (auto simp: act_simps)
  with up.prems compiled_state_parent [OF c up.prems(1)] compiled_index [OF c up.prems(1)] up.hyps
  show ?case
    by (auto simp: compiled_state [OF c] Let_def act_simps
        dest!: try_chart_rows_selected up.IH [OF q] split: prod.splits outcome.splits sum.splits)
qed

lemma selected_row:
  assumes g: "good_definition K L d" and s: "source \<in> set (state_names d)"
    and l: "lineage (parents_of d) source l"
    and sel: "chart_selectTransition (chart_of K L d) ctx source event data w = (w', Ret (Inr (t, info)))"
  obtains x where "x \<in> set l" "t \<in> set (df_transitions d)" "ct_from t = x" "ct_event t = event"
    "info = row_info (shape_of K d) source x event t" "row_ok L (set (state_names d)) t"
proof -
  have "select_from (length (sh_nodes (shape_of K d))) (chart_of K L d) (shape_of K d) ctx source
      event data (Some (index_of (sh_index (shape_of K d)) source)) [] w = (w', Ret (Inr (t, info)))"
    using sel by (simp add: chart_selectTransition_def)
  from select_from_selected [OF g l s this]
  obtain x where "x \<in> set l" "t \<in> set (chart_rows (df_transitions d) (x, event))"
    "info = row_info (shape_of K d) source x event t" by blast
  then show thesis
    using that g by (auto simp: chart_rows_def ct_key_def good_definition_def)
qed

lemma common_stop:
  assumes h: "hierarchy_ok order parents initials"
    and ls: "lineage parents source ls" and lt: "lineage parents target lt"
    and ld: "lineage parents dest ld" and t: "target \<in> set ld" and r: "reentry \<Longrightarrow> target \<in> set ls"
    and stop: "stop_state parents ls target lt reentry = Some s"
  shows "s \<in> set ls \<and> s \<in> set ld"
proof (cases reentry)
  case True
  then have "parents target = Some s" using stop by (simp add: stop_state_def)
  then show ?thesis
    using lineage_parent_mem [OF ls r [OF True]] lineage_parent_mem [OF ld t] by blast
next
  case False
  then have "s \<in> set lt" "s \<in> set ls" using stop by (auto simp: stop_state_def find_Some_iff)
  moreover obtain l1 where "ld = l1 @ lt"
    using lineage_suffix [OF ld t] lineage_unique [OF lt] by blast
  ultimately show ?thesis by auto
qed

lemma chain_in_names:
  assumes "good_definition K L d" "s \<in> set (state_names d)" "chain (initials_of d) s x"
  shows "x = destination (shape_of K d) s" "x \<in> set (state_names d)"
  using destination_chain [OF assms(1,2)] chain_unique [OF assms(3)] by auto

section \<open>Properties\<close>

text \<open>A chart for the witnesses: state 0 encloses 3 and 2 and starts in 3. Event 0 on 0 goes to 2
  when the data is not 0; event 4 on 0 re-enters 0; event 2 on 2 is internal. Every action appends
  its number to the world; the exit of 3 fails on data 9.\<close>

definition log_action :: "nat \<Rightarrow> nat \<Rightarrow> (nat, nat, unit, nat, nat list) chart_action" where
  "log_action k bad ctx info data =
     (\<lambda>w. (w @ [k], Ret (if data = bad then Some (AppErr k []) else None)))"

definition positive :: "(nat, nat, unit, nat, nat list) chart_action" where
  "positive ctx info data = ret (if data = 0 then Some (AppErr 7 []) else None)"

definition demo_chart :: "(nat, nat, unit, nat, nat list) chart_definition" where
  "demo_chart =
     \<lparr>df_states =
        [\<lparr>cs_name = 0, cs_entry = [Some (log_action 10 99)], cs_exit = [Some (log_action 11 99)]\<rparr>,
         \<lparr>cs_name = 3, cs_entry = [None, Some (log_action 12 99)], cs_exit = [Some (log_action 13 9)]\<rparr>,
         \<lparr>cs_name = 2, cs_entry = [Some (log_action 14 99)], cs_exit = []\<rparr>],
      df_substates = [\<lparr>sub_child = 3, sub_parent = 0\<rparr>, \<lparr>sub_child = 2, sub_parent = 0\<rparr>],
      df_initials = [\<lparr>ini_parent = 0, ini_child = 3\<rparr>],
      df_transitions =
        [\<lparr>ct_from = 0, ct_event = 0, ct_to = 2, ct_kind = External, ct_guard = Some positive,
          ct_do = Some (log_action 20 99)\<rparr>,
         \<lparr>ct_from = 0, ct_event = 4, ct_to = 0, ct_kind = Reentry, ct_guard = None, ct_do = None\<rparr>,
         \<lparr>ct_from = 2, ct_event = 2, ct_to = 2, ct_kind = Internal, ct_guard = None,
          ct_do = Some (log_action 21 99)\<rparr>]\<rparr>"

lemma demo_names: "state_names demo_chart = [0, 3, 2]"
  by (simp add: state_names_def demo_chart_def)

lemma demo_parents: "parents_of demo_chart = [3 \<mapsto> 0, 2 \<mapsto> 0]"
  by (simp add: parent_map_def demo_chart_def fun_upd_twist)

lemma demo_initials: "initials_of demo_chart = [0 \<mapsto> 3]"
  by (simp add: initial_map_def demo_chart_def)

lemma demo_lineages:
  "lineage (parents_of demo_chart) 0 [0]" "lineage (parents_of demo_chart) 3 [3, 0]"
  "lineage (parents_of demo_chart) 2 [2, 0]"
  unfolding demo_parents
  by (rule lineage.root, simp, rule lineage.up [OF _ lineage.root], simp_all,
      rule lineage.up [OF _ lineage.root], simp_all)

lemma demo_good: "good_definition demo_keys demo_keys demo_chart"
proof -
  have "\<forall>s \<in> set (state_names demo_chart). rooted (parents_of demo_chart) s"
    using demo_lineages by (auto simp: demo_names simp del: One_nat_def)
  then show ?thesis
    by (simp add: good_definition_def demo_names demo_parents)
       (simp add: demo_chart_def demo_keys_def row_ok_def kind_ok_def ct_key_def)
qed

lemma demo_pure: "pure_rows () data (df_transitions demo_chart)"
  by (simp add: pure_rows_def demo_chart_def positive_def)

lemma demo_rows:
  "lineage_rows (df_transitions demo_chart) [3, 0] 0 = [(0, hd (df_transitions demo_chart))]"
  by (simp add: lineage_rows_def chart_rows_def demo_chart_def ct_key_def)

lemma demo_declines:
  "row_declines h () source event data w (0, hd (df_transitions demo_chart)) =
     (if data = 0 then Some (AppErr 7 []) else None)"
  by (simp add: row_declines_def demo_chart_def positive_def ret_def)

lemma demo_selects:
  "chart_selectTransition (chart_of demo_keys demo_keys demo_chart) () 3 0 5 w =
     (w, Ret (pick (shape_of demo_keys demo_chart) () 3 0 5 w []
                (lineage_rows (df_transitions demo_chart) [3, 0] 0)))"
  by (rule select_pure [OF demo_good demo_pure]) (simp_all add: demo_names demo_lineages)

text \<open>C20. A statechart definition compiles exactly when both key types are strict and the definition
  is good: names valid and distinct, one declared parent per child and no hierarchy cycle, one
  Initial per parent that is its immediate child, rows with declared ends, valid events and
  fitting kinds, none hidden by an earlier unguarded row. The chart maps each state to its
  actions, each key to its rows and each state to its events in declaration order.\<close>

theorem chart_compile_accepts_good_definitions:
  "compile_chart K L d = Inr c \<longleftrightarrow>
     strict_type K \<and> strict_type L \<and> good_definition K L d \<and> c = chart_of K L d"
  using compile_chart_result [of K L d] by (auto simp: compile_chart_def split: sum.splits)



text \<open>Creating an instance of a compiled chart succeeds exactly at a declared state, and the
  instance starts at the end of that state's Initial chain, idle and with no observation numbered;
  an invalid key and an undeclared state are reported as such.\<close>

theorem new_resolves_initials:
  assumes "good_definition K L d"
  shows "case chart_newInstance K (Some (chart_of K L d)) initial observers of
      Inr i \<Rightarrow> initial \<in> set (state_names d) \<and> chain (initials_of d) initial (ci_state i) \<and>
        initials_of d (ci_state i) = None \<and> ci_state i \<in> set (state_names d) \<and>
        \<not> ci_inFlight i \<and> ci_seq i = 0
    | Inl e \<Rightarrow> initial \<notin> set (state_names d) \<and>
        e = (if key_ok K initial then UndeclaredInitial else InvalidInitial)"
proof (cases "initial \<in> set (state_names d)")
  case True
  then have "key_ok K initial" using assms by (auto simp: good_definition_def)
  then show ?thesis
    using True destination_chain [OF assms True]
    by (auto simp: chart_newInstance_def stateIndex_known [OF assms] dest: chain_end)
next
  case False
  then show ?thesis by (simp add: chart_newInstance_def stateIndex_known [OF assms])
qed

theorem new_resolves_initials_witness:
  "\<exists>i. chart_newInstance demo_keys (Some (chart_of demo_keys demo_keys demo_chart)) 0 [] = Inr i \<and>
     ci_state i = 3"
proof -
  have "chain (initials_of demo_chart) 0 3" unfolding demo_initials
    by (rule chain.descend [OF _ chain.stop]) simp_all
  then show ?thesis
    using new_resolves_initials [OF demo_good, of 0 "[]"]
    by (auto simp: demo_names dest: chain_unique split: sum.splits)
qed

text \<open>C22. A position taken at a declared state answers from its lineage alone: Active is the state,
  Path iterates the lineage from the state to its root, and Status is Active for the state itself,
  Enclosing for its other ancestors, Inactive for every other declared state and undefined for an
  undeclared one. The compiled preorder intervals therefore decide ancestry.\<close>

theorem position_answers_from_lineage:
  assumes g: "good_definition K L d" and s: "active \<in> set (state_names d)"
    and l: "lineage (parents_of d) active l"
  shows "\<exists>p. chart_Position K (chart_of K L d) active = (p, True) \<and> Active p = Some active \<and>
     Path p yield acc = fst (range_over yield l acc) \<and>
     Status K p x = (if x \<notin> set (state_names d) then None
       else Some (if x = active then StatusActive
                  else if x \<in> set l then StatusEnclosing else StatusInactive))"
proof -
  note c = shape_of_compiled [OF g]
  have "sh_reflexive (shape_of K d) \<or> (\<forall>x \<in> set (state_names d). key_ok K x)"
    using g by (simp add: good_definition_def)
  then have "Status K (position_at (shape_of K d) active) x = (if x \<notin> set (state_names d) then None
       else Some (if x = active then StatusActive
                  else if x \<in> set l then StatusEnclosing else StatusInactive))"
    by (rule Status_spec [OF c s l])
  then show ?thesis
    using s Active_spec [OF c s] Path_spec [OF c s l, of yield acc]
    by (auto simp: chart_Position_def stateIndex_known [OF g] position_at_def)
qed

theorem position_answers_from_lineage_witness:
  "\<exists>p. chart_Position demo_keys (chart_of demo_keys demo_keys demo_chart) 3 = (p, True) \<and>
     Path p (\<lambda>x acc. (acc @ [x], True)) [] = [3, 0] \<and>
     Status demo_keys p 0 = Some StatusEnclosing"
  using position_answers_from_lineage [OF demo_good _ demo_lineages(2),
      where x = 0 and yield = "\<lambda>x acc. (acc @ [x], True)" and acc = "[]"]
  by (auto simp: demo_names)

text \<open>C23. With pure Guards, selection at a declared state is the first row that applies among the
  rows of the state, then its parent's, up to the root, each in declaration order; a Guard that
  declines never hides a row above it; when no row applies the reasons of all of them are
  reported in that order. The world is untouched.\<close>

theorem selection_walks_lineage:
  assumes "good_definition K L d" and "pure_rows ctx data (df_transitions d)"
    and "source \<in> set (state_names d)" and "lineage (parents_of d) source l"
  shows "chart_selectTransition (chart_of K L d) ctx source event data w =
     (w, Ret (case find (\<lambda>r. row_declines (shape_of K d) ctx source event data w r = None)
                     (lineage_rows (df_transitions d) l event) of
                Some (handler, t) \<Rightarrow> Inr (t, row_info (shape_of K d) source handler event t)
              | None \<Rightarrow> Inl (present (map (row_declines (shape_of K d) ctx source event data w)
                     (lineage_rows (df_transitions d) l event)))))"
  using select_pure [OF assms] by (simp add: pick_def cong: option.case_cong)

theorem selection_walks_lineage_witness:
  "chart_selectTransition (chart_of demo_keys demo_keys demo_chart) () 3 0 0 [] =
     ([], Ret (Inl [AppErr 7 []]))"
  using selection_walks_lineage [OF demo_good demo_pure [of 0] _ demo_lineages(2), where event = 0 and
      w = "[]"]
  by (simp add: demo_names demo_rows demo_declines)

text \<open>C24. For every transition selection can return and every Guard, the destination is the end of
  the target's Initial chain; the exits are the source's lineage below the stop, innermost first,
  and the entries the destination's lineage below the stop, outermost first. The stop is the least
  common ancestor of source and target for an external transition and the handler's parent for a
  reentry.\<close>

theorem paths_follow_lineages:
  assumes g: "good_definition K L d" and s: "source \<in> set (state_names d)"
    and ls: "lineage (parents_of d) source ls"
    and sel: "chart_selectTransition (chart_of K L d) ctx source event data w = (w', Ret (Inr (t, info)))"
    and k: "ct_kind t \<noteq> Internal"
    and lt: "lineage (parents_of d) (ct_to t) lt"
    and ld: "lineage (parents_of d) (in_destination info) ld"
  shows "chain (initials_of d) (ct_to t) (in_destination info) \<and>
    (let stop = stop_state (parents_of d) ls (ct_to t) lt (ct_kind t = Reentry) in
     paths (shape_of K d) source (ct_to t) (in_destination info) (ct_kind t = Reentry) =
       (until stop ls, rev (until stop ld)))"
proof -
  note c = shape_of_compiled [OF g] and h = good_definition_hierarchy [OF g]
  obtain x where x: "x \<in> set ls" "ct_from t = x" "info = row_info (shape_of K d) source x event t"
    "row_ok L (set (state_names d)) t"
    using selected_row [OF g s ls sel] by metis
  have to: "ct_to t \<in> set (state_names d)" using x(4) by (simp add: row_ok_def)
  have dest: "in_destination info = destination (shape_of K d) (ct_to t)"
    using x(3) k by (simp add: row_info_def)
  note D = destination_chain [OF g to]
  have mem: "ct_to t \<in> set ld" using chain_lineage [OF h D(1) to] ld dest by simp
  have "ct_to t \<in> set ls" if "ct_kind t = Reentry"
    using that x by (simp add: row_ok_def kind_ok_def)
  then have "\<forall>y. stop_state (parents_of d) ls (ct_to t) lt (ct_kind t = Reentry) = Some y \<longrightarrow>
      y \<in> set ls \<and> y \<in> set ld"
    using common_stop [OF h ls lt ld mem] by blast
  then show ?thesis
    using paths_spec [OF c s to _ ls lt _ refl, of "in_destination info" ld] ld D dest by simp
qed

theorem paths_follow_lineages_witness:
  "paths (shape_of demo_keys demo_chart) 3 2 2 False = ([3], [2])"
proof -
  let ?h = "shape_of demo_keys demo_chart"
  let ?t = "hd (df_transitions demo_chart)" let ?info = "row_info ?h 3 0 0 ?t"
  have sel: "chart_selectTransition (chart_of demo_keys demo_keys demo_chart) () 3 0 5 [] =
      ([], Ret (Inr (?t, ?info)))"
    unfolding demo_selects
    by (simp add: pick_def demo_rows demo_declines)
  have t: "ct_to ?t = 2" "ct_kind ?t = External" by (simp_all add: demo_chart_def)
  have "destination ?h 2 = 2"
    using chain_in_names(1) [OF demo_good, of 2 2] chain.stop [of "initials_of demo_chart" 2]
    by (simp add: demo_names demo_initials)
  then have d: "in_destination ?info = 2" by (simp add: row_info_def t)
  show ?thesis
    using paths_follow_lineages [OF demo_good _ demo_lineages(2) sel _ _ _, of "[2, 0]" "[2, 0]"]
      demo_lineages(3)
    by (simp add: t d demo_names stop_state_def until_def)
qed

end
