(* ===== verification/Chart_Fire.thy ===== *)
theory Chart_Fire
  imports Chart_Runs
begin

text \<open>
  What \<open>chart_fire\<close> commits and reports, on every way its callbacks can end, and what
  \<open>chart_Permitted\<close>, \<open>Arrows\<close> and the observations say of it.
\<close>

section \<open>What an error says\<close>

text \<open>The errors a Fire reports with the old state committed.\<close>

definition uncommitted_error :: "('s, 'e) err \<Rightarrow> bool" where
  "uncommitted_error e \<longleftrightarrow>
     e = Sentinel ErrInvalidKey \<or>
     (\<exists>s v rs. e = Refusal s v (Sentinel ErrNotPermitted # rs)) \<or>
     (\<exists>ph st k n e'. e = ActionError ph False st k n e')"

lemma run_script_error:
  "run_script ctx info data completed steps w = (w', Ret (Some e)) \<Longrightarrow> uncommitted_error e"
proof (induction steps arbitrary: completed w)
  case (Cons step steps)
  obtain ph st k f where step: "step = (ph, st, k, f)" by (metis prod_cases4)
  obtain w1 out where run: "f ctx info data w = (w1, out)" by fastforce
  show ?case
    using Cons.prems Cons.IH [of "completed(ph := Suc (completed ph))" w1] run
    by (auto simp: step bindA_def ret_def uncommitted_error_def simp del: fun_upd_apply
        split: outcome.splits option.splits)
qed (simp add: ret_def)

lemma lifecycle_error:
  "lifecycle c ctx t info data exits entries w = (w', Ret (Some e)) \<Longrightarrow> uncommitted_error e"
  unfolding lifecycle_script by (rule run_script_error)

lemma run_effect_error:
  "run_effect ctx a info data w = (w', Ret (Some e)) \<Longrightarrow> uncommitted_error e"
  by (auto simp: run_effect_def bindA_def ret_def uncommitted_error_def
      split: prod.splits outcome.splits)

section \<open>The state a Fire commits\<close>

text \<open>The destination a Fire commits, if it gets that far.\<close>

definition commits ::
    "'e keyops \<Rightarrow> ('s, 'e, 'c, 't, 'w) chart \<Rightarrow> 's \<Rightarrow> 'c \<Rightarrow> 'e \<Rightarrow> 't \<Rightarrow> 'w \<Rightarrow> 's option" where
  "commits L c source ctx event data w =
     (if \<not> ch_reflexiveEvent c \<and> \<not> key_ok L event then None
      else case chart_selectTransition c ctx source event data w of
        (w1, Ret (Inr (t, info))) \<Rightarrow>
          if ct_kind t = Internal then None
          else case paths (the (ch_shape c)) source (ct_to t) (in_destination info)
                      (ct_kind t = Reentry) of
            (exits, entries) \<Rightarrow>
              (case lifecycle c ctx t info data exits entries w1 of
                 (_, Ret None) \<Rightarrow> Some (in_destination info)
               | _ \<Rightarrow> None)
      | _ \<Rightarrow> None)"

lemma try_chart_rows_source:
  "try_chart_rows h ctx source handler event data rows reasons w = (w', Ret (Inr (t, info))) \<Longrightarrow>
     in_source info = source"
  by (drule try_chart_rows_selected) (simp add: row_info_def)

lemma select_from_source:
  "select_from fuel c h ctx source event data at reasons w = (w', Ret (Inr (t, info))) \<Longrightarrow>
     in_source info = source"
  by (induction fuel arbitrary: at reasons w)
     (auto simp: act_simps Let_def dest: try_chart_rows_source
       split: option.splits prod.splits outcome.splits sum.splits)

lemma select_source:
  "chart_selectTransition c ctx source event data w = (w', Ret (Inr (t, info))) \<Longrightarrow>
     in_source info = source"
  by (auto simp: chart_selectTransition_def ret_def dest: select_from_source split: option.splits)

lemma chart_deliver_returns:
  obtains w' err where "chart_deliver now observers ctx step exits entries event info data w =
    (w', Ret err)" and "\<forall>e. err = Some e \<longrightarrow> is_sentinel ErrObserverFailed e"
proof (cases "observers = [] \<or> length exits + length entries = 0")
  case True
  then show thesis using that by (auto simp: chart_deliver_def ret_def)
next
  case False
  let ?obs = "map (\<lambda>ob. (ob, observationSequence ob))
    (chart_observations (now w) step exits entries event info)"
  obtain w' err where "Deliver observers ctx ?obs data w = (w', Ret err)"
    using Deliver_returns [of observers ctx ?obs data w] by blast
  moreover from this have "\<forall>e. err = Some e \<longrightarrow> is_sentinel ErrObserverFailed e"
    by (cases err) (auto dest: Deliver_error_sentinel)
  moreover have "chart_deliver now observers ctx step exits entries event info data w =
      Deliver observers ctx ?obs data w"
    using False by (auto simp: chart_deliver_def)
  ultimately show thesis using that by simp
qed

text \<open>How a performed transition ends, by what it would commit.\<close>

lemma perform_cases:
  assumes "in_source info = ci_state i"
    and "perform now i ctx event data t info w = (i', w', out)"
  shows "(case (if ct_kind t = Internal then None
        else case paths (the (ch_shape (ci_chart i))) (ci_state i) (ct_to t) (in_destination info)
                    (ct_kind t = Reentry) of
          (exits, entries) \<Rightarrow>
            (case lifecycle (ci_chart i) ctx t info data exits entries w of
               (_, Ret None) \<Rightarrow> Some (in_destination info) | _ \<Rightarrow> None)) of
      Some dest \<Rightarrow> ci_state i' = dest \<and>
        (\<exists>err. out = Ret (dest, err) \<and> (\<forall>e. err = Some e \<longrightarrow> is_sentinel ErrObserverFailed e))
    | None \<Rightarrow> i' = i \<and>
        (\<forall>s err. out = Ret (s, err) \<longrightarrow> s = ci_state i \<and> (\<forall>e. err = Some e \<longrightarrow> uncommitted_error e)))"
proof (cases "ct_kind t = Internal")
  case True
  then show ?thesis
    using assms by (auto simp: perform_def Let_def dest: run_effect_error split: prod.splits outcome.splits)
next
  case False
  obtain exits entries where p: "paths (the (ch_shape (ci_chart i))) (ci_state i) (ct_to t)
      (in_destination info) (ct_kind t = Reentry) = (exits, entries)" by fastforce
  obtain w1 o1 where run: "lifecycle (ci_chart i) ctx t info data exits entries w = (w1, o1)"
    by fastforce
  obtain i1 step observers where pub:
    "chart_publish i (in_destination info) (length exits + length entries) = (i1, step, observers)"
    by (metis prod_cases3)
  then have i1: "ci_state i1 = in_destination info"
    by (auto simp: chart_publish_def Let_def split: if_splits)
  obtain w2 err where del: "chart_deliver now observers ctx step exits entries event info data w1 =
      (w2, Ret err)" and ok: "\<forall>e. err = Some e \<longrightarrow> is_sentinel ErrObserverFailed e"
    by (rule chart_deliver_returns)
  show ?thesis
  proof (cases "o1 = Ret None")
    case True
    then show ?thesis
      using assms False p run pub del ok i1 by (auto simp: perform_def Let_def split: if_splits)
  next
    case f: False
    then show ?thesis
      using assms False p run
      by (auto simp: perform_def Let_def dest: lifecycle_error split: outcome.splits option.splits)
  qed
qed

lemma chart_end_simps [simp]:
  "ci_state (chart_end i) = ci_state i" "\<not> ci_inFlight (chart_end i)"
  by (simp_all add: chart_end_def)

lemma chart_fire_cases:
  assumes idle: "\<not> ci_inFlight i" and run: "chart_fire L now i ctx event data w = (i', w', out)"
  shows "\<not> ci_inFlight i' \<and>
    (case commits L (ci_chart i) (ci_state i) ctx event data w of
       Some dest \<Rightarrow> ci_state i' = dest \<and>
         (\<exists>err. out = Ret (dest, err) \<and> (\<forall>e. err = Some e \<longrightarrow> is_sentinel ErrObserverFailed e))
     | None \<Rightarrow> ci_state i' = ci_state i \<and>
         (\<forall>s err. out = Ret (s, err) \<longrightarrow> s = ci_state i \<and> (\<forall>e. err = Some e \<longrightarrow> uncommitted_error e)))"
proof -
  let ?i1 = "i\<lparr>ci_inFlight := True\<rparr>"
  have b: "chart_begin i = Inr (?i1, ci_state i)" using idle by (simp add: chart_begin_def)
  show ?thesis
  proof (cases "\<not> ch_reflexiveEvent (ci_chart i) \<and> \<not> key_ok L event")
    case True
    then show ?thesis
      using run b by (auto simp: chart_fire_def commits_def uncommitted_error_def)
  next
    case ok: False
    obtain w1 o1 where sel: "chart_selectTransition (ci_chart i) ctx (ci_state i) event data w = (w1, o1)"
      by fastforce
    show ?thesis
    proof (cases "\<exists>t info. o1 = Ret (Inr (t, info))")
      case True
      then obtain t info where o1: "o1 = Ret (Inr (t, info))" by blast
      obtain i2 w2 o2 where perf: "perform now ?i1 ctx event data t info w1 = (i2, w2, o2)"
        by (metis prod_cases3)
      have "in_source info = ci_state ?i1" using select_source sel o1 by simp
      note P = perform_cases [OF this perf]
      have eq: "commits L (ci_chart i) (ci_state i) ctx event data w =
          (if ct_kind t = Internal then None
           else case paths (the (ch_shape (ci_chart ?i1))) (ci_state ?i1) (ct_to t) (in_destination info)
                       (ct_kind t = Reentry) of
             (exits, entries) \<Rightarrow>
               (case lifecycle (ci_chart ?i1) ctx t info data exits entries w1 of
                  (_, Ret None) \<Rightarrow> Some (in_destination info) | _ \<Rightarrow> None))"
        using ok sel o1 by (auto simp: commits_def)
      have "i' = chart_end i2" "out = o2"
        using run ok b sel o1 perf by (auto simp: chart_fire_def)
      then show ?thesis using P unfolding eq [symmetric]
        by (cases "commits L (ci_chart i) (ci_state i) ctx event data w") simp_all
    next
      case no: False
      then have "commits L (ci_chart i) (ci_state i) ctx event data w = None"
        using sel by (auto simp: commits_def split: outcome.splits sum.splits)
      moreover have "i' = chart_end ?i1 \<and>
          (\<forall>s err. out = Ret (s, err) \<longrightarrow> s = ci_state i \<and> (\<forall>e. err = Some e \<longrightarrow> uncommitted_error e))"
        using run ok b sel no
        by (cases o1) (auto simp: chart_fire_def uncommitted_error_def split: sum.splits)
      ultimately show ?thesis by simp
    qed
  qed
qed

lemma distinct_lineage_events: "distinct (lineage_events ts l)"
  by (simp add: lineage_events_def distinct_new_mentions)

section \<open>Properties\<close>

definition demo_chart_inst :: "nat \<Rightarrow> (nat, nat, unit, nat, nat list) chart_inst" where
  "demo_chart_inst s =
     \<lparr>ci_chart = chart_of demo_keys demo_keys demo_chart, ci_state = s, ci_inFlight = False,
      ci_observers = [], ci_seq = 0\<rparr>"

definition demo_info :: "(nat, nat) info" where
  "demo_info = \<lparr>in_source = 3, in_handler = 0, in_target = 2, in_destination = 2, in_event = 0,
     in_kind = External\<rparr>"

text \<open>C25. The lifecycle of a transition is one flat script: every non-nil exit action of the exit
  path in order, the effect, every non-nil entry action of the entry path in order. Actions run
  until the first that fails, panics or stops; a failure is reported with its phase, state, index
  within the state's slice, and the number of actions of that phase that completed, and nothing
  after it runs.\<close>

theorem lifecycle_runs_script:
  "lifecycle c ctx t info data exits entries =
     run_script ctx info data (\<lambda>_. 0) (script c t exits entries)"
  by (rule lifecycle_script)

text \<open>C26. A Fire on an idle instance, whatever its callbacks do, clears the in-flight marker; it
  commits the destination exactly when a row that is not internal was selected and every exit,
  effect and entry action returned nil, and then reports the destination with at most observer
  failures; otherwise the state is unchanged and every error it reports says so: an invalid key, a
  refusal or an action error with Committed false.\<close>

theorem chart_fire_commits_only_success:
  assumes "\<not> ci_inFlight i"
  shows "case chart_fire L now i ctx event data w of (i', w', out) \<Rightarrow>
    \<not> ci_inFlight i' \<and>
    (case commits L (ci_chart i) (ci_state i) ctx event data w of
       Some dest \<Rightarrow> ci_state i' = dest \<and>
         (\<exists>err. out = Ret (dest, err) \<and> (\<forall>e. err = Some e \<longrightarrow> is_sentinel ErrObserverFailed e))
     | None \<Rightarrow> ci_state i' = ci_state i \<and>
         (\<forall>s err. out = Ret (s, err) \<longrightarrow> s = ci_state i \<and> (\<forall>e. err = Some e \<longrightarrow> uncommitted_error e)))"
proof -
  obtain i' w' out where run: "chart_fire L now i ctx event data w = (i', w', out)"
    by (metis prod_cases3)
  show ?thesis unfolding run prod.case by (rule chart_fire_cases [OF assms run])
qed

theorem chart_fire_commits_only_success_witness:
  "case chart_fire demo_keys (\<lambda>_. 0) (demo_chart_inst 3) () 0 0 [] of (i', w', out) \<Rightarrow>
     ci_state i' = 3 \<and> \<not> ci_inFlight i'"
proof -
  have none: "commits demo_keys (chart_of demo_keys demo_keys demo_chart) 3 () 0 0 [] = None"
    using selection_walks_lineage [OF demo_good demo_pure [of 0] _ demo_lineages(2),
        where event = 0 and w = "[]"]
    by (simp add: commits_def demo_names demo_rows demo_declines)
  have "\<not> ci_inFlight (demo_chart_inst 3)" by (simp add: demo_chart_inst_def)
  from chart_fire_commits_only_success [OF this, where L = demo_keys and now = "\<lambda>_. 0" and
      ctx = "()" and event = 0 and data = 0 and w = "[]"] none
  show ?thesis by (auto simp: demo_chart_inst_def split: prod.splits)
qed

text \<open>C27. With pure Guards, the snapshot Permitted takes of an instance at a declared state holds
  each event at most once, and holds a pair exactly when selection accepts that event from that
  state with that destination, handlers inherited from ancestors included.\<close>

theorem chart_permitted_agrees_with_selection:
  assumes "good_definition K L d" and "pure_rows ctx data (df_transitions d)"
    and "ci_chart i = chart_of K L d" and "ci_state i \<in> set (state_names d)"
  shows "\<exists>ps. chart_Permitted i ctx data w = (w, Ret ps) \<and> distinct (map fst ps) \<and>
     ((event, to) \<in> set ps \<longleftrightarrow>
        (\<exists>t info. chart_selectTransition (ci_chart i) ctx (ci_state i) event data w =
             (w, Ret (Inr (t, info))) \<and> to = in_destination info))"
proof -
  obtain l where l: "lineage (parents_of d) (ci_state i) l"
    using assms(1,4) by (auto simp: good_definition_def)
  define P where "P = (\<lambda>event. pick (shape_of K d) ctx (ci_state i) event data w []
    (lineage_rows (df_transitions d) l event))"
  have sel: "chart_selectTransition (ci_chart i) ctx (ci_state i) event data w = (w, Ret (P event))" for event
    unfolding assms(3) P_def by (rule select_pure [OF assms(1,2,4) l])
  have "event \<in> set (lineage_events (df_transitions d) l)" if "P event = Inr (t, info)" for event t info
    using pick_event [OF that [unfolded P_def]] chart_rows_event
    by (fastforce simp: lineage_events_def set_new_mentions)
  note offers = offers_iff [of P, OF this]
  have "chart_Permitted i ctx data w =
      (w, Ret (concat (map (offer P) (lineage_events (df_transitions d) l))))"
    unfolding P_def by (rule Permitted_pure [OF assms l])
  then show ?thesis
    using offers offers_distinct [of "lineage_events (df_transitions d) l" P]
    by (auto simp: sel distinct_lineage_events)
qed

theorem chart_permitted_agrees_with_selection_witness:
  "\<exists>ps. chart_Permitted (demo_chart_inst 3) () 5 [] = ([], Ret ps) \<and> distinct (map fst ps) \<and>
     (\<exists>to. (0, to) \<in> set ps)"
proof -
  have i: "ci_chart (demo_chart_inst 3) = chart_of demo_keys demo_keys demo_chart"
    "ci_state (demo_chart_inst 3) = 3" by (simp_all add: demo_chart_inst_def)
  have "\<exists>t info. chart_selectTransition (ci_chart (demo_chart_inst 3)) ()
      (ci_state (demo_chart_inst 3)) 0 5 [] = ([], Ret (Inr (t, info)))"
    unfolding i demo_selects by (simp add: pick_def demo_rows demo_declines)
  then show ?thesis
    using chart_permitted_agrees_with_selection [OF demo_good demo_pure [of 5] i(1), where event = 0 and w = "[]"]
    by (fastforce simp: i(2) demo_names)
qed

text \<open>C28. Arrows yields, for each event of the lineage once, the event's rows in selection order up
  to and including the first unguarded one, and stops as soon as the loop body asks to; and every
  row that selection returns under pure Guards is among them with the same handler, target,
  destination and kind.\<close>

theorem arrows_cover_selection:
  assumes "good_definition K L d" and "pure_rows ctx data (df_transitions d)"
    and "source \<in> set (state_names d)" and "lineage (parents_of d) source l"
  shows "Arrows K (chart_of K L d) source yield acc =
      fst (range_over yield (static_arrows K d source l) acc) \<and>
    (chart_selectTransition (chart_of K L d) ctx source event data w = (w, Ret (Inr (t, info))) \<longrightarrow>
      \<lparr>ar_source = source, ar_handler = in_handler info, ar_target = in_target info,
       ar_destination = in_destination info, ar_event = event, ar_kind = in_kind info,
       ar_guarded = (ct_guard t \<noteq> None)\<rparr> \<in> set (static_arrows K d source l))"
proof (intro conjI impI)
  show "Arrows K (chart_of K L d) source yield acc =
      fst (range_over yield (static_arrows K d source l) acc)"
    by (rule Arrows_spec [OF assms(1,3,4)])
  let ?h = "shape_of K d" and ?rows = "lineage_rows (df_transitions d) l event"
  assume "chart_selectTransition (chart_of K L d) ctx source event data w = (w, Ret (Inr (t, info)))"
  then have pick: "pick ?h ctx source event data w [] ?rows = Inr (t, info)"
    using select_pure [OF assms] by simp
  have cut: "find (\<lambda>r. row_declines ?h ctx source event data w r = None) rows = Some r \<Longrightarrow>
      r \<in> set (cut rows)" for rows r
    by (induction rows) (auto simp: row_declines_def split: if_splits)
  obtain r where r: "find (\<lambda>r. row_declines ?h ctx source event data w r = None) ?rows = Some r"
    using pick by (auto simp: pick_def split: option.splits)
  then have "t = snd r" "info = row_info ?h source (fst r) event (snd r)"
    using pick by (auto simp: pick_def split: prod.splits)
  then have "row_arrow ?h source (fst r) event t \<in> set (arrow_list ?h source event ?rows)"
    using cut [OF r] by (auto simp: arrow_list_def image_iff case_prod_beta)
  moreover have "event \<in> set (lineage_events (df_transitions d) l)"
    using pick_event [OF pick] chart_rows_event by (fastforce simp: lineage_events_def set_new_mentions)
  ultimately show "\<lparr>ar_source = source, ar_handler = in_handler info, ar_target = in_target info,
       ar_destination = in_destination info, ar_event = event, ar_kind = in_kind info,
       ar_guarded = (ct_guard t \<noteq> None)\<rparr> \<in> set (static_arrows K d source l)"
    using \<open>info = _\<close> \<open>t = snd r\<close> by (auto simp: static_arrows_def row_info_def row_arrow_def)
qed

theorem arrows_cover_selection_witness:
  "map ar_event (Arrows demo_keys (chart_of demo_keys demo_keys demo_chart) 3
     (\<lambda>a acc. (acc @ [a], True)) []) = [0, 4]"
proof -
  have collect: "range_over (\<lambda>a acc. (acc @ [a], True)) xs acc = (acc @ xs, True)" for xs acc
    by (induction xs arbitrary: acc) auto
  have "Arrows demo_keys (chart_of demo_keys demo_keys demo_chart) 3 (\<lambda>a acc. (acc @ [a], True)) [] =
      static_arrows demo_keys demo_chart 3 [3, 0]"
    using arrows_cover_selection [OF demo_good demo_pure [of 0] _ demo_lineages(2),
        where yield = "\<lambda>a acc. (acc @ [a], True)" and acc = "[]"]
    by (simp add: demo_names collect)
  then show ?thesis
    by (simp add: static_arrows_def lineage_events_def chart_events_def arrow_list_def
        lineage_rows_def chart_rows_def ct_key_def row_arrow_def demo_chart_def)
qed

text \<open>C29. One committed transition yields one observation per exited and entered state, in path
  order, with consecutive sequence numbers from the batch's first, the counts of those still to
  come, and one step and run number; the instance's counter ends at the batch's last number, so
  the next batch continues where this one ends, wrap-around of the 64-bit counter included.\<close>

theorem chart_observations_number_the_path:
  assumes "ci_observers i \<noteq> []" and "n = length exits + length entries" and "n \<noteq> 0"
  shows "case chart_publish i dest n of (i', step, observers) \<Rightarrow>
    (let obs = chart_observations at step exits entries event info in
       observers = ci_observers i \<and> step = ci_seq i + 1 \<and>
       map ob_state obs = exits @ entries \<and>
       map ob_move obs = replicate (length exits) Exited @ replicate (length entries) Entered \<and>
       map ob_seq obs = map (\<lambda>k. ci_seq i + 1 + of_nat k) [0..<n] \<and>
       map ob_remaining obs = map of_nat (rev [0..<n]) \<and>
       (\<forall>ob \<in> set obs. ob_step ob = step \<and> ob_run ob = step \<and> ob_info ob = info) \<and>
       ci_seq i' = ob_seq (last obs))"
proof -
  let ?step = "ci_seq i + 1"
  let ?obs = "chart_observations at ?step exits entries event info"
  have pub: "chart_publish i dest n =
      (i\<lparr>ci_state := dest, ci_seq := ci_seq i + of_nat n\<rparr>, ?step, ci_observers i)"
    using assms by (simp add: chart_publish_def Let_def)
  have len: "length ?obs = n" by (simp add: chart_observations_def Let_def assms(2))
  have "map ob_state ?obs = exits @ entries"
    by (rule nth_equalityI) (auto simp: chart_observations_def Let_def nth_append)
  moreover have "map ob_move ?obs =
      replicate (length exits) Exited @ replicate (length entries) Entered"
    by (rule nth_equalityI) (auto simp: chart_observations_def Let_def nth_append)
  moreover have "map ob_seq ?obs = map (\<lambda>k. ?step + of_nat k) [0..<n]"
    by (simp add: chart_observations_def Let_def assms(2))
  moreover have "map ob_remaining ?obs = map of_nat (rev [0..<n])"
    by (rule nth_equalityI) (auto simp: chart_observations_def Let_def rev_nth assms(2))
  moreover have "ci_seq i + of_nat n = ob_seq (last ?obs)"
  proof -
    have "?obs \<noteq> []" using len assms(3) by auto
    then have "ob_seq (last ?obs) = ?step + of_nat (n - 1)"
      using assms(2,3) by (simp add: last_conv_nth len) (simp add: chart_observations_def Let_def)
    moreover have "(of_nat n :: u64) = 1 + of_nat (n - 1)"
      using assms(3) by (cases n) auto
    ultimately show ?thesis by simp
  qed
  ultimately show ?thesis
    by (simp add: pub Let_def) (simp add: chart_observations_def Let_def)
qed

theorem chart_observations_number_the_path_witness:
  "map ob_seq (chart_observations 0 1 [3] [0, 2] (0 :: nat) demo_info) = [1, 2, (3 :: u64)]"
proof -
  let ?i = "(demo_chart_inst 3)\<lparr>ci_observers := [\<lambda>_ _ _. ret ()]\<rparr>"
  have "ci_observers ?i \<noteq> []" by simp
  from chart_observations_number_the_path [OF this refl, where exits = "[3]" and entries = "[0, 2]" and
      dest = 2 and at = 0 and event = 0 and info = demo_info]
  show ?thesis
    by (simp add: chart_publish_def Let_def demo_chart_inst_def upt_conv_Cons)
qed

end
