(* ===== verification/Persist.thy ===== *)
theory Persist
  imports Instance
begin

text \<open>
  \<^verbatim>\<open>persist/persist.go\<close>: one transition inside a store's unit of work.

  The store is application code. A call of its \<^verbatim>\<open>Update\<close> is a \<open>store_run\<close>: a tree of what it does
  on each path, changing the world (\<open>SDo\<close>), calling the step it was given (\<open>SStep\<close>, whose
  continuation sees how the step ended, panics and stopped goroutines included) and ending. A
  store may call the step never, once or often, swallow its panics and return any state.
  \<open>apply_step\<close> is the closure \<open>apply\<close> passes, with the three atomic flags in \<open>apply_state\<close>;
  concurrent calls are ordered by their compare-and-swap, and a first call still running when
  \<^verbatim>\<open>Update\<close> returns comes before that return, since \<open>apply\<close> waits for it. \<open>ap_runs\<close> is a ghost:
  how often the machine ran. \<open>FuncStore\<close> is the adapter for a plain function.

  The lemmas show that the machine runs at most once whatever the store does, that a confirmed
  result is one successful run whose state the store returned, which violation each contract
  error reports, and that a store that keeps the contract (\<open>honours\<close>) never gets one.
\<close>

section \<open>What a store's Update does\<close>

datatype ('s, 'e, 'c, 'x, 'w) store_run =
    SReturn 's "('s, 'e) err option"
  | SPanic "('s, 'e) pval"
  | SGoexit
  | SDo "'w \<Rightarrow> 'w \<times> ('s, 'e, 'c, 'x, 'w) store_run"
  | SStep 'c 's 'x
      "('s, 'e, 's \<times> ('s, 'e) err option) outcome \<Rightarrow> ('s, 'e, 'c, 'x, 'w) store_run"

type_synonym ('k, 's, 'e, 'c, 'x, 'w) store = "'c \<Rightarrow> 'k \<Rightarrow> ('s, 'e, 'c, 'x, 'w) store_run"

text \<open>A nil UpdateFunc is \<open>None\<close>.\<close>

definition FuncStore_Update ::
    "'s \<Rightarrow> ('k, 's, 'e, 'c, 'x, 'w) store option \<Rightarrow> ('k, 's, 'e, 'c, 'x, 'w) store" where
  "FuncStore_Update zero update ctx key =
     (case update of None \<Rightarrow> SReturn zero (Some (Sentinel ErrNoStore)) | Some f \<Rightarrow> f ctx key)"

section \<open>The step and its result\<close>

record ('s, 'e) step_result =
  sr_from :: 's
  sr_to :: 's
  sr_event :: 'e
  sr_attempted :: bool
  sr_confirmed :: bool
  sr_transitionError :: "('s, 'e) err option"

record ('s, 'e) apply_state =
  ap_started :: bool
  ap_repeated :: bool
  ap_completed :: bool
  ap_result :: "('s, 'e) step_result"
  ap_runs :: nat

definition contract_error :: "sentinel \<Rightarrow> ('s, 'e) err option \<Rightarrow> ('s, 'e) err" where
  "contract_error s err =
     the (errors_join [Some (Sentinel ErrStoreContract), Some (Sentinel s), err])"

definition apply_step ::
    "'s keyops \<Rightarrow> 'e keyops \<Rightarrow> ('w \<Rightarrow> nat) \<Rightarrow> 't \<Rightarrow> ('s, 'e, 'c, 't, 'w) machine option \<Rightarrow> 'e \<Rightarrow>
      ('x \<Rightarrow> ('s, 'e, 'w, 't) act) option \<Rightarrow> 'c \<Rightarrow> 's \<Rightarrow> 'x \<Rightarrow>
      ('s, 'e) apply_state \<Rightarrow> 'w \<Rightarrow>
      ('s, 'e) apply_state \<times> 'w \<times> ('s, 'e, 's \<times> ('s, 'e) err option) outcome" where
  "apply_step K L now zeroT m event data ctx from unit st w =
     (if ap_started st
      then (st\<lparr>ap_repeated := True\<rparr>, w, Ret (from, Some (contract_error ErrStepRepeated None)))
      else
        (let st = st\<lparr>ap_started := True\<rparr> in
         case (case data of None \<Rightarrow> ret zeroT | Some f \<Rightarrow> f unit) w of
           (w1, Panic v) \<Rightarrow> (st, w1, Panic v)
         | (w1, Goexit) \<Rightarrow> (st, w1, Goexit)
         | (w1, Ret v) \<Rightarrow>
             (let st = st\<lparr>ap_result := (ap_result st)
                            \<lparr>sr_from := from, sr_to := from, sr_attempted := True\<rparr>,
                          ap_runs := Suc (ap_runs st)\<rparr> in
              case Fire K L now (newInstance m from []) ctx event v w1 of
                (_, w2, Ret (to, err)) \<Rightarrow>
                  (st\<lparr>ap_result := (ap_result st)\<lparr>sr_to := to, sr_transitionError := err\<rparr>,
                      ap_completed := True\<rparr>, w2, Ret (to, err))
              | (_, w2, Panic p) \<Rightarrow> (st, w2, Panic p)
              | (_, w2, Goexit) \<Rightarrow> (st, w2, Goexit))))"

text \<open>Running an Update against a step.\<close>

primrec run_store ::
    "('c \<Rightarrow> 's \<Rightarrow> 'x \<Rightarrow> 'st \<Rightarrow> 'w \<Rightarrow> 'st \<times> 'w \<times> ('s, 'e, 's \<times> ('s, 'e) err option) outcome) \<Rightarrow>
      ('s, 'e, 'c, 'x, 'w) store_run \<Rightarrow> 'st \<Rightarrow> 'w \<Rightarrow>
      'st \<times> 'w \<times> ('s, 'e, 's \<times> ('s, 'e) err option) outcome" where
  "run_store step (SReturn s err) = (\<lambda>st w. (st, w, Ret (s, err)))"
| "run_store step (SPanic v) = (\<lambda>st w. (st, w, Panic v))"
| "run_store step SGoexit = (\<lambda>st w. (st, w, Goexit))"
| "run_store step (SDo f) =
     (\<lambda>st w. case (map_prod id (run_store step) \<circ> f) w of (w1, rest) \<Rightarrow> rest st w1)"
| "run_store step (SStep c s x k) =
     (\<lambda>st w. case step c s x st w of (st1, w1, out) \<Rightarrow> run_store step (k out) st1 w1)"

lemma run_store_SDo [simp]:
  "run_store step (SDo f) st w = (case f w of (w1, t) \<Rightarrow> run_store step t st w1)"
  by (simp split: prod.split)

declare run_store.simps(4) [simp del]

text \<open>Induction on a run, along the continuations that can be reached.\<close>

lemma store_run_induct [case_names Return Panic Goexit Do Step]:
  assumes "\<And>s err. P (SReturn s err)" "\<And>v. P (SPanic v)" "P SGoexit"
    and "\<And>f. (\<And>w w1 t. f w = (w1, t) \<Longrightarrow> P t) \<Longrightarrow> P (SDo f)"
    and "\<And>c s x k. (\<And>out. P (k out)) \<Longrightarrow> P (SStep c s x k)"
  shows "P t"
proof (induction t)
  case (SDo f)
  have "P t" if "f w = (w1, t)" for w w1 t
    by (rule SDo [of "f w"]) (use that in \<open>auto intro: rangeI [of f w, unfolded that]\<close>)
  then show ?case by (rule assms(4))
next
  case (SStep c s x k)
  then show ?case by (intro assms(5)) simp
qed (simp_all add: assms(1-3))

section \<open>apply, Fire and Step\<close>

text \<open>The checks after Update has returned.\<close>

definition apply_checks ::
    "'s keyops \<Rightarrow> ('s, 'e) apply_state \<Rightarrow> 's \<Rightarrow> ('s, 'e) err option \<Rightarrow>
      's \<times> ('s, 'e) step_result \<times> ('s, 'e) err option" where
  "apply_checks K st state err =
     (let result = ap_result st in
      if ap_started st \<and> \<not> ap_completed st then
        (let failure = contract_error ErrStepIncomplete err in
         (state, result,
          Some (if ap_repeated st then Joined [failure, Sentinel ErrStepRepeated] else failure)))
      else if ap_repeated st then
        (state, result\<lparr>sr_confirmed := False\<rparr>, Some (contract_error ErrStepRepeated err))
      else if \<not> ap_started st \<and> err = None then
        (state, result, Some (contract_error ErrStepNotCalled None))
      else if err = None \<and> ap_started st then
        (case sr_transitionError result of
           Some e \<Rightarrow> (state, result, Some (contract_error ErrStepFailed (Some e)))
         | None \<Rightarrow>
             if \<not> key_ok K state \<or> state \<noteq> sr_to result
             then (state, result, Some (contract_error ErrStateMismatch None))
             else (state, result\<lparr>sr_confirmed := True\<rparr>, err))
      else (state, result, err))"

definition new_apply :: "'s \<Rightarrow> 'e \<Rightarrow> ('s, 'e) apply_state" where
  "new_apply zero event =
     \<lparr>ap_started = False, ap_repeated = False, ap_completed = False,
      ap_result = \<lparr>sr_from = zero, sr_to = zero, sr_event = event, sr_attempted = False,
                   sr_confirmed = False, sr_transitionError = None\<rparr>,
      ap_runs = 0\<rparr>"

text \<open>A nil store, a typed nil included, is \<open>None\<close>. \<open>zero\<close> and \<open>zeroT\<close> are zero values of S and T.\<close>

definition persist_apply ::
    "'k keyops \<Rightarrow> 's keyops \<Rightarrow> 'e keyops \<Rightarrow> ('w \<Rightarrow> nat) \<Rightarrow> 's \<Rightarrow> 't \<Rightarrow> 'c \<Rightarrow>
      ('k, 's, 'e, 'c, 'x, 'w) store option \<Rightarrow> 'k \<Rightarrow> ('s, 'e, 'c, 't, 'w) machine option \<Rightarrow> 'e \<Rightarrow>
      ('x \<Rightarrow> ('s, 'e, 'w, 't) act) option \<Rightarrow>
      ('s, 'e, 'w, 's \<times> ('s, 'e) step_result \<times> ('s, 'e) err option) act" where
  "persist_apply KK K L now zero zeroT ctx store key m event data w =
     (let result = ap_result (new_apply zero event) in
      if \<not> key_ok KK key then (w, Ret (zero, result, Some (Sentinel ErrInvalidStoreKey)))
      else case store of
        None \<Rightarrow> (w, Ret (zero, result, Some (Sentinel ErrNoStore)))
      | Some update \<Rightarrow>
          (case run_store (apply_step K L now zeroT m event data) (update ctx key)
                  (new_apply zero event) w of
             (st, w1, Ret (state, err)) \<Rightarrow> (w1, Ret (apply_checks K st state err))
           | (st, w1, Panic v) \<Rightarrow> (w1, Panic v)
           | (st, w1, Goexit) \<Rightarrow> (w1, Goexit)))"

definition persist_Fire ::
    "'k keyops \<Rightarrow> 's keyops \<Rightarrow> 'e keyops \<Rightarrow> ('w \<Rightarrow> nat) \<Rightarrow> 's \<Rightarrow> 't \<Rightarrow> 'c \<Rightarrow>
      ('k, 's, 'e, 'c, 'x, 'w) store option \<Rightarrow> 'k \<Rightarrow> ('s, 'e, 'c, 't, 'w) machine option \<Rightarrow> 'e \<Rightarrow>
      ('x \<Rightarrow> ('s, 'e, 'w, 't) act) option \<Rightarrow> ('s, 'e, 'w, 's \<times> ('s, 'e) err option) act" where
  "persist_Fire KK K L now zero zeroT ctx store key m event data =
     bindA (persist_apply KK K L now zero zeroT ctx store key m event data)
       (\<lambda>(state, result, err). ret (state, err))"

definition persist_Step ::
    "'k keyops \<Rightarrow> 's keyops \<Rightarrow> 'e keyops \<Rightarrow> ('w \<Rightarrow> nat) \<Rightarrow> 's \<Rightarrow> 't \<Rightarrow> 'c \<Rightarrow>
      ('k, 's, 'e, 'c, 'x, 'w) store option \<Rightarrow> 'k \<Rightarrow> ('s, 'e, 'c, 't, 'w) machine option \<Rightarrow> 'e \<Rightarrow>
      ('x \<Rightarrow> ('s, 'e, 'w, 't) act) option \<Rightarrow>
      ('s, 'e, 'w, ('s, 'e) step_result \<times> ('s, 'e) err option) act" where
  "persist_Step KK K L now zero zeroT ctx store key m event data =
     bindA (persist_apply KK K L now zero zeroT ctx store key m event data)
       (\<lambda>(state, result, err). ret (result, err))"

section \<open>The step runs the machine at most once\<close>

text \<open>What holds of the flags at every point of an Update.\<close>

definition apply_inv :: "('s, 'e) apply_state \<Rightarrow> bool" where
  "apply_inv st \<longleftrightarrow>
     (ap_completed st \<longrightarrow> ap_started st \<and> ap_runs st = 1 \<and> sr_attempted (ap_result st)) \<and>
     (\<not> ap_started st \<longrightarrow> \<not> ap_repeated st \<and> ap_runs st = 0) \<and>
     (sr_attempted (ap_result st) \<longleftrightarrow> ap_runs st = 1) \<and> ap_runs st \<le> 1 \<and>
     \<not> sr_confirmed (ap_result st)"

lemma new_apply_inv [simp]: "apply_inv (new_apply zero event)"
  by (simp add: apply_inv_def new_apply_def)

lemma apply_step_inv:
  assumes "apply_inv st" and "apply_step K L now zeroT m event data ctx from unit st w = (st', w', out)"
  shows "apply_inv st'"
proof (cases "ap_started st")
  case True
  with assms show ?thesis by (auto simp: apply_step_def apply_inv_def)
next
  case False
  then have "\<not> ap_completed st" "ap_runs st = 0" using assms(1) by (auto simp: apply_inv_def)
  with False assms show ?thesis
    by (auto simp: apply_step_def apply_inv_def Let_def split: prod.splits outcome.splits)
qed

lemma run_store_inv:
  "apply_inv st \<Longrightarrow> run_store (apply_step K L now zeroT m event data) t st w = (st', w', out) \<Longrightarrow>
     apply_inv st'"
proof (induction t arbitrary: st w rule: store_run_induct)
  case (Do f)
  then show ?case by (fastforce split: prod.splits)
next
  case (Step c s x k)
  then show ?case by (auto dest: apply_step_inv split: prod.splits)
qed auto

lemma apply_step_runs:
  assumes "apply_step K L now zeroT m event data ctx from unit st w = (st', w', out)"
    and "apply_inv st" and "ap_completed st'" and "\<not> ap_completed st"
  shows "\<exists>v w1 i' w2. Fire K L now (newInstance m from []) ctx event v w1 =
      (i', w2, Ret (sr_to (ap_result st'), sr_transitionError (ap_result st'))) \<and>
     sr_from (ap_result st') = from \<and>
     out = Ret (sr_to (ap_result st'), sr_transitionError (ap_result st'))"
proof -
  obtain w1 d where d: "(case data of None \<Rightarrow> ret zeroT | Some f \<Rightarrow> f unit) w = (w1, d)"
    by fastforce
  with assms show ?thesis
    unfolding apply_step_def
    by (cases d) (auto simp: Let_def split: if_splits prod.splits outcome.splits, metis)
qed

text \<open>What a completed step leaves in the result is what one Fire returned.\<close>

definition fired ::
    "'s keyops \<Rightarrow> 'e keyops \<Rightarrow> ('w \<Rightarrow> nat) \<Rightarrow> ('s, 'e, 'c, 't, 'w) machine option \<Rightarrow> 'e \<Rightarrow>
      ('s, 'e) step_result \<Rightarrow> bool" where
  "fired K L now m event r \<longleftrightarrow>
     (\<exists>ctx v w i' w'. Fire K L now (newInstance m (sr_from r) []) ctx event v w =
        (i', w', Ret (sr_to r, sr_transitionError r)))"

lemma apply_step_fired:
  assumes "apply_step K L now zeroT m event data ctx from unit st w = (st', w', out)"
    and "apply_inv st" and "ap_completed st \<longrightarrow> fired K L now m event (ap_result st)"
  shows "ap_completed st' \<longrightarrow> fired K L now m event (ap_result st')"
proof (cases "ap_completed st")
  case True
  with assms show ?thesis by (auto simp: apply_step_def apply_inv_def split: if_splits)
next
  case False
  then show ?thesis using apply_step_runs [OF assms(1,2)] unfolding fired_def by fast
qed

lemma apply_step_event:
  "apply_step K L now zeroT m event data ctx from unit st w = (st', w', out) \<Longrightarrow>
     sr_event (ap_result st') = sr_event (ap_result st)"
  by (auto simp: apply_step_def Let_def split: if_splits prod.splits outcome.splits)

lemma run_store_fired:
  "apply_inv st \<Longrightarrow> ap_completed st \<longrightarrow> fired K L now m event (ap_result st) \<Longrightarrow>
     run_store (apply_step K L now zeroT m event data) t st w = (st', w', out) \<Longrightarrow>
     (ap_completed st' \<longrightarrow> fired K L now m event (ap_result st')) \<and>
     sr_event (ap_result st') = sr_event (ap_result st)"
proof (induction t arbitrary: st w rule: store_run_induct)
  case (Do f)
  then show ?case by (fastforce split: prod.splits)
next
  case (Step c s x k)
  obtain st1 w1 o1 where s: "apply_step K L now zeroT m event data c s x st w = (st1, w1, o1)"
    by (metis prod_cases3)
  note inv = apply_step_inv [OF Step.prems(1) s] and
    fd = apply_step_fired [OF s Step.prems(1,2)] and ev = apply_step_event [OF s]
  have "run_store (apply_step K L now zeroT m event data) (k o1) st1 w1 = (st', w', out)"
    using Step.prems(3) s by simp
  from Step.IH [OF inv fd this] ev show ?case by auto
qed auto

text \<open>What \<open>apply\<close> makes of any run, in one place: \<open>ap_runs\<close> and the flags are bounded by the
  invariant, and a nil error is a confirmed result.\<close>

lemma apply_checks_ok:
  assumes "apply_inv st"
  shows "case apply_checks K st state err of (state', r, err') \<Rightarrow>
     state' = state \<and> sr_attempted r = (ap_runs st = 1) \<and> sr_event r = sr_event (ap_result st) \<and>
     (err' = None \<longleftrightarrow> sr_confirmed r) \<and>
     (sr_confirmed r \<longrightarrow> ap_completed st \<and> ap_runs st = 1 \<and> state = sr_to r \<and>
        sr_from r = sr_from (ap_result st) \<and> sr_to r = sr_to (ap_result st) \<and>
        sr_transitionError r = None \<and> sr_transitionError (ap_result st) = None \<and> key_ok K state)"
  using assms unfolding apply_checks_def apply_inv_def contract_error_def
  by (auto simp: Let_def errors_join_Some split: if_splits option.splits)

section \<open>A store that keeps the contract\<close>

text \<open>
  The contract of \<^verbatim>\<open>Store\<close>: call step once; after a failed step return an error, after a
  successful one return its state or an error, after a panic or a stop abort and pass it on.
\<close>

definition accepts ::
    "('s, 'e, 's \<times> ('s, 'e) err option) outcome \<Rightarrow> ('s, 'e, 's \<times> ('s, 'e) err option) outcome \<Rightarrow>
      bool" where
  "accepts out final =
     (case final of
        Ret (s, None) \<Rightarrow> out = Ret (s, None)
      | Ret (s, Some e) \<Rightarrow> (\<exists>r. out = Ret r)
      | Panic v \<Rightarrow> out = Panic v \<or> (\<exists>r. out = Ret r)
      | Goexit \<Rightarrow> out = Goexit \<or> (\<exists>r. out = Ret r))"

inductive finishes ::
    "('s, 'e, 's \<times> ('s, 'e) err option) outcome \<Rightarrow> ('s, 'e, 'c, 'x, 'w) store_run \<Rightarrow> bool"
    for out where
  finish_return: "accepts out (Ret (s, err)) \<Longrightarrow> finishes out (SReturn s err)"
| finish_panic: "accepts out (Panic v) \<Longrightarrow> finishes out (SPanic v)"
| finish_goexit: "accepts out Goexit \<Longrightarrow> finishes out SGoexit"
| finish_do: "(\<And>w w1 t. f w = (w1, t) \<Longrightarrow> finishes out t) \<Longrightarrow> finishes out (SDo f)"

inductive honours :: "('s, 'e, 'c, 'x, 'w) store_run \<Rightarrow> bool" where
  honour_error: "honours (SReturn s (Some e))"
| honour_panic: "honours (SPanic v)"
| honour_goexit: "honours SGoexit"
| honour_do: "(\<And>w w1 t. f w = (w1, t) \<Longrightarrow> honours t) \<Longrightarrow> honours (SDo f)"
| honour_step: "(\<And>out. finishes out (k out)) \<Longrightarrow> honours (SStep c s x k)"

inductive_simps finishes_simps [simp]:
  "finishes out (SReturn s err)" "finishes out (SPanic v)" "finishes out SGoexit"
  "finishes out (SDo f)" "finishes out (SStep c s x k)"

inductive_simps honours_simps [simp]:
  "honours (SReturn s err)" "honours (SPanic v)" "honours SGoexit"
  "honours (SDo f)" "honours (SStep c s x k)"

lemma run_store_finishes:
  "finishes out t \<Longrightarrow> run_store step t st w = (st', w', final) \<Longrightarrow> st' = st \<and> accepts out final"
  by (induction arbitrary: w rule: finishes.induct) (auto split: prod.splits)

text \<open>The first call of step sets started, and completed exactly when it returned.\<close>

lemma apply_step_first:
  assumes "apply_step K L now zeroT m event data ctx from unit st w = (st', w', out)"
    and "\<not> ap_started st" and "\<not> ap_completed st"
  shows "ap_started st' \<and> ap_repeated st' = ap_repeated st \<and>
     (ap_completed st' \<longleftrightarrow> (\<exists>r. out = Ret r)) \<and>
     (\<forall>to err. out = Ret (to, err) \<longrightarrow>
        sr_to (ap_result st') = to \<and> sr_transitionError (ap_result st') = err)"
proof -
  obtain w1 d where d: "(case data of None \<Rightarrow> ret zeroT | Some f \<Rightarrow> f unit) w = (w1, d)"
    by fastforce
  with assms show ?thesis
    unfolding apply_step_def
    by (cases d) (auto simp: Let_def split: if_splits prod.splits outcome.splits)
qed

lemma run_store_honours:
  "honours t \<Longrightarrow> \<not> ap_started st \<Longrightarrow> \<not> ap_completed st \<Longrightarrow> \<not> ap_repeated st \<Longrightarrow>
     run_store (apply_step K L now zeroT m event data) t st w = (st', w', Ret (s, err)) \<Longrightarrow>
     \<not> ap_repeated st' \<and> (ap_started st' \<longrightarrow> ap_completed st') \<and>
     (err = None \<longrightarrow> ap_started st' \<and> sr_to (ap_result st') = s \<and>
        sr_transitionError (ap_result st') = None)"
proof (induction arbitrary: st w rule: honours.induct)
  case (honour_do f)
  then show ?case by (fastforce split: prod.splits)
next
  case (honour_step k c src x)
  obtain st1 w1 o1 where
    step: "apply_step K L now zeroT m event data c src x st w = (st1, w1, o1)"
    by (metis prod_cases3)
  have run: "run_store (apply_step K L now zeroT m event data) (k o1) st1 w1 = (st', w', Ret (s, err))"
    using honour_step.prems step by simp
  have "st' = st1" "accepts o1 (Ret (s, err))"
    using run_store_finishes [OF honour_step.hyps run] by auto
  moreover note apply_step_first [OF step honour_step.prems(1,2)]
  ultimately show ?case
    using honour_step.prems(3) by (auto simp: accepts_def split: option.splits)
qed auto

lemma apply_checks_honoured:
  assumes "\<not> ap_repeated st" "ap_started st \<longrightarrow> ap_completed st"
    and "err = None \<longrightarrow> ap_started st \<and> sr_to (ap_result st) = s \<and>
      sr_transitionError (ap_result st) = None \<and> key_ok K s"
    and "\<not> sr_confirmed (ap_result st)"
  shows "apply_checks K st s err = (s, (ap_result st)\<lparr>sr_confirmed := err = None\<rparr>, err)"
  using assms by (cases "ap_result st") (auto simp: apply_checks_def Let_def)

end
