(* ===== verification/Memory_Store.thy ===== *)
theory Memory_Store
  imports Persist
begin

text \<open>
  \<^verbatim>\<open>persist/memory.go\<close>: the versioned in-memory store.

  The store's entries are the part \<open>mem_entries\<close> of the world its callers share, since a
  transition callback may use the store itself. \<open>memory_Load\<close> and \<open>memory_commit\<close> are the two
  lock regions; \<open>memory_Update\<close> is the \<open>store_run\<close> around the step. The context is a parameter:
  \<open>ctx_err\<close> is what \<^verbatim>\<open>ctx.Err()\<close> returns in a given world.

  \<open>versioned\<close> is the contract of a conditional commit. Its client runs any schedule of loads and
  commits of any number of transactions (\<open>run_schedule\<close>); the locale's lemma is that the
  commits to a key form a chain, each starting from the state the one before it left, as long as
  the revision has not wrapped. The store's own definitions are an instance.
\<close>

section \<open>The store\<close>

record 's snapshot =
  sn_State :: 's
  sn_Revision :: u64

record 'k memory_unit =
  mu_Key :: 'k
  mu_Revision :: u64

record ('k, 's, 'v) mem_world =
  mem_entries :: "'k \<rightharpoonup> 's snapshot"
  mem_rest :: 'v

text \<open>The initial map in the order the range loop visits it. A Go map can hold several keys that
  differ from themselves, so it is a list of pairs.\<close>

fun new_entries ::
    "'k keyops \<Rightarrow> ('k \<times> 's) list \<Rightarrow> ('k \<rightharpoonup> 's snapshot) \<Rightarrow> ('s, 'e) err + ('k \<rightharpoonup> 's snapshot)" where
  "new_entries KK [] entries = Inr entries"
| "new_entries KK ((key, state) # rest) entries =
     (if \<not> key_ok KK key then Inl (Sentinel ErrInvalidStoreKey)
      else new_entries KK rest (entries(key \<mapsto> \<lparr>sn_State = state, sn_Revision = 0\<rparr>)))"

definition NewMemoryStoreChecked ::
    "'k keyops \<Rightarrow> ('k \<times> 's) list \<Rightarrow> ('s, 'e) err + ('k \<rightharpoonup> 's snapshot)" where
  "NewMemoryStoreChecked KK initial = new_entries KK initial Map.empty"

definition NewMemoryStore ::
    "'k keyops \<Rightarrow> ('k \<times> 's) list \<Rightarrow> ('s, 'e, 'k \<rightharpoonup> 's snapshot) outcome" where
  "NewMemoryStore KK initial =
     (case NewMemoryStoreChecked KK initial of Inl err \<Rightarrow> Panic (PErr err) | Inr store \<Rightarrow> Ret store)"

definition memory_Load ::
    "('c \<Rightarrow> ('k, 's, 'v) mem_world \<Rightarrow> ('s, 'e) err option) \<Rightarrow> 'k keyops \<Rightarrow> 'c \<Rightarrow> 'k \<Rightarrow>
      ('k, 's, 'v) mem_world \<Rightarrow> ('s, 'e) err + 's snapshot" where
  "memory_Load ctx_err KK ctx key w =
     (case ctx_err ctx w of
        Some err \<Rightarrow> Inl err
      | None \<Rightarrow>
          if \<not> key_ok KK key then Inl (Sentinel ErrInvalidStoreKey)
          else case mem_entries w key of
            None \<Rightarrow> Inl (Sentinel ErrNotFound)
          | Some snapshot \<Rightarrow> Inr snapshot)"

text \<open>The conditional commit; a missing entry reads as the zero Snapshot.\<close>

definition memory_commit ::
    "'s \<Rightarrow> 'k \<Rightarrow> 's snapshot \<Rightarrow> 's \<Rightarrow> ('k \<rightharpoonup> 's snapshot) \<Rightarrow>
      ('k \<rightharpoonup> 's snapshot) \<times> 's \<times> ('s, 'e) err option" where
  "memory_commit zero key before next entries =
     (let current = (case entries key of
                       None \<Rightarrow> \<lparr>sn_State = zero, sn_Revision = 0\<rparr> | Some s \<Rightarrow> s) in
      if sn_Revision current \<noteq> sn_Revision before
      then (entries, sn_State current,
            Some (ConflictError (sn_Revision before) (sn_Revision current)))
      else (entries(key \<mapsto> \<lparr>sn_State = next, sn_Revision = sn_Revision before + 1\<rparr>), next, None))"

definition after_step ::
    "('c \<Rightarrow> ('k, 's, 'v) mem_world \<Rightarrow> ('s, 'e) err option) \<Rightarrow> 's \<Rightarrow> 'c \<Rightarrow> 'k \<Rightarrow> 's snapshot \<Rightarrow>
      ('s, 'e, 's \<times> ('s, 'e) err option) outcome \<Rightarrow>
      ('s, 'e, 'c, 'x, ('k, 's, 'v) mem_world) store_run" where
  "after_step ctx_err zero ctx key before out =
     (case out of
        Panic v \<Rightarrow> SPanic v
      | Goexit \<Rightarrow> SGoexit
      | Ret (next, Some err) \<Rightarrow> SReturn (sn_State before) (Some err)
      | Ret (next, None) \<Rightarrow>
          SDo (\<lambda>w. case ctx_err ctx w of
            Some err \<Rightarrow> (w, SReturn (sn_State before) (Some err))
          | None \<Rightarrow>
              (w, SDo (\<lambda>w. case memory_commit zero key before next (mem_entries w) of
                 (entries, state, err) \<Rightarrow> (w\<lparr>mem_entries := entries\<rparr>, SReturn state err)))))"

definition memory_Update ::
    "('c \<Rightarrow> ('k, 's, 'v) mem_world \<Rightarrow> ('s, 'e) err option) \<Rightarrow> 'k keyops \<Rightarrow> 's \<Rightarrow>
      ('k, 's, 'e, 'c, 'k memory_unit, ('k, 's, 'v) mem_world) store" where
  "memory_Update ctx_err KK zero ctx key =
     SDo (\<lambda>w. case memory_Load ctx_err KK ctx key w of
        Inl err \<Rightarrow> (w, SReturn zero (Some err))
      | Inr before \<Rightarrow>
          (w, SStep ctx (sn_State before) \<lparr>mu_Key = key, mu_Revision = sn_Revision before\<rparr>
                (after_step ctx_err zero ctx key before)))"

section \<open>Construction\<close>

lemma new_entries_lookup:
  "distinct (map fst initial) \<Longrightarrow>
     case new_entries KK initial entries of
       Inl err \<Rightarrow> err = Sentinel ErrInvalidStoreKey \<and> (\<exists>p \<in> set initial. \<not> key_ok KK (fst p))
     | Inr m \<Rightarrow> (\<forall>p \<in> set initial. key_ok KK (fst p)) \<and>
         m = entries ++ (\<lambda>k. map_option (\<lambda>s. \<lparr>sn_State = s, sn_Revision = 0\<rparr>) (map_of initial k))"
proof (induction initial arbitrary: entries)
  case (Cons p initial)
  obtain key s where p: "p = (key, s)" by (cases p)
  let ?s = "\<lparr>sn_State = s, sn_Revision = 0\<rparr>"
  let ?f = "\<lambda>ps k. map_option (\<lambda>s. \<lparr>sn_State = s, sn_Revision = 0\<rparr>) (map_of ps k)"
  have "map_of initial key = None"
    using Cons.prems p by (simp add: map_of_eq_None_iff)
  then have "entries(key \<mapsto> ?s) ++ ?f initial = entries ++ ?f (p # initial)"
    using p by (auto simp: map_add_def fun_eq_iff split: option.splits)
  then show ?case
    using Cons.IH [of "entries(key \<mapsto> ?s)"] Cons.prems p
    by (auto split: sum.splits simp del: fun_upd_apply)
qed simp

section \<open>The store keeps the contract\<close>

lemma memory_commit_accepts:
  "memory_commit zero key before next entries = (entries', state, err) \<Longrightarrow>
     accepts (Ret (next, None)) (Ret (state, err))"
  by (auto simp: memory_commit_def accepts_def Let_def split: if_splits option.splits)

lemmas memory_commit_accepts' = memory_commit_accepts [unfolded accepts_def, simplified]

lemma after_step_finishes: "finishes out (after_step ctx_err zero ctx key before out)"
  by (auto simp: after_step_def accepts_def dest: memory_commit_accepts'
      split: outcome.splits option.splits prod.splits)

lemma memory_Update_honours: "honours (memory_Update ctx_err KK zero ctx key)"
  by (auto simp: memory_Update_def after_step_finishes split: sum.splits)

section \<open>Schedules of loads and conditional commits\<close>

text \<open>Transaction \<open>g\<close> loads a key, later (its callbacks run in between) commits a state for it.\<close>

datatype ('k, 's) vop = VLoad nat 'k | VCommit nat 's

record ('m, 'k, 's) vsys =
  vs_store :: 'm
  vs_tx :: "nat \<rightharpoonup> 'k \<times> 's \<times> u64"
  vs_log :: "('k \<times> 's \<times> 's) list"

definition vstep ::
    "('m \<Rightarrow> 'k \<rightharpoonup> 's \<times> u64) \<Rightarrow> ('m \<Rightarrow> 'k \<Rightarrow> 's \<times> u64 \<Rightarrow> 's \<Rightarrow> 'm option) \<Rightarrow>
      ('k, 's) vop \<Rightarrow> ('m, 'k, 's) vsys \<Rightarrow> ('m, 'k, 's) vsys" where
  "vstep load commit op v =
     (case op of
        VLoad g k \<Rightarrow> v\<lparr>vs_tx := (vs_tx v)(g := map_option (Pair k) (load (vs_store v) k))\<rparr>
      | VCommit g s' \<Rightarrow>
          (case vs_tx v g of
             None \<Rightarrow> v
           | Some (k, before) \<Rightarrow>
               (case commit (vs_store v) k before s' of
                  None \<Rightarrow> v\<lparr>vs_tx := (vs_tx v)(g := None)\<rparr>
                | Some m \<Rightarrow> v\<lparr>vs_store := m, vs_tx := (vs_tx v)(g := None),
                              vs_log := vs_log v @ [(k, fst before, s')]\<rparr>)))"

definition run_schedule ::
    "('m \<Rightarrow> 'k \<rightharpoonup> 's \<times> u64) \<Rightarrow> ('m \<Rightarrow> 'k \<Rightarrow> 's \<times> u64 \<Rightarrow> 's \<Rightarrow> 'm option) \<Rightarrow>
      ('k, 's) vop list \<Rightarrow> 'm \<Rightarrow> ('m, 'k, 's) vsys" where
  "run_schedule load commit ops m =
     fold (vstep load commit) ops \<lparr>vs_store = m, vs_tx = Map.empty, vs_log = []\<rparr>"

definition commits_of :: "'k \<Rightarrow> ('k \<times> 's \<times> 's) list \<Rightarrow> ('s \<times> 's) list" where
  "commits_of k log = map snd (filter (\<lambda>p. fst p = k) log)"

lemma commits_of_snoc [simp]:
  "commits_of k (log @ [(k', p)]) = commits_of k log @ (if k' = k then [p] else [])"
  by (simp add: commits_of_def)

fun chained :: "'s \<Rightarrow> ('s \<times> 's) list \<Rightarrow> 's \<Rightarrow> bool" where
  "chained s [] s' \<longleftrightarrow> s = s'"
| "chained s ((a, b) # cs) s' \<longleftrightarrow> a = s \<and> chained b cs s'"

lemma chained_snoc [simp]: "chained s (cs @ [(a, b)]) s' \<longleftrightarrow> chained s cs a \<and> b = s'"
  by (induction s cs s' rule: chained.induct) auto

locale versioned =
  fixes load :: "'m \<Rightarrow> 'k \<rightharpoonup> 's \<times> u64"
    and commit :: "'m \<Rightarrow> 'k \<Rightarrow> 's \<times> u64 \<Rightarrow> 's \<Rightarrow> 'm option"
  assumes commit_current:
      "commit m k before s' = Some m' \<Longrightarrow> load m k = Some (s, r) \<Longrightarrow> snd before = r"
    and commit_possible:
      "load m k = Some (s, r) \<Longrightarrow> snd before = r \<Longrightarrow> commit m k before s' \<noteq> None"
    and load_committed:
      "commit m k before s' = Some m' \<Longrightarrow> load m k \<noteq> None \<Longrightarrow> load m' k = Some (s', snd before + 1)"
    and load_other:
      "commit m k before s' = Some m' \<Longrightarrow> k' \<noteq> k \<Longrightarrow> load m' k' = load m k'"
begin

text \<open>Revision \<open>n\<close> after the start names the state after the first \<open>n\<close> commits to the key.\<close>

definition key_inv :: "'m \<Rightarrow> 'm \<Rightarrow> ('s \<times> 's) list \<Rightarrow> 'k \<Rightarrow> bool" where
  "key_inv m0 m cs k \<longleftrightarrow>
     (case load m0 k of
        None \<Rightarrow> load m k = None \<and> cs = []
      | Some (s0, r0) \<Rightarrow> load m k \<noteq> None \<and>
          (length cs \<le> 2 ^ 64 \<longrightarrow>
           (\<exists>s. load m k = Some (s, r0 + of_nat (length cs)) \<and> chained s0 cs s)))"

definition tx_inv :: "'m \<Rightarrow> ('s \<times> 's) list \<Rightarrow> 'k \<Rightarrow> 's \<times> u64 \<Rightarrow> bool" where
  "tx_inv m0 cs k before \<longleftrightarrow>
     (case load m0 k of
        None \<Rightarrow> False
      | Some (s0, r0) \<Rightarrow> length cs \<le> 2 ^ 64 \<longrightarrow>
          (\<exists>n \<le> length cs. snd before = r0 + of_nat n \<and> chained s0 (take n cs) (fst before)))"

definition vinv :: "'m \<Rightarrow> ('m, 'k, 's) vsys \<Rightarrow> bool" where
  "vinv m0 v \<longleftrightarrow>
     (\<forall>k. key_inv m0 (vs_store v) (commits_of k (vs_log v)) k) \<and>
     (\<forall>g k before. vs_tx v g = Some (k, before) \<longrightarrow> tx_inv m0 (commits_of k (vs_log v)) k before)"

lemma tx_inv_loaded:
  "key_inv m0 m cs k \<Longrightarrow> load m k = Some before \<Longrightarrow> tx_inv m0 cs k before"
  by (auto simp: key_inv_def tx_inv_def split: option.splits)

lemma tx_inv_snoc: "tx_inv m0 cs k before \<Longrightarrow> tx_inv m0 (cs @ [c]) k before"
proof -
  have "P (take n cs) \<Longrightarrow> n \<le> length cs \<Longrightarrow> P (take n (cs @ [c])) \<and> n \<le> length (cs @ [c])" for P n
    by simp
  then have ex: "(\<exists>n \<le> length cs. Q n \<and> P (take n cs)) \<Longrightarrow>
      (\<exists>n \<le> length (cs @ [c]). Q n \<and> P (take n (cs @ [c])))" for P Q
    by blast
  assume "tx_inv m0 cs k before"
  then show ?thesis
    unfolding tx_inv_def
    by (cases "load m0 k") (auto simp del: take_append dest!: ex)
qed

lemma key_inv_commit:
  assumes "key_inv m0 m cs k" "tx_inv m0 cs k before" "commit m k before s' = Some m'"
  shows "key_inv m0 m' (cs @ [(fst before, s')]) k"
proof -
  obtain s0 r0 where l0: "load m0 k = Some (s0, r0)"
    using assms(2) by (auto simp: tx_inv_def split: option.splits)
  then have now: "load m k \<noteq> None" using assms(1) by (simp add: key_inv_def)
  note after = load_committed [OF assms(3) now]
  have "chained s0 (cs @ [(fst before, s')]) s' \<and> snd before = r0 + of_nat (length cs)"
    if len: "length cs < 2 ^ 64"
  proof -
    obtain s where s: "load m k = Some (s, r0 + of_nat (length cs))"
      using assms(1) l0 len by (auto simp: key_inv_def)
    obtain n where n: "n \<le> length cs" "snd before = r0 + of_nat n"
      "chained s0 (take n cs) (fst before)"
      using assms(2) l0 len by (auto simp: tx_inv_def)
    have "(of_nat n :: u64) = of_nat (length cs)"
      using commit_current [OF assms(3) s] n(2) by simp
    then have "n = length cs"
      using n(1) len by (simp add: word_of_nat_eq_iff take_bit_nat_eq_self)
    with n show ?thesis by simp
  qed
  then show ?thesis
    using l0 after by (auto simp: key_inv_def add.assoc)
qed

lemma vinv_vstep: "vinv m0 v \<Longrightarrow> vinv m0 (vstep load commit op v)"
proof (cases op)
  case (VLoad g k)
  assume "vinv m0 v"
  with VLoad show ?thesis
    by (auto simp: vinv_def vstep_def intro: tx_inv_loaded)
next
  case (VCommit g s')
  assume inv: "vinv m0 v"
  show ?thesis
  proof (cases "\<exists>k before m'. vs_tx v g = Some (k, before) \<and> commit (vs_store v) k before s' = Some m'")
    case False
    with inv VCommit show ?thesis
      by (auto simp: vinv_def vstep_def split: option.splits)
  next
    case True
    then obtain k before m' where
      tx: "vs_tx v g = Some (k, before)" and c: "commit (vs_store v) k before s' = Some m'"
      by blast
    have k: "key_inv m0 m' (commits_of k (vs_log v) @ [(fst before, s')]) k"
      using inv tx unfolding vinv_def by (intro key_inv_commit [OF _ _ c]) blast+
    have "key_inv m0 m' cs k' = key_inv m0 (vs_store v) cs k'" if "k' \<noteq> k" for k' cs
      using load_other [OF c that] by (simp add: key_inv_def cong: option.case_cong)
    then have "key_inv m0 m' (commits_of k' (vs_log v)) k'" if "k' \<noteq> k" for k'
      using inv that unfolding vinv_def by blast
    with k inv tx c VCommit show ?thesis
      by (auto simp: vinv_def vstep_def tx_inv_snoc)
  qed
qed

lemma vinv_run: "vinv m0 (run_schedule load commit ops m0)"
proof -
  have "vinv m0 v \<Longrightarrow> vinv m0 (fold (vstep load commit) ops v)" for v
    by (induction ops arbitrary: v) (auto intro: vinv_vstep)
  moreover have "vinv m0 \<lparr>vs_store = m0, vs_tx = Map.empty, vs_log = []\<rparr>"
    by (auto simp: vinv_def key_inv_def commits_of_def split: option.splits)
  ultimately show ?thesis by (simp add: run_schedule_def)
qed

lemma no_lost_update:
  assumes "load m0 k = Some (s0, r0)" and "v = run_schedule load commit ops m0"
    and "length (commits_of k (vs_log v)) \<le> 2 ^ 64"
  shows "\<exists>s. load (vs_store v) k = Some (s, r0 + of_nat (length (commits_of k (vs_log v)))) \<and>
     chained s0 (commits_of k (vs_log v)) s"
proof -
  have "key_inv m0 (vs_store v) (commits_of k (vs_log v)) k"
    using vinv_run [of m0 ops] by (simp add: vinv_def assms(2))
  with assms show ?thesis by (simp add: key_inv_def)
qed

end

text \<open>The store's lock regions are such a pair of operations.\<close>

definition mem_lookup :: "('k \<rightharpoonup> 's snapshot) \<Rightarrow> 'k \<rightharpoonup> 's \<times> u64" where
  "mem_lookup entries key = map_option (\<lambda>s. (sn_State s, sn_Revision s)) (entries key)"

definition mem_put ::
    "'s \<Rightarrow> ('k \<rightharpoonup> 's snapshot) \<Rightarrow> 'k \<Rightarrow> 's \<times> u64 \<Rightarrow> 's \<Rightarrow> ('k \<rightharpoonup> 's snapshot) option" where
  "mem_put zero entries key before next =
     (case (memory_commit zero key \<lparr>sn_State = fst before, sn_Revision = snd before\<rparr> next entries
          :: _ \<times> _ \<times> ('s, unit) err option) of
        (entries', state, None) \<Rightarrow> Some entries'
      | (entries', state, Some err) \<Rightarrow> None)"

interpretation mem: versioned mem_lookup "mem_put zero" for zero
  by unfold_locales
     (auto simp: mem_lookup_def mem_put_def memory_commit_def Let_def split: if_splits option.splits)

section \<open>A transition through the store\<close>

lemma apply_step_new:
  assumes "apply_step K L now zeroT m event data ctx src unit (new_apply zero event) w = (st', w', out)"
  shows "\<not> ap_repeated st' \<and> ap_started st' \<and> \<not> sr_confirmed (ap_result st') \<and>
     (ap_completed st' \<longleftrightarrow> (\<exists>r. out = Ret r))"
  using apply_step_first [OF assms] apply_step_inv [OF new_apply_inv assms]
  by (auto simp: new_apply_def apply_inv_def)

text \<open>A successful Fire ends with the commit: the key holds the returned state at the revision
  after the loaded one.\<close>

lemma memory_Update_commits:
  assumes "run_store (apply_step K L now zeroT m event data)
      (memory_Update ctx_err KK zero ctx key) (new_apply zero event) w = (st, w', Ret (state, None))"
  shows "\<exists>before w1. memory_Load ctx_err KK ctx key w = Inr before \<and>
     mem_entries w' key = Some \<lparr>sn_State = state, sn_Revision = sn_Revision before + 1\<rparr> \<and>
     sr_from (ap_result st) = sn_State before"
proof -
  obtain before where l: "memory_Load ctx_err KK ctx key w = Inr before"
    using assms by (auto simp: memory_Update_def split: sum.splits)
  let ?step = "apply_step K L now zeroT m event data"
  let ?unit = "\<lparr>mu_Key = key, mu_Revision = sn_Revision before\<rparr>"
  obtain st1 w1 o1 where
    step: "?step ctx (sn_State before) ?unit (new_apply zero event) w = (st1, w1, o1)"
    by (metis prod_cases3)
  have run: "run_store ?step (after_step ctx_err zero ctx key before o1) st1 w1 =
      (st, w', Ret (state, None))"
    using assms l step by (simp add: memory_Update_def)
  then obtain dest where o1: "o1 = Ret (dest, None)"
    by (auto simp: after_step_def split: outcome.splits option.splits)
  have "ap_completed st1" using apply_step_new [OF step] o1 by simp
  then have "sr_from (ap_result st1) = sn_State before"
    using apply_step_runs [OF step new_apply_inv] by (auto simp: new_apply_def)
  with run o1 l show ?thesis
    by (auto simp: after_step_def memory_commit_def Let_def split: option.splits prod.splits if_splits)
qed

section \<open>A small store\<close>

definition mem_demo_machine :: "(nat, nat, unit, nat, (nat, nat, unit) mem_world) machine" where
  "mem_demo_machine = table_machine demo_keys demo_keys
     [\<lparr>t_from = 0, t_event = 0, t_to = 2, t_guard = None, t_do = None\<rparr>]"

definition mem_demo_world :: "(nat, nat, unit) mem_world" where
  "mem_demo_world =
     \<lparr>mem_entries = Map.empty(3 \<mapsto> \<lparr>sn_State = 0, sn_Revision = 6\<rparr>), mem_rest = ()\<rparr>"

definition mem_demo_end :: "(nat, nat, unit) mem_world" where
  "mem_demo_end =
     \<lparr>mem_entries = Map.empty(3 \<mapsto> \<lparr>sn_State = 2, sn_Revision = 7\<rparr>), mem_rest = ()\<rparr>"

definition mem_demo_store ::
    "(nat, nat, nat, unit, nat memory_unit, (nat, nat, unit) mem_world) store" where
  "mem_demo_store = memory_Update (\<lambda>_ _. None) demo_keys 0"

lemma mem_demo_run:
  "\<exists>st. run_store (apply_step demo_keys demo_keys (\<lambda>_. 0) 0 (Some mem_demo_machine) 0 None)
      (mem_demo_store () 3) (new_apply 0 0) mem_demo_world = (st, mem_demo_end, Ret (2, None))"
  by (simp add: mem_demo_store_def memory_Update_def memory_Load_def mem_demo_world_def demo_keys_def
      apply_step_def new_apply_def Let_def act_simps Fire_def newInstance_def mem_demo_machine_def
      fire_def selectTransition_def table_rows_def row_key_def run_do_def fire_publish_def
      fire_end_def Copy_def after_step_def memory_commit_def mem_demo_end_def)

lemma mem_demo_honours: "honours (mem_demo_store () 3)"
  unfolding mem_demo_store_def by (rule memory_Update_honours)

lemma mem_demo_apply:
  "\<exists>result. persist_apply demo_keys demo_keys demo_keys (\<lambda>_. 0) 0 0 () (Some mem_demo_store) 3
      (Some mem_demo_machine) 0 None mem_demo_world = (mem_demo_end, Ret (2, result, None))"
proof -
  obtain st where run: "run_store (apply_step demo_keys demo_keys (\<lambda>_. 0) 0 (Some mem_demo_machine) 0 None)
      (mem_demo_store () 3) (new_apply 0 0) mem_demo_world = (st, mem_demo_end, Ret (2, None))"
    using mem_demo_run by blast
  have "apply_checks demo_keys st 2 None = (2, (ap_result st)\<lparr>sr_confirmed := True\<rparr>, None)"
    using run_store_honours [OF mem_demo_honours _ _ _ run] run_store_inv [OF new_apply_inv run]
      apply_checks_honoured [of st None 2 demo_keys]
    by (simp add: new_apply_def apply_inv_def demo_keys_def)
  with run show ?thesis by (simp add: persist_apply_def demo_keys_def)
qed

section \<open>Properties\<close>

text \<open>C30. Whatever the store does (never calling the step, repeating it, swallowing its panic,
  returning another state), a call that returns ran the machine at most once, reports an attempt
  exactly when it ran, and succeeds exactly when the result is confirmed: then the returned state
  is a valid key and is the destination that one Fire of the machine on the loaded state returned
  with a nil error.\<close>

theorem persist_success_is_one_transition:
  assumes "key_ok KK key"
    and "run_store (apply_step K L now zeroT m event data) (update ctx key) (new_apply zero event) w =
      (st, w', Ret (s, e))"
  shows "\<exists>state result err.
     persist_apply KK K L now zero zeroT ctx (Some update) key m event data w =
       (w', Ret (state, result, err)) \<and>
     ap_runs st \<le> 1 \<and> sr_attempted result = (ap_runs st = 1) \<and> sr_event result = event \<and>
     (err = None \<longleftrightarrow> sr_confirmed result) \<and>
     (err = None \<longrightarrow> ap_runs st = 1 \<and> key_ok K state \<and> state = sr_to result \<and>
        (\<exists>c v w1 i' w2. Fire K L now (newInstance m (sr_from result) []) c event v w1 =
           (i', w2, Ret (state, None))))"
proof -
  have inv: "apply_inv st" using run_store_inv [OF new_apply_inv assms(2)] .
  have fd: "(ap_completed st \<longrightarrow> fired K L now m event (ap_result st)) \<and>
      sr_event (ap_result st) = event"
    using run_store_fired [OF new_apply_inv _ assms(2)] by (simp add: new_apply_def)
  obtain state r err where c: "apply_checks K st s e = (state, r, err)"
    by (metis prod_cases3)
  have "persist_apply KK K L now zero zeroT ctx (Some update) key m event data w =
      (w', Ret (state, r, err))"
    using assms c by (simp add: persist_apply_def)
  moreover have ok: "state = s" "sr_attempted r = (ap_runs st = 1)" "sr_event r = event"
      "err = None \<longleftrightarrow> sr_confirmed r"
      "sr_confirmed r \<longrightarrow> ap_completed st \<and> ap_runs st = 1 \<and> state = sr_to r \<and>
        sr_from r = sr_from (ap_result st) \<and> sr_to r = sr_to (ap_result st) \<and>
        sr_transitionError (ap_result st) = None \<and> key_ok K state"
    using apply_checks_ok [OF inv, where K = K and state = s and err = e] c fd by auto
  moreover have "\<exists>c v w1 i' w2. Fire K L now (newInstance m (sr_from r) []) c event v w1 =
      (i', w2, Ret (state, None))" if "err = None"
  proof -
    have "sr_to (ap_result st) = state" "sr_from r = sr_from (ap_result st)"
      using ok that by auto
    moreover have "ap_completed st" "sr_transitionError (ap_result st) = None"
      using ok that by auto
    ultimately show ?thesis using fd unfolding fired_def by metis
  qed
  moreover have "ap_runs st \<le> 1" using inv by (simp add: apply_inv_def)
  moreover have "err = None \<longrightarrow> ap_runs st = 1 \<and> key_ok K state \<and> state = sr_to r"
    using ok by auto
  ultimately show ?thesis
    by (intro exI [of _ state] exI [of _ r] exI [of _ err]) simp
qed

theorem persist_success_is_one_transition_witness:
  "\<exists>result. persist_apply demo_keys demo_keys demo_keys (\<lambda>_. 0) 0 0 () (Some mem_demo_store) 3
      (Some mem_demo_machine) 0 None mem_demo_world = (mem_demo_end, Ret (2, result, None)) \<and>
     sr_confirmed result \<and> sr_to result = 2"
proof -
  obtain st where run: "run_store (apply_step demo_keys demo_keys (\<lambda>_. 0) 0 (Some mem_demo_machine) 0 None)
      (mem_demo_store () 3) (new_apply 0 0) mem_demo_world = (st, mem_demo_end, Ret (2, None))"
    using mem_demo_run by blast
  have key: "key_ok demo_keys (3::nat)" by (simp add: demo_keys_def)
  show ?thesis
    using persist_success_is_one_transition [where update = mem_demo_store and ctx = "()" and key = 3,
        OF key run] mem_demo_apply
    by auto
qed



text \<open>C32. A successful Fire through the in-memory store is what Load reads next: the key holds the
  returned state, at the revision after the one the transition loaded.\<close>

theorem memory_fire_then_load:
  assumes "persist_Fire KK K L now zero zeroT ctx (Some (memory_Update ctx_err KK zero)) key m event data w =
      (w', Ret (state, None))"
    and "ctx_err ctx w' = None"
  shows "\<exists>before. memory_Load ctx_err KK ctx key w = Inr before \<and>
     memory_Load ctx_err KK ctx key w' =
       Inr \<lparr>sn_State = state, sn_Revision = sn_Revision before + 1\<rparr>"
proof -
  have key: "key_ok KK key"
    using assms(1) by (cases "key_ok KK key") (simp_all add: persist_Fire_def persist_apply_def act_simps)
  obtain st out where run: "run_store (apply_step K L now zeroT m event data)
      (memory_Update ctx_err KK zero ctx key) (new_apply zero event) w = (st, w', out)"
    and "\<exists>s e r. out = Ret (s, e) \<and> apply_checks K st s e = (state, r, None)"
    using assms key
    by (auto simp: persist_Fire_def persist_apply_def act_simps split: prod.splits outcome.splits)
  then have "out = Ret (state, None)"
    by (auto simp: apply_checks_def contract_error_def Let_def split: if_splits option.splits)
  with memory_Update_commits [OF run [unfolded this]] key assms(2) show ?thesis
    by (auto simp: memory_Load_def split: option.splits)
qed

theorem memory_fire_then_load_witness:
  "memory_Load (\<lambda>_ _. None) demo_keys () 3 mem_demo_end =
     (Inr \<lparr>sn_State = 2, sn_Revision = 7\<rparr> :: (nat, nat) err + nat snapshot)"
proof -
  have "persist_Fire demo_keys demo_keys demo_keys (\<lambda>_. 0) 0 0 ()
      (Some (memory_Update (\<lambda>_ _. None) demo_keys 0)) 3 (Some mem_demo_machine) 0 None mem_demo_world =
      (mem_demo_end, Ret (2, None))"
    using mem_demo_apply by (auto simp: persist_Fire_def act_simps mem_demo_store_def)
  from memory_fire_then_load [OF this] show ?thesis
    by (auto simp: memory_Load_def mem_demo_world_def demo_keys_def)
qed

text \<open>C33. No update is lost: in any schedule of loads and conditional commits of any number of
  transactions, the successful commits to a key form a chain from its initial to its current
  state, each made on the state the one before left, and the revision counts them, for up to
  2^64 commits to the key.\<close>

theorem memory_no_lost_update:
  assumes "mem_lookup entries key = Some (s0, r0)"
    and "v = run_schedule mem_lookup (mem_put zero) ops entries"
    and "length (commits_of key (vs_log v)) \<le> 2 ^ 64"
  shows "\<exists>s. mem_lookup (vs_store v) key =
       Some (s, r0 + of_nat (length (commits_of key (vs_log v)))) \<and>
     chained s0 (commits_of key (vs_log v)) s"
  by (rule mem.no_lost_update [OF assms])

theorem memory_no_lost_update_witness:
  "let v = run_schedule mem_lookup (mem_put 0) [VLoad 0 3, VLoad 2 3, VCommit 2 5, VCommit 0 4]
       (mem_entries mem_demo_world) in
     commits_of 3 (vs_log v) = [(0, 5)] \<and> mem_lookup (vs_store v) 3 = Some (5, 7)"
  using memory_no_lost_update [of "mem_entries mem_demo_world" 3 0 6 _ 0
      "[VLoad 0 3, VLoad 2 3, VCommit 2 5, VCommit 0 4]", OF _ refl]
  by (simp add: mem_demo_world_def mem_lookup_def run_schedule_def vstep_def mem_put_def
      memory_commit_def commits_of_def Let_def)

end
