(* ===== verification/Queued.thy ===== *)
theory Queued
  imports Instance
begin

text \<open>
  \<^verbatim>\<open>queued/queued.go\<close> and \<^verbatim>\<open>queued/observe.go\<close>: a runtime that serializes root events.

  The runtime's mutable fields live in \<open>qworld\<close>, next to the application's own world, because
  callbacks reach them: a callback may enqueue follow-ups, other goroutines may admit and cancel
  roots while it runs. The Machine and the observers never change and are parameters. The private
  Instance is its state, since only the drain goroutine fires it. A context is an application
  context and the execution value it carries; an execution names its owner, its cascade and
  whether it may enqueue. \<open>qenv\<close> is what the model takes from outside: the runtime's own
  identity, \<^verbatim>\<open>ctx.Err()\<close>, the activity of another runtime's execution, and the clock.

  \<open>run_root\<close> is one root's cascade. Its fuel is the run-event limit, which is enough, since an
  event is popped for each iteration and at most that many are ever accepted. Go's \<^verbatim>\<open>assign\<close> is
  not modelled: an Enqueue that reaches it passes values of the runtime's own types. Stacks are
  not modelled. \<open>q_nextRoot\<close>, \<open>q_started\<close> and \<open>q_cancelled\<close> are ghosts: the identity of the
  next root, the roots the drain goroutine has taken, in order, and those removed by their caller.
\<close>

section \<open>Contexts and cascades\<close>

record execution =
  x_owner :: nat
  x_cascade :: nat
  x_live :: bool

record 'c qctx =
  qc_base :: 'c
  qc_exec :: "execution option"

record ('e, 'c, 't) item =
  it_ctx :: "'c qctx"
  it_event :: 'e
  it_data :: 't

record ('e, 'c, 't) cascade =
  c_active :: bool
  c_pending :: "('e, 'c, 't) item list"
  c_accepted :: int
  c_maximum :: int

definition c_enqueue ::
    "'c qctx \<Rightarrow> 'e \<Rightarrow> 't \<Rightarrow> ('e, 'c, 't) cascade \<Rightarrow> ('e, 'c, 't) cascade \<times> ('s, 'e) err option" where
  "c_enqueue ctx event data c =
     (if \<not> c_active c then (c, Some (Sentinel ErrNotRunning))
      else if c_accepted c \<ge> c_maximum c then (c, Some (Sentinel ErrRunLimit))
      else (c\<lparr>c_pending := c_pending c @ [\<lparr>it_ctx = ctx, it_event = event, it_data = data\<rparr>],
              c_accepted := c_accepted c + 1\<rparr>, None))"

definition c_next :: "('e, 'c, 't) cascade \<Rightarrow> ('e, 'c, 't) cascade \<times> ('e, 'c, 't) item option" where
  "c_next c =
     (case c_pending c of
        [] \<Rightarrow> (c\<lparr>c_active := False\<rparr>, None)
      | i # rest \<Rightarrow> (c\<lparr>c_pending := rest\<rparr>, Some i))"

definition c_abort :: "('e, 'c, 't) cascade \<Rightarrow> ('e, 'c, 't) cascade" where
  "c_abort c = c\<lparr>c_active := False, c_pending := []\<rparr>"

section \<open>The runtime\<close>

record qlimits =
  MaxRoots :: int
  MaxRunEvents :: int

definition defaultLimits :: qlimits where
  "defaultLimits = \<lparr>MaxRoots = 1024, MaxRunEvents = 4096\<rparr>"

record ('e, 'c, 't) root =
  ro_id :: nat
  ro_ctx :: "'c qctx"
  ro_event :: 'e
  ro_data :: 't

record ('s, 'e) qoutcome =
  oc_state :: 's
  oc_err :: "('s, 'e) err option"
  oc_panic :: "('s, 'e) pval option"

record ('s, 'e, 'c, 't, 'v) qworld =
  q_state :: 's
  q_roots :: "('e, 'c, 't) root list"
  q_running :: bool
  q_limits :: qlimits
  q_rootCount :: int
  q_seq :: u64
  q_lastPanic :: "('e \<times> nat) option"
  q_cascades :: "nat \<Rightarrow> ('e, 'c, 't) cascade"
  q_runs :: nat
  q_results :: "nat \<rightharpoonup> ('s, 'e) qoutcome"
  q_nextRoot :: nat
  q_started :: "nat list"
  q_cancelled :: "nat set"
  q_app :: 'v

record ('s, 'e, 'c, 'v) qenv =
  qe_me :: nat
  qe_err :: "'c \<Rightarrow> 'v \<Rightarrow> ('s, 'e) err option"
  qe_other :: "execution \<Rightarrow> 'v \<Rightarrow> bool"
  qe_now :: "'v \<Rightarrow> nat"

type_synonym ('s, 'e, 'c, 't, 'v) qmachine =
  "('s, 'e, 'c qctx, 't, ('s, 'e, 'c, 't, 'v) qworld) machine"

type_synonym ('s, 'e, 'c, 't, 'v) qobserver =
  "('s, 'e, 'c qctx, 't, ('s, 'e, 'c, 't, 'v) qworld) flat_observer"

definition newRuntime ::
    "'s \<Rightarrow> qlimits \<Rightarrow> ('s, 'e, 'c, 't, 'v) qobserver option list \<Rightarrow> 'v \<Rightarrow>
      ('s, 'e, 'c, 't, 'v) qworld \<times> ('s, 'e, 'c, 't, 'v) qobserver list" where
  "newRuntime initial limits observers app =
     (\<lparr>q_state = initial, q_roots = [], q_running = False, q_limits = limits, q_rootCount = 0,
       q_seq = 0, q_lastPanic = None,
       q_cascades = (\<lambda>_. \<lparr>c_active = False, c_pending = [], c_accepted = 0, c_maximum = 0\<rparr>),
       q_runs = 0, q_results = Map.empty, q_nextRoot = 0, q_started = [], q_cancelled = {},
       q_app = app\<rparr>, Copy observers)"

definition queued_New ::
    "'s \<Rightarrow> 'v \<Rightarrow> ('s, 'e, 'c, 't, 'v) qworld \<times> ('s, 'e, 'c, 't, 'v) qobserver list" where
  "queued_New initial app = newRuntime initial defaultLimits [] app"

definition NewWithLimits ::
    "'s \<Rightarrow> qlimits \<Rightarrow> 'v \<Rightarrow>
      ('s, 'e) err + ('s, 'e, 'c, 't, 'v) qworld \<times> ('s, 'e, 'c, 't, 'v) qobserver list" where
  "NewWithLimits initial limits app =
     (if MaxRoots limits \<le> 0 \<or> MaxRunEvents limits \<le> 0 then Inl (Sentinel ErrInvalidLimits)
      else Inr (newRuntime initial limits [] app))"

definition NewWithOptions ::
    "'s \<Rightarrow> qlimits \<Rightarrow> ('s, 'e, 'c, 't, 'v) qobserver option list \<Rightarrow> 'v \<Rightarrow>
      ('s, 'e) err + ('s, 'e, 'c, 't, 'v) qworld \<times> ('s, 'e, 'c, 't, 'v) qobserver list" where
  "NewWithOptions initial limits observers app =
     (let limits = (if limits = \<lparr>MaxRoots = 0, MaxRunEvents = 0\<rparr> then defaultLimits else limits) in
      if MaxRoots limits \<le> 0 \<or> MaxRunEvents limits \<le> 0 then Inl (Sentinel ErrInvalidLimits)
      else Inr (newRuntime initial limits observers app))"

definition NewWithObservers ::
    "'s \<Rightarrow> ('s, 'e, 'c, 't, 'v) qobserver option list \<Rightarrow> 'v \<Rightarrow>
      ('s, 'e, 'c, 't, 'v) qworld \<times> ('s, 'e, 'c, 't, 'v) qobserver list" where
  "NewWithObservers initial observers app = newRuntime initial defaultLimits observers app"

record 's qstatus =
  qs_state :: 's
  qs_running :: bool
  qs_roots :: int
  qs_limits :: qlimits

definition queued_Status :: "('s, 'e, 'c, 't, 'v) qworld \<Rightarrow> 's qstatus" where
  "queued_Status w =
     (let limits = (if MaxRoots (q_limits w) = 0 then defaultLimits else q_limits w) in
      \<lparr>qs_state = q_state w, qs_running = q_running w, qs_roots = q_rootCount w,
       qs_limits = limits\<rparr>)"

section \<open>Entry points\<close>

definition base_err :: "('s, 'e, 'c, 'v) qenv \<Rightarrow> 'c qctx \<Rightarrow> ('s, 'e, 'c, 't, 'v) qworld \<Rightarrow>
    ('s, 'e) err option" where
  "base_err Q ctx w = qe_err Q (qc_base ctx) (q_app w)"

definition x_active :: "('s, 'e, 'c, 'v) qenv \<Rightarrow> execution \<Rightarrow> ('s, 'e, 'c, 't, 'v) qworld \<Rightarrow> bool" where
  "x_active Q x w =
     (if x_owner x = qe_me Q then c_active (q_cascades w (x_cascade x)) else qe_other Q x (q_app w))"

definition Enqueue ::
    "('s, 'e, 'c, 'v) qenv \<Rightarrow> 'c qctx \<Rightarrow> 'e \<Rightarrow> 't \<Rightarrow> ('s, 'e, 'c, 't, 'v) qworld \<Rightarrow>
      ('s, 'e, 'c, 't, 'v) qworld \<times> ('s, 'e) err option" where
  "Enqueue Q ctx event data w =
     (case qc_exec ctx of
        None \<Rightarrow> (w, Some (Sentinel ErrNotRunning))
      | Some x \<Rightarrow>
          if \<not> x_active Q x w then (w, Some (Sentinel ErrNotRunning))
          else if x_owner x \<noteq> qe_me Q then (w, Some (Sentinel ErrWrongRuntime))
          else if \<not> x_live x then (w, Some (Sentinel ErrNotRunning))
          else (case c_enqueue ctx event data (q_cascades w (x_cascade x)) of
                  (c, err) \<Rightarrow> (w\<lparr>q_cascades := (q_cascades w)(x_cascade x := c)\<rparr>, err)))"

text \<open>Fire up to the wait: refused, or admitted under an identity with the order to start the
  drain goroutine.\<close>

definition fire_admit ::
    "('s, 'e, 'c, 'v) qenv \<Rightarrow> 'c qctx \<Rightarrow> 'e \<Rightarrow> 't \<Rightarrow> ('s, 'e, 'c, 't, 'v) qworld \<Rightarrow>
      ('s, 'e, 'c, 't, 'v) qworld \<times> (('s \<times> ('s, 'e) err option) + (nat \<times> bool))" where
  "fire_admit Q ctx event data w =
     (if (case qc_exec ctx of None \<Rightarrow> False | Some x \<Rightarrow> x_active Q x w)
      then (w, Inl (q_state w, Some (Sentinel ErrReentrant)))
      else case base_err Q ctx w of
        Some err \<Rightarrow> (w, Inl (q_state w, Some err))
      | None \<Rightarrow>
          (let w = (if MaxRoots (q_limits w) = 0 then w\<lparr>q_limits := defaultLimits\<rparr> else w) in
           if q_rootCount w \<ge> MaxRoots (q_limits w)
           then (w, Inl (q_state w, Some (Sentinel ErrRootLimit)))
           else (let req = \<lparr>ro_id = q_nextRoot w, ro_ctx = ctx, ro_event = event, ro_data = data\<rparr>;
                     start = \<not> q_running w in
                 (w\<lparr>q_roots := q_roots w @ [req], q_rootCount := q_rootCount w + 1,
                    q_running := True, q_nextRoot := Suc (q_nextRoot w)\<rparr>,
                  Inr (ro_id req, start)))))"

fun removeRootLocked :: "nat \<Rightarrow> ('e, 'c, 't) root list \<Rightarrow> ('e, 'c, 't) root list \<times> bool" where
  "removeRootLocked target [] = ([], False)"
| "removeRootLocked target (candidate # rest) =
     (if ro_id candidate \<noteq> target
      then (case removeRootLocked target rest of (rest', found) \<Rightarrow> (candidate # rest', found))
      else (rest, True))"

text \<open>The branch of the wait on which the caller's context ended first; \<open>None\<close> goes on waiting.\<close>

definition fire_cancel ::
    "('s, 'e, 'c, 'v) qenv \<Rightarrow> 'c qctx \<Rightarrow> nat \<Rightarrow> ('s, 'e, 'c, 't, 'v) qworld \<Rightarrow>
      ('s, 'e, 'c, 't, 'v) qworld \<times> ('s \<times> ('s, 'e) err option) option" where
  "fire_cancel Q ctx target w =
     (case removeRootLocked target (q_roots w) of (roots, removed) \<Rightarrow>
        if removed
        then (w\<lparr>q_roots := roots, q_rootCount := q_rootCount w - 1,
                q_cancelled := insert target (q_cancelled w)\<rparr>,
              Some (q_state w, base_err Q ctx w))
        else (w, None))"

text \<open>The outcome once it has been received.\<close>

definition fire_result ::
    "('s, 'e) qoutcome \<Rightarrow> ('s, 'e, 's \<times> ('s, 'e) err option) outcome" where
  "fire_result oc =
     (case oc_panic oc of Some v \<Rightarrow> Panic v | None \<Rightarrow> Ret (oc_state oc, oc_err oc))"

section \<open>One root's cascade\<close>

definition upd_cascade ::
    "nat \<Rightarrow> (('e, 'c, 't) cascade \<Rightarrow> ('e, 'c, 't) cascade) \<Rightarrow> ('s, 'e, 'c, 't, 'v) qworld \<Rightarrow>
      ('s, 'e, 'c, 't, 'v) qworld" where
  "upd_cascade cid f w = w\<lparr>q_cascades := (q_cascades w)(cid := f (q_cascades w cid))\<rparr>"

text \<open>The private Instance's Fire: it has no observers and its marker is always clear here.\<close>

definition instance_Fire ::
    "'s keyops \<Rightarrow> 'e keyops \<Rightarrow> ('s, 'e, 'c, 'v) qenv \<Rightarrow> ('s, 'e, 'c, 't, 'v) qmachine option \<Rightarrow>
      'c qctx \<Rightarrow> 'e \<Rightarrow> 't \<Rightarrow>
      ('s, 'e, ('s, 'e, 'c, 't, 'v) qworld, 's \<times> ('s, 'e) err option) act" where
  "instance_Fire K L Q m ctx event data w =
     (case Fire K L (\<lambda>w. qe_now Q (q_app w)) (newInstance m (q_state w) []) ctx event data w of
        (i', w', out) \<Rightarrow> (w'\<lparr>q_state := i_state i'\<rparr>, out))"

definition observationContext :: "'c qctx \<Rightarrow> nat \<Rightarrow> nat \<Rightarrow> 'c qctx" where
  "observationContext ctx owner cid =
     ctx\<lparr>qc_exec := Some \<lparr>x_owner = owner, x_cascade = cid, x_live = False\<rparr>\<rparr>"

text \<open>Number and deliver the observations of a committed event; the result is the run's identity
  and what the observers reported.\<close>

definition observe_item ::
    "('s, 'e, 'c, 'v) qenv \<Rightarrow> ('s, 'e, 'c, 't, 'v) qobserver list \<Rightarrow> nat \<Rightarrow> u64 \<Rightarrow>
      ('e, 'c, 't) item \<Rightarrow> 's \<Rightarrow> 's \<Rightarrow> ('s, 'e, 'c, 't, 'v) qworld \<Rightarrow>
      ('s, 'e, 'c, 't, 'v) qworld \<times> u64 \<times> ('s, 'e) err option" where
  "observe_item Q observers cid run current from to w =
     (if from \<noteq> to \<and> observers \<noteq> [] then
        (let step = q_seq w + 1; run = (if run = 0 then step else run);
             w = w\<lparr>q_seq := q_seq w + 2\<rparr> in
         case deliverTransitionObservations (\<lambda>w. qe_now Q (q_app w)) observers
                (observationContext (it_ctx current) (qe_me Q) cid) step run from to
                (it_event current) (it_data current) w of
           (w', Ret err) \<Rightarrow> (w', run, err)
         | (w', _) \<Rightarrow> (w', run, None))
      else (w, run, None))"

text \<open>One iteration of the loop: the outcome that ends the run, or the run's identity, the
  observers' failure and the committed state to go on with.\<close>

definition run_item ::
    "'s keyops \<Rightarrow> 'e keyops \<Rightarrow> ('s, 'e, 'c, 'v) qenv \<Rightarrow> ('s, 'e, 'c, 't, 'v) qmachine option \<Rightarrow>
      ('s, 'e, 'c, 't, 'v) qobserver list \<Rightarrow> 'c qctx \<Rightarrow> nat \<Rightarrow> u64 \<Rightarrow> ('e, 'c, 't) item \<Rightarrow>
      ('s, 'e, 'c, 't, 'v) qworld \<Rightarrow>
      ('s, 'e, 'c, 't, 'v) qworld \<times> (('s, 'e) qoutcome + u64 \<times> ('s, 'e) err option \<times> 's)" where
  "run_item K L Q m observers rootCtx cid run current w =
     (let stop = (\<lambda>w err. (upd_cascade cid c_abort w,
                           Inl \<lparr>oc_state = q_state w, oc_err = err, oc_panic = None\<rparr>)) in
      case base_err Q rootCtx w of
        Some err \<Rightarrow> stop w (Some err)
      | None \<Rightarrow>
          (case base_err Q (it_ctx current) w of
             Some err \<Rightarrow> stop w (Some err)
           | None \<Rightarrow>
               (let from = q_state w in
                case instance_Fire K L Q m (it_ctx current) (it_event current) (it_data current) w of
                  (w1, Ret (to, Some err)) \<Rightarrow> stop w1 (Some err)
                | (w1, Goexit) \<Rightarrow> stop w1 (Some (Sentinel ErrExecutionStopped))
                | (w1, Panic v) \<Rightarrow>
                    (let w2 = (upd_cascade cid c_abort w1)
                                \<lparr>q_lastPanic := Some (it_event current, qe_now Q (q_app w1))\<rparr> in
                     (w2, Inl \<lparr>oc_state = q_state w2, oc_err = None, oc_panic = Some v\<rparr>))
                | (w1, Ret (to, None)) \<Rightarrow>
                    (case observe_item Q observers cid run current from to w1 of
                       (w2, run', failure) \<Rightarrow> (w2, Inr (run', failure, to))))))"

fun run_loop ::
    "nat \<Rightarrow> 's keyops \<Rightarrow> 'e keyops \<Rightarrow> ('s, 'e, 'c, 'v) qenv \<Rightarrow>
      ('s, 'e, 'c, 't, 'v) qmachine option \<Rightarrow> ('s, 'e, 'c, 't, 'v) qobserver list \<Rightarrow> 'c qctx \<Rightarrow>
      nat \<Rightarrow> u64 \<Rightarrow> ('s, 'e) err list \<Rightarrow> ('e, 'c, 't) item \<Rightarrow> ('s, 'e, 'c, 't, 'v) qworld \<Rightarrow>
      (('s, 'e, 'c, 't, 'v) qworld \<times> ('s, 'e) qoutcome \<times> ('s, 'e) err list) option" where
  "run_loop 0 K L Q m observers rootCtx cid run failures current w = None"
| "run_loop (Suc fuel) K L Q m observers rootCtx cid run failures current w =
     (case run_item K L Q m observers rootCtx cid run current w of
        (w1, Inl oc) \<Rightarrow> Some (w1, oc, failures)
      | (w1, Inr (run', failure, to)) \<Rightarrow>
          (let failures' = failures @ present [failure] in
           case c_next (q_cascades w1 cid) of
             (c, None) \<Rightarrow>
               Some (upd_cascade cid (\<lambda>_. c) w1,
                     \<lparr>oc_state = to, oc_err = None, oc_panic = None\<rparr>, failures')
           | (c, Some following) \<Rightarrow>
               run_loop fuel K L Q m observers rootCtx cid run' failures' following
                 (upd_cascade cid (\<lambda>_. c) w1)))"

text \<open>The deferred join of the observers' failures, on every way the run can end.\<close>

definition join_failures :: "('s, 'e) qoutcome \<Rightarrow> ('s, 'e) err list \<Rightarrow> ('s, 'e) qoutcome" where
  "join_failures oc failures =
     (if failures = [] then oc
      else oc\<lparr>oc_err := errors_join [oc_err oc, errors_join (map Some failures)]\<rparr>)"

definition run_root ::
    "'s keyops \<Rightarrow> 'e keyops \<Rightarrow> ('s, 'e, 'c, 'v) qenv \<Rightarrow> ('s, 'e, 'c, 't, 'v) qmachine option \<Rightarrow>
      ('s, 'e, 'c, 't, 'v) qobserver list \<Rightarrow> ('e, 'c, 't) root \<Rightarrow> ('s, 'e, 'c, 't, 'v) qworld \<Rightarrow>
      (('s, 'e, 'c, 't, 'v) qworld \<times> ('s, 'e) qoutcome) option" where
  "run_root K L Q m observers req w =
     (let cid = q_runs w; maximum = MaxRunEvents (q_limits w);
          w = w\<lparr>q_runs := Suc cid,
                q_cascades := (q_cascades w)(cid := \<lparr>c_active = True, c_pending = [],
                                                    c_accepted = 1, c_maximum = maximum\<rparr>)\<rparr>;
          execCtx = (ro_ctx req)
            \<lparr>qc_exec := Some \<lparr>x_owner = qe_me Q, x_cascade = cid, x_live = True\<rparr>\<rparr> in
      map_option (\<lambda>(w', oc, failures). (w', join_failures oc failures))
        (run_loop (nat maximum) K L Q m observers (ro_ctx req) cid 0 []
           \<lparr>it_ctx = execCtx, it_event = ro_event req, it_data = ro_data req\<rparr> w))"

section \<open>The drain goroutine\<close>

definition drain_take ::
    "('s, 'e, 'c, 't, 'v) qworld \<Rightarrow> ('s, 'e, 'c, 't, 'v) qworld \<times> ('e, 'c, 't) root option" where
  "drain_take w =
     (case q_roots w of
        [] \<Rightarrow> (w\<lparr>q_running := False, q_roots := []\<rparr>, None)
      | req # rest \<Rightarrow> (w\<lparr>q_roots := rest, q_started := q_started w @ [ro_id req]\<rparr>, Some req))"

definition drain_finish ::
    "('e, 'c, 't) root \<Rightarrow> ('s, 'e) qoutcome \<Rightarrow> ('s, 'e, 'c, 't, 'v) qworld \<Rightarrow>
      ('s, 'e, 'c, 't, 'v) qworld" where
  "drain_finish req oc w =
     w\<lparr>q_rootCount := q_rootCount w - 1, q_results := (q_results w)(ro_id req \<mapsto> oc)\<rparr>"

end
