(* ===== verification/Queued_Runs.thy ===== *)
theory Queued_Runs
  imports Queued
begin

text \<open>
  What holds of a queued runtime while callbacks run.

  While a Guard, a Do or an observer runs, anything the package's API allows may happen to the
  runtime: the application's world changes, follow-ups are enqueued from this or a joined
  goroutine, roots are admitted and cancelled by other callers. \<open>api_step\<close> is one such change and
  \<open>api\<close> any number of them; a callback is \<open>well-behaved\<close> if all it does is that. The locale
  \<open>world_relation\<close> carries a reflexive and transitive relation on worlds from the callbacks of a
  machine through \<open>fire\<close> and observer delivery; it is interpreted on \<open>api\<close>.

  The lemmas: what \<open>api\<close> keeps of the runtime (\<open>api_keeps\<close>), the scheduling invariant
  \<open>sched_inv\<close>, the cascade invariant that bounds a run, and what each iteration does.
\<close>

section \<open>Relations that callbacks keep\<close>

definition acts :: "('w \<Rightarrow> 'w \<Rightarrow> bool) \<Rightarrow> ('s, 'e, 'w, 'a) act \<Rightarrow> bool" where
  "acts R m \<longleftrightarrow> (\<forall>w. R w (fst (m w)))"

definition machine_acts :: "('w \<Rightarrow> 'w \<Rightarrow> bool) \<Rightarrow> ('s, 'e, 'c, 't, 'w) machine \<Rightarrow> bool" where
  "machine_acts R m \<longleftrightarrow>
     (\<forall>k. \<forall>t \<in> set (slice (m_rows m) k).
        (\<forall>g ctx data. t_guard t = Some g \<longrightarrow> acts R (g ctx data)) \<and>
        (\<forall>f ctx data. t_do t = Some f \<longrightarrow> acts R (f ctx data)))"

locale world_relation =
  fixes R :: "'w \<Rightarrow> 'w \<Rightarrow> bool"
  assumes refl: "R w w"
    and trans: "R u v \<Longrightarrow> R v w \<Longrightarrow> R u w"
begin

lemma acts_ret: "acts R (ret a)"
  by (simp add: acts_def ret_def refl)

lemma acts_bind: "acts R m \<Longrightarrow> (\<And>a. acts R (f a)) \<Longrightarrow> acts R (bindA m f)"
  unfolding acts_def bindA_def
  by (auto split: prod.splits outcome.splits) (metis fst_conv trans)+

lemma acts_try_rows:
  "\<forall>t \<in> set rows. \<forall>g. t_guard t = Some g \<longrightarrow> acts R (g ctx data) \<Longrightarrow>
     acts R (try_rows ctx data rows reasons)"
  by (induction rows arbitrary: reasons)
     (auto intro!: acts_ret acts_bind split: option.splits)

lemma acts_fire:
  assumes "machine_acts R m"
  shows "acts R (fire K L m ctx src event data)"
proof -
  have sel: "acts R (selectTransition K L m ctx src event data)"
    using assms unfolding selectTransition_def machine_acts_def
    by (auto intro!: acts_ret acts_bind acts_try_rows split: sum.splits)
  have "acts R (run_do ctx data src t)" if "t \<in> set (slice (m_rows m) k)" for t k
    using bspec [OF spec [OF assms [unfolded machine_acts_def], of k] that] unfolding run_do_def
    by (auto intro!: acts_ret acts_bind split: option.splits)
  note do = this
  have "R w (fst (fire K L m ctx src event data w))" for w
  proof -
    obtain w1 r where r: "selectTransition K L m ctx src event data w = (w1, r)" by fastforce
    then have w1: "R w w1" using sel by (simp add: acts_def) (metis fst_conv)
    show ?thesis
    proof (cases "\<exists>t. r = Ret (Inr t)")
      case True
      then obtain t where t: "r = Ret (Inr t)" by blast
      have "R w1 (fst (run_do ctx data src t w1))"
        using do selectTransition_Inr [OF r [unfolded t]] by (auto simp: acts_def)
      with w1 r t show ?thesis by (auto simp: fire_def bindA_def intro: trans)
    next
      case False
      with w1 r show ?thesis
        by (auto simp: fire_def bindA_def ret_def split: outcome.splits sum.splits)
    qed
  qed
  then show ?thesis by (simp add: acts_def)
qed

lemma run_calls_R:
  "\<forall>(i, q, ob, f) \<in> set calls. acts R (f ctx ob data) \<Longrightarrow> R w (fst (run_calls ctx data calls w))"
proof (induction calls arbitrary: w)
  case (Cons c calls)
  obtain i q ob f where c: "c = (i, q, ob, f)" by (cases c)
  have "R w (fst (f ctx ob data w))" using Cons.prems c by (auto simp: acts_def)
  with Cons c show ?case by (auto simp: split: prod.splits) (metis fst_conv trans)
qed (simp add: refl)

lemma acts_Deliver:
  assumes "\<forall>f \<in> set observers. \<forall>ctx ob data. acts R (f ctx ob data)"
  shows "R w (fst (Deliver observers ctx obs data w))"
proof -
  have "set (map snd (List.enumerate 0 observers)) = set observers" by simp
  then have "f \<in> set observers" if "(i, q, ob, f) \<in> set (delivery_calls observers obs)" for i q ob f
    using that unfolding delivery_calls_def by (auto simp del: map_snd_enumerate) (metis imageI list.set_map snd_conv)
  then have "R w (fst (run_calls ctx data (delivery_calls observers obs) w))"
    using assms by (intro run_calls_R) blast
  then show ?thesis by (simp add: Deliver_run_calls case_prod_beta)
qed

end

section \<open>What may happen beside a callback\<close>

inductive api_step ::
    "('s, 'e, 'c, 'v) qenv \<Rightarrow> ('s, 'e, 'c, 't, 'v) qworld \<Rightarrow> ('s, 'e, 'c, 't, 'v) qworld \<Rightarrow> bool"
    for Q where
  api_app: "api_step Q w (w\<lparr>q_app := v\<rparr>)"
| api_enqueue: "api_step Q w (fst (Enqueue Q ctx event data w))"
| api_admit: "api_step Q w (fst (fire_admit Q ctx event data w))"
| api_cancel: "api_step Q w (fst (fire_cancel Q ctx target w))"

definition api ::
    "('s, 'e, 'c, 'v) qenv \<Rightarrow> ('s, 'e, 'c, 't, 'v) qworld \<Rightarrow> ('s, 'e, 'c, 't, 'v) qworld \<Rightarrow> bool" where
  "api Q = (api_step Q)\<^sup>*\<^sup>*"

interpretation api: world_relation "api Q" for Q
  by unfold_locales (auto simp: api_def)

definition grows :: "('e, 'c, 't) cascade \<Rightarrow> ('e, 'c, 't) cascade \<Rightarrow> bool" where
  "grows c c' \<longleftrightarrow>
     c_active c' = c_active c \<and> c_maximum c' = c_maximum c \<and>
     (\<exists>new. c_pending c' = c_pending c @ new \<and> c_accepted c' = c_accepted c + int (length new) \<and>
        (new \<noteq> [] \<longrightarrow> c_active c \<and> c_accepted c' \<le> c_maximum c))"

lemma grows_refl [simp]: "grows c c"
  by (simp add: grows_def)

lemma grows_trans: "grows a b \<Longrightarrow> grows b c \<Longrightarrow> grows a c"
proof -
  assume "grows a b" "grows b c"
  then obtain new1 new2 where
    "c_pending b = c_pending a @ new1" "c_accepted b = c_accepted a + int (length new1)"
    "new1 \<noteq> [] \<longrightarrow> c_active a \<and> c_accepted b \<le> c_maximum a"
    "c_pending c = c_pending b @ new2" "c_accepted c = c_accepted b + int (length new2)"
    "new2 \<noteq> [] \<longrightarrow> c_active b \<and> c_accepted c \<le> c_maximum b"
    "c_active b = c_active a" "c_maximum b = c_maximum a"
    "c_active c = c_active b" "c_maximum c = c_maximum b"
    unfolding grows_def by blast
  then show ?thesis
    unfolding grows_def by (cases "new2 = []") (auto intro!: exI [of _ "new1 @ new2"])
qed

lemma grows_enqueue: "c_enqueue ctx event data c = (c', err) \<Longrightarrow> grows c c'"
  by (auto simp: c_enqueue_def grows_def split: if_splits)

definition api_keeps :: "('s, 'e, 'c, 't, 'v) qworld \<Rightarrow> ('s, 'e, 'c, 't, 'v) qworld \<Rightarrow> bool" where
  "api_keeps w w' \<longleftrightarrow>
     q_state w' = q_state w \<and> q_seq w' = q_seq w \<and> q_runs w' = q_runs w \<and>
     q_lastPanic w' = q_lastPanic w \<and> q_results w' = q_results w \<and> q_started w' = q_started w \<and>
     q_cancelled w \<subseteq> q_cancelled w' \<and> q_nextRoot w \<le> q_nextRoot w' \<and>
     (\<forall>i. grows (q_cascades w i) (q_cascades w' i))"

lemma api_keeps_trans: "api_keeps u v \<Longrightarrow> api_keeps v w \<Longrightarrow> api_keeps u w"
  by (auto simp: api_keeps_def intro: grows_trans)

lemma api_step_keeps: "api_step Q w w' \<Longrightarrow> api_keeps w w'"
proof (induction rule: api_step.induct)
  case (api_enqueue w ctx event data)
  show ?case
    by (auto simp: api_keeps_def Enqueue_def grows_enqueue split: option.splits prod.splits)
qed (auto simp: api_keeps_def fire_admit_def fire_cancel_def Let_def
      split: option.splits prod.splits)

lemma api_keeps: "api Q w w' \<Longrightarrow> api_keeps w w'"
  unfolding api_def
  by (induction rule: rtranclp_induct)
     (auto simp: api_keeps_def [of w w] intro: api_keeps_trans api_step_keeps)

section \<open>The scheduling invariant\<close>

text \<open>
  \<open>exe\<close> lists the root being executed, if any. The count is the admitted roots not yet finished
  and is within its limit; the drain goroutine is running whenever there is work; the roots taken
  so far and those waiting are, in this order, the admitted ones less the cancelled ones; exactly
  the roots taken and no longer executing have an outcome.
\<close>

definition sched_inv :: "nat list \<Rightarrow> ('s, 'e, 'c, 't, 'v) qworld \<Rightarrow> bool" where
  "sched_inv exe w \<longleftrightarrow>
     q_rootCount w = int (length (q_roots w) + length exe) \<and>
     (q_running w \<or> q_roots w = [] \<and> exe = []) \<and>
     (MaxRoots (q_limits w) = 0 \<and> q_rootCount w = 0 \<or>
        q_rootCount w \<le> MaxRoots (q_limits w) \<and> 0 < MaxRoots (q_limits w) \<and>
        0 < MaxRunEvents (q_limits w)) \<and>
     q_cancelled w \<subseteq> {..<q_nextRoot w} \<and>
     filter (\<lambda>i. i \<notin> q_cancelled w) [0..<q_nextRoot w] = q_started w @ map ro_id (q_roots w) \<and>
     set exe \<subseteq> set (q_started w) \<and> dom (q_results w) = set (q_started w) - set exe"

lemma sched_inv_upd [simp]:
  "sched_inv exe (w\<lparr>q_app := v\<rparr>) = sched_inv exe w"
  "sched_inv exe (w\<lparr>q_state := s\<rparr>) = sched_inv exe w"
  "sched_inv exe (w\<lparr>q_seq := n\<rparr>) = sched_inv exe w"
  "sched_inv exe (w\<lparr>q_lastPanic := p\<rparr>) = sched_inv exe w"
  "sched_inv exe (w\<lparr>q_cascades := cs\<rparr>) = sched_inv exe w"
  "sched_inv exe (w\<lparr>q_runs := k\<rparr>) = sched_inv exe w"
  "sched_inv exe (upd_cascade cid f w) = sched_inv exe w"
  by (simp_all add: sched_inv_def upd_cascade_def)

lemma sched_inv_distinct:
  "sched_inv exe w \<Longrightarrow> distinct (q_started w @ map ro_id (q_roots w))"
  unfolding sched_inv_def by (metis distinct_filter distinct_upt)

lemma removeRootLocked_split:
  "removeRootLocked target roots = (roots', True) \<Longrightarrow>
     \<exists>xs r ys. roots = xs @ r # ys \<and> roots' = xs @ ys \<and> ro_id r = target"
proof (induction roots arbitrary: roots')
  case (Cons a roots)
  show ?case
  proof (cases "ro_id a = target")
    case True
    with Cons.prems have "a # roots = [] @ a # roots \<and> roots' = [] @ roots \<and> ro_id a = target" by simp
    then show ?thesis by blast
  next
    case False
    with Cons.prems obtain rest where
      rest: "removeRootLocked target roots = (rest, True)" "roots' = a # rest"
      by (auto split: prod.splits)
    from Cons.IH [OF rest(1)] obtain xs r ys where
      "roots = xs @ r # ys" "rest = xs @ ys" "ro_id r = target"
      by blast
    with rest have "a # roots = (a # xs) @ r # ys \<and> roots' = (a # xs) @ ys \<and> ro_id r = target" by simp
    then show ?thesis by blast
  qed
qed simp

lemma filter_insert_cancelled:
  "filter (\<lambda>i. i \<notin> insert x c) xs = filter (\<lambda>i. i \<noteq> x) (filter (\<lambda>i. i \<notin> c) xs)"
  by (simp add: conj_commute)

lemma sched_inv_remove:
  "sched_inv exe (w\<lparr>q_roots := rs, q_rootCount := n, q_cancelled := c\<rparr>) \<longleftrightarrow>
     n = int (length rs + length exe) \<and>
     (q_running w \<or> rs = [] \<and> exe = []) \<and>
     (MaxRoots (q_limits w) = 0 \<and> n = 0 \<or>
        n \<le> MaxRoots (q_limits w) \<and> 0 < MaxRoots (q_limits w) \<and> 0 < MaxRunEvents (q_limits w)) \<and>
     c \<subseteq> {..<q_nextRoot w} \<and>
     filter (\<lambda>i. i \<notin> c) [0..<q_nextRoot w] = q_started w @ map ro_id rs \<and>
     set exe \<subseteq> set (q_started w) \<and> dom (q_results w) = set (q_started w) - set exe"
  by (simp add: sched_inv_def)

lemma sched_inv_cancel:
  assumes "sched_inv exe w"
  shows "sched_inv exe (fst (fire_cancel Q ctx target w))"
proof (cases "snd (removeRootLocked target (q_roots w))")
  case False
  with assms show ?thesis by (auto simp: fire_cancel_def split: prod.splits)
next
  case True
  then obtain roots' where rm: "removeRootLocked target (q_roots w) = (roots', True)"
    by (metis prod.collapse)
  then obtain xs r ys where r: "q_roots w = xs @ r # ys" "roots' = xs @ ys" "ro_id r = target"
    using removeRootLocked_split by blast
  have d: "distinct (q_started w @ map ro_id xs @ target # map ro_id ys)"
    using sched_inv_distinct [OF assms] r by simp
  have "filter (\<lambda>i. i \<noteq> target) (q_started w @ map ro_id (q_roots w)) =
      q_started w @ map ro_id roots'"
  proof -
    have "filter (\<lambda>i. i \<noteq> target) l = l" if "target \<notin> set l" for l
      using that by (induction l) auto
    note skip = this
    have "target \<notin> set (q_started w)" "target \<notin> set (map ro_id xs)" "target \<notin> set (map ro_id ys)"
      using d by auto
    from this [THEN skip] show ?thesis using r by simp
  qed
  then have fl: "filter (\<lambda>i. i \<notin> insert target (q_cancelled w)) [0..<q_nextRoot w] =
      q_started w @ map ro_id roots'"
    using assms unfolding filter_insert_cancelled sched_inv_def by simp
  have "target \<in> set (filter (\<lambda>i. i \<notin> q_cancelled w) [0..<q_nextRoot w])"
    using assms r by (simp add: sched_inv_def)
  then have lt: "insert target (q_cancelled w) \<subseteq> {..<q_nextRoot w}"
    using assms by (simp add: sched_inv_def)
  have running: "q_running w" using assms r by (auto simp: sched_inv_def)
  have len: "length (q_roots w) = Suc (length roots')" using r by simp
  have eq: "fst (fire_cancel Q ctx target w) = w\<lparr>q_roots := roots', q_rootCount := q_rootCount w - 1,
      q_cancelled := insert target (q_cancelled w)\<rparr>"
    by (simp add: fire_cancel_def rm)
  show ?thesis
    unfolding eq sched_inv_remove using assms fl lt len running unfolding sched_inv_def
    by (intro conjI; (assumption | simp | linarith | blast))
qed

lemma sched_inv_admit:
  assumes "sched_inv exe w"
  shows "sched_inv exe (fst (fire_admit Q ctx event data w))"
proof -
  have "filter (\<lambda>i. i \<notin> q_cancelled w) [0..<Suc (q_nextRoot w)] =
      filter (\<lambda>i. i \<notin> q_cancelled w) [0..<q_nextRoot w] @ [q_nextRoot w]"
    using assms by (auto simp: sched_inv_def)
  with assms show ?thesis
    unfolding sched_inv_def fire_admit_def defaultLimits_def
    by (auto simp: Let_def split: option.splits simp del: upt_Suc)
qed

lemma sched_inv_api_step: "api_step Q w w' \<Longrightarrow> sched_inv exe w \<Longrightarrow> sched_inv exe w'"
proof (induction rule: api_step.induct)
  case (api_enqueue w ctx event data)
  then show ?case by (auto simp: sched_inv_def Enqueue_def split: option.splits prod.splits)
next
  case (api_app w v)
  then show ?case by simp
qed (simp_all add: sched_inv_admit sched_inv_cancel)

lemma sched_inv_api: "api Q w w' \<Longrightarrow> sched_inv exe w \<Longrightarrow> sched_inv exe w'"
  unfolding api_def by (induction rule: rtranclp_induct) (auto intro: sched_inv_api_step)

section \<open>One event of a cascade\<close>

definition runtime_acts ::
    "('s, 'e, 'c, 'v) qenv \<Rightarrow> ('s, 'e, 'c, 't, 'v) qmachine option \<Rightarrow>
      ('s, 'e, 'c, 't, 'v) qobserver list \<Rightarrow> bool" where
  "runtime_acts Q m observers \<longleftrightarrow>
     machine_acts (api Q) (case m of None \<Rightarrow> zero_machine | Some m' \<Rightarrow> m') \<and>
     (\<forall>f \<in> set observers. \<forall>ctx ob data. acts (api Q) (f ctx ob data))"

lemma Fire_newInstance:
  assumes "fire K L (case m of None \<Rightarrow> zero_machine | Some m' \<Rightarrow> m') ctx s event data w = (w1, r)"
  shows "\<exists>i'. Fire K L now (newInstance m s []) ctx event data w =
      (i', w1, case r of Ret (n, None) \<Rightarrow> Ret (n, None) | Ret (n, Some e) \<Rightarrow> Ret (s, Some e)
         | Panic v \<Rightarrow> Panic v | Goexit \<Rightarrow> Goexit) \<and>
     i_state i' = (case r of Ret (n, None) \<Rightarrow> n | _ \<Rightarrow> s)"
proof (cases r)
  case (Ret p)
  obtain n err where p: "p = (n, err)" by fastforce
  show ?thesis
    using assms Ret p
    by (cases err) (simp_all add: Fire_def newInstance_def Copy_def fire_publish_def fire_end_def Let_def)
qed (use assms in \<open>simp_all add: Fire_def newInstance_def Copy_def fire_end_def\<close>)

lemma instance_Fire_api:
  assumes "machine_acts (api Q) (case m of None \<Rightarrow> zero_machine | Some m' \<Rightarrow> m')"
    and "instance_Fire K L Q m ctx event data w = (w', out)"
  shows "\<exists>w1. api Q w w1 \<and> w' = w1\<lparr>q_state := q_state w'\<rparr> \<and>
     (case out of Ret (to, None) \<Rightarrow> q_state w' = to | _ \<Rightarrow> q_state w' = q_state w)"
proof -
  let ?m = "case m of None \<Rightarrow> zero_machine | Some m' \<Rightarrow> m'"
  obtain w1 r where f: "fire K L ?m ctx (q_state w) event data w = (w1, r)" by fastforce
  have "api Q w w1"
    using api.acts_fire [OF assms(1), of K L ctx "q_state w" event data] f
    unfolding acts_def by (metis fst_conv)
  moreover have
    "w' = w1\<lparr>q_state := case r of Ret (n, None) \<Rightarrow> n | _ \<Rightarrow> q_state w\<rparr> \<and>
     out = (case r of Ret (n, None) \<Rightarrow> Ret (n, None) | Ret (n, Some e) \<Rightarrow> Ret (q_state w, Some e)
         | Panic v \<Rightarrow> Panic v | Goexit \<Rightarrow> Goexit)"
    using Fire_newInstance [OF f, of "\<lambda>w. qe_now Q (q_app w)"] assms(2)
    by (auto simp: instance_Fire_def)
  ultimately show ?thesis
    by (intro exI [of _ w1]) (auto split: outcome.splits option.splits)
qed

lemma observe_item_api:
  assumes "\<forall>f \<in> set observers. \<forall>ctx ob data. acts (api Q) (f ctx ob data)"
    and "observe_item Q observers cid run current src to w = (w', run', failure)"
  shows "\<exists>w1. (w1 = w \<or> w1 = w\<lparr>q_seq := q_seq w + 2\<rparr>) \<and> api Q w1 w'"
proof (cases "src \<noteq> to \<and> observers \<noteq> []")
  case False
  with assms(2) show ?thesis using api.refl by (auto simp: observe_item_def)
next
  case True
  let ?w = "w\<lparr>q_seq := q_seq w + 2\<rparr>"
  let ?d = "deliverTransitionObservations (\<lambda>w. qe_now Q (q_app w)) observers
      (observationContext (it_ctx current) (qe_me Q) cid) (q_seq w + 1)
      (if run = 0 then q_seq w + 1 else run) src to (it_event current) (it_data current) ?w"
  have "api Q ?w (fst ?d)"
    unfolding deliverTransitionObservations_def deliverObservations_def
    by (rule api.acts_Deliver [OF assms(1)])
  moreover have "w' = fst ?d"
    using True assms(2)
    by (auto simp: observe_item_def Let_def split: prod.splits outcome.splits)
  ultimately show ?thesis by blast
qed

text \<open>What the rest of the runtime sees of a piece of a run of cascade \<open>cid\<close>.\<close>

definition run_keeps ::
    "nat \<Rightarrow> ('s, 'e, 'c, 't, 'v) qworld \<Rightarrow> ('s, 'e, 'c, 't, 'v) qworld \<Rightarrow> bool" where
  "run_keeps cid w w' \<longleftrightarrow>
     (\<forall>exe. sched_inv exe w \<longrightarrow> sched_inv exe w') \<and>
     q_started w' = q_started w \<and> q_results w' = q_results w \<and> q_runs w' = q_runs w \<and>
     q_cancelled w \<subseteq> q_cancelled w' \<and> q_nextRoot w \<le> q_nextRoot w' \<and>
     (\<forall>i. i \<noteq> cid \<longrightarrow> grows (q_cascades w i) (q_cascades w' i))"

lemma run_keeps_refl: "run_keeps cid w w"
  by (simp add: run_keeps_def)

lemma run_keeps_trans: "run_keeps cid u v \<Longrightarrow> run_keeps cid v w \<Longrightarrow> run_keeps cid u w"
  unfolding run_keeps_def by (auto intro: grows_trans dest: subsetD)

interpretation run: world_relation "run_keeps cid" for cid
  by unfold_locales (auto intro: run_keeps_refl run_keeps_trans)

lemma run_keeps_api: "api Q w w' \<Longrightarrow> run_keeps cid w w'"
  using api_keeps [of Q w w'] by (auto simp: run_keeps_def api_keeps_def intro: sched_inv_api)

lemma upd_cascade_simps [simp]:
  "q_state (upd_cascade cid f w) = q_state w" "q_app (upd_cascade cid f w) = q_app w"
  "q_cascades (upd_cascade cid f w) cid = f (q_cascades w cid)"
  by (simp_all add: upd_cascade_def)

lemma c_abort_simps [simp]: "c_active (c_abort c) = False" "c_pending (c_abort c) = []"
  by (simp_all add: c_abort_def)

lemma run_keeps_upd:
  "run_keeps cid w0 w \<Longrightarrow> run_keeps cid w0 (w\<lparr>q_state := s\<rparr>)"
  "run_keeps cid w0 w \<Longrightarrow> run_keeps cid w0 (w\<lparr>q_seq := n\<rparr>)"
  "run_keeps cid w0 w \<Longrightarrow> run_keeps cid w0 (w\<lparr>q_lastPanic := p\<rparr>)"
  "run_keeps cid w0 w \<Longrightarrow> run_keeps cid w0 (upd_cascade cid f w)"
  by (simp_all add: run_keeps_def) (simp add: upd_cascade_def)

text \<open>One iteration either ends the run, with its cascade closed and the committed state reported,
  or leaves the cascade open, perhaps with more follow-ups.\<close>

lemma run_item_step:
  assumes "runtime_acts Q m observers"
    and "run_item K L Q m observers rootCtx cid run current w = (w', r)"
  shows "run_keeps cid w w' \<and>
     (case r of
        Inl oc \<Rightarrow> oc_state oc = q_state w' \<and> \<not> c_active (q_cascades w' cid) \<and>
          c_pending (q_cascades w' cid) = [] \<and> (oc_err oc \<noteq> None \<or> oc_panic oc \<noteq> None)
      | Inr (run', failure, to) \<Rightarrow> to = q_state w' \<and> grows (q_cascades w cid) (q_cascades w' cid))"
proof (cases "base_err Q rootCtx w = None \<and> base_err Q (it_ctx current) w = None")
  case False
  with assms(2) show ?thesis
    by (auto simp: run_item_def split: option.splits intro!: run_keeps_upd run_keeps_refl)
next
  case True
  obtain w1 out where f:
    "instance_Fire K L Q m (it_ctx current) (it_event current) (it_data current) w = (w1, out)"
    by fastforce
  obtain w0 where w0: "api Q w w0" "w1 = w0\<lparr>q_state := q_state w1\<rparr>"
    "case out of Ret (to, None) \<Rightarrow> q_state w1 = to | _ \<Rightarrow> q_state w1 = q_state w"
    using instance_Fire_api [OF _ f] assms(1) unfolding runtime_acts_def by blast
  then have k1: "run_keeps cid w w1"
    using run_keeps_upd(1) [OF run_keeps_api [OF w0(1)], of cid "q_state w1"] by simp
  have g1: "grows (q_cascades w cid) (q_cascades w1 cid)"
  proof -
    have "q_cascades w1 = q_cascades w0" by (subst w0(2)) simp
    then show ?thesis using api_keeps [OF w0(1)] by (simp add: api_keeps_def)
  qed
  show ?thesis
  proof (cases "\<exists>to. out = Ret (to, None)")
    case False
    with True f assms(2) k1 show ?thesis
      by (cases out) (auto simp: run_item_def Let_def split: option.splits intro!: run_keeps_upd)
  next
    case True': True
    then obtain to where out: "out = Ret (to, None)" by blast
    obtain w2 run' failure where o: "observe_item Q observers cid run current (q_state w) to w1 =
        (w2, run', failure)"
      by (metis prod_cases3)
    obtain w3 where w3: "w3 = w1 \<or> w3 = w1\<lparr>q_seq := q_seq w1 + 2\<rparr>" "api Q w3 w2"
      using observe_item_api [OF _ o] assms(1) unfolding runtime_acts_def by blast
    have "run_keeps cid w1 w3" using w3(1) by (auto intro: run_keeps_refl run_keeps_upd)
    then have "run_keeps cid w w2"
      using k1 run_keeps_api [OF w3(2)] by (meson run_keeps_trans)
    moreover have "q_state w2 = to"
      using api_keeps [OF w3(2)] w3(1) w0(3) out by (auto simp: api_keeps_def)
    moreover have "grows (q_cascades w1 cid) (q_cascades w2 cid)"
      using api_keeps [OF w3(2)] w3(1) by (auto simp: api_keeps_def)
    ultimately show ?thesis
      using assms(2) True f out o grows_trans [OF g1] by (auto simp: run_item_def Let_def)
  qed
qed

section \<open>A whole cascade\<close>

text \<open>How many more events a cascade can still run after the current one.\<close>

definition budget :: "('e, 'c, 't) cascade \<Rightarrow> nat" where
  "budget c = nat (c_maximum c - c_accepted c) + length (c_pending c)"

lemma grows_budget: "grows c c' \<Longrightarrow> c_accepted c \<le> c_maximum c \<Longrightarrow>
    budget c' = budget c \<and> c_accepted c' \<le> c_maximum c' \<and> c_active c' = c_active c"
  by (auto simp: grows_def budget_def)

lemma run_loop_ends:
  assumes acts: "runtime_acts Q m observers"
  shows "c_accepted (q_cascades w cid) \<le> c_maximum (q_cascades w cid) \<Longrightarrow>
     budget (q_cascades w cid) < fuel \<Longrightarrow>
     \<exists>w' oc fs. run_loop fuel K L Q m observers rootCtx cid run failures current w = Some (w', oc, fs) \<and>
       run_keeps cid w w' \<and> oc_state oc = q_state w' \<and>
       \<not> c_active (q_cascades w' cid) \<and> c_pending (q_cascades w' cid) = []"
proof (induction fuel arbitrary: w run failures current)
  case (Suc fuel)
  obtain w1 r where item: "run_item K L Q m observers rootCtx cid run current w = (w1, r)" by fastforce
  note step = run_item_step [OF acts item]
  show ?case
  proof (cases r)
    case (Inl oc)
    with step item show ?thesis by simp
  next
    case (Inr p)
    obtain run' failure to where p: "p = (run', failure, to)" by (metis prod_cases3)
    have keeps: "run_keeps cid w w1" and to: "to = q_state w1"
      and g: "grows (q_cascades w cid) (q_cascades w1 cid)"
      using step unfolding Inr p by simp_all
    have b: "budget (q_cascades w1 cid) = budget (q_cascades w cid)"
        "c_accepted (q_cascades w1 cid) \<le> c_maximum (q_cascades w1 cid)"
      using grows_budget [OF g Suc.prems(1)] by simp_all
    show ?thesis
    proof (cases "c_pending (q_cascades w1 cid)")
      case Nil
      with item Inr p keeps to show ?thesis
        by (simp add: c_next_def run_keeps_upd Let_def)
    next
      case (Cons i rest)
      let ?c = "(q_cascades w1 cid)\<lparr>c_pending := rest\<rparr>"
      let ?w = "upd_cascade cid (\<lambda>_. ?c) w1"
      have "budget (q_cascades ?w cid) < fuel"
        using b(1) Suc.prems(2) Cons by (simp add: budget_def)
      moreover have "c_accepted (q_cascades ?w cid) \<le> c_maximum (q_cascades ?w cid)"
        using b(2) by simp
      ultimately obtain w' oc fs where
        rest: "run_loop fuel K L Q m observers rootCtx cid run' (failures @ present [failure]) i ?w =
          Some (w', oc, fs)" "run_keeps cid ?w w'" "oc_state oc = q_state w'"
          "\<not> c_active (q_cascades w' cid)" "c_pending (q_cascades w' cid) = []"
        using Suc.IH by blast
      have "run_keeps cid w ?w" using keeps by (rule run_keeps_upd)
      then have "run_keeps cid w w'" using rest(2) by (rule run_keeps_trans)
      with rest item Inr p Cons show ?thesis
        by (intro exI [of _ w'] exI [of _ oc] exI [of _ fs]) (simp add: c_next_def Let_def)
    qed
  qed
qed simp

lemma run_root_ends:
  assumes "runtime_acts Q m observers" and "0 < MaxRunEvents (q_limits w)"
  shows "\<exists>w' oc. run_root K L Q m observers req w = Some (w', oc) \<and>
     (\<forall>exe. sched_inv exe w \<longrightarrow> sched_inv exe w') \<and>
     q_started w' = q_started w \<and> q_results w' = q_results w \<and> q_runs w' = Suc (q_runs w) \<and>
     q_cancelled w \<subseteq> q_cancelled w' \<and> q_nextRoot w \<le> q_nextRoot w' \<and>
     oc_state oc = q_state w' \<and>
     \<not> c_active (q_cascades w' (q_runs w)) \<and> c_pending (q_cascades w' (q_runs w)) = []"
proof -
  let ?id = "q_runs w" and ?max = "MaxRunEvents (q_limits w)"
  let ?c = "\<lparr>c_active = True, c_pending = [], c_accepted = 1, c_maximum = ?max\<rparr>"
  let ?w = "w\<lparr>q_runs := Suc ?id, q_cascades := (q_cascades w)(?id := ?c)\<rparr>"
  have "c_accepted (q_cascades ?w ?id) \<le> c_maximum (q_cascades ?w ?id)"
    "budget (q_cascades ?w ?id) < nat ?max"
    using assms(2) by (simp_all add: budget_def)
  from run_loop_ends [OF assms(1) this, of K L "ro_ctx req" 0 "[]"
      "\<lparr>it_ctx = (ro_ctx req)\<lparr>qc_exec := Some \<lparr>x_owner = qe_me Q, x_cascade = ?id, x_live = True\<rparr>\<rparr>,
        it_event = ro_event req, it_data = ro_data req\<rparr>"]
  obtain w' oc fs where
    "run_loop (nat ?max) K L Q m observers (ro_ctx req) ?id 0 []
       \<lparr>it_ctx = (ro_ctx req)\<lparr>qc_exec := Some \<lparr>x_owner = qe_me Q, x_cascade = ?id, x_live = True\<rparr>\<rparr>,
        it_event = ro_event req, it_data = ro_data req\<rparr> ?w = Some (w', oc, fs)"
    "run_keeps ?id ?w w'" "oc_state oc = q_state w'"
    "\<not> c_active (q_cascades w' ?id)" "c_pending (q_cascades w' ?id) = []"
    by blast
  then show ?thesis
    by (intro exI [of _ w'] exI [of _ "join_failures oc fs"])
       (simp add: run_root_def Let_def run_keeps_def join_failures_def)
qed

end
