(* ===== verification/Queued_System.thy ===== *)
theory Queued_System
  imports Queued_Runs
begin

text \<open>
  A queued runtime as a whole: callers and the drain goroutine.

  \<open>drain_step\<close> is the next piece of the drain goroutine: take a root, run its cascade, record
  its outcome. \<open>qstep\<close> interleaves it with anything callers do between the pieces (admitting and
  cancelling roots, enqueueing, changing the application's world); what they do while a cascade
  runs is part of the callbacks' \<open>api\<close> changes. The goroutine is started by the admission that
  finds it stopped. The theorems give the scheduling invariant in every reachable state, that a
  cascade always ends within its event limit, and that every admitted root gets its outcome.
\<close>

section \<open>The interleaved system\<close>

datatype ('s, 'e, 'c, 't) drain_pc =
    Off
  | Ready
  | Executing "('e, 'c, 't) root"
  | Finished "('e, 'c, 't) root" "('s, 'e) qoutcome"

record ('s, 'e, 'c, 't, 'v) qsys =
  y_w :: "('s, 'e, 'c, 't, 'v) qworld"
  y_drain :: "('s, 'e, 'c, 't) drain_pc"

definition drain_step ::
    "'s keyops \<Rightarrow> 'e keyops \<Rightarrow> ('s, 'e, 'c, 'v) qenv \<Rightarrow> ('s, 'e, 'c, 't, 'v) qmachine option \<Rightarrow>
      ('s, 'e, 'c, 't, 'v) qobserver list \<Rightarrow> ('s, 'e, 'c, 't, 'v) qsys \<Rightarrow>
      ('s, 'e, 'c, 't, 'v) qsys" where
  "drain_step K L Q m observers s =
     (case y_drain s of
        Off \<Rightarrow> s
      | Ready \<Rightarrow>
          (case drain_take (y_w s) of
             (w, None) \<Rightarrow> \<lparr>y_w = w, y_drain = Off\<rparr>
           | (w, Some req) \<Rightarrow> \<lparr>y_w = w, y_drain = Executing req\<rparr>)
      | Executing req \<Rightarrow>
          (case run_root K L Q m observers req (y_w s) of
             None \<Rightarrow> s
           | Some (w, oc) \<Rightarrow> \<lparr>y_w = w, y_drain = Finished req oc\<rparr>)
      | Finished req oc \<Rightarrow> \<lparr>y_w = drain_finish req oc (y_w s), y_drain = Ready\<rparr>)"

inductive qreach ::
    "'s keyops \<Rightarrow> 'e keyops \<Rightarrow> ('s, 'e, 'c, 'v) qenv \<Rightarrow> ('s, 'e, 'c, 't, 'v) qmachine option \<Rightarrow>
      ('s, 'e, 'c, 't, 'v) qobserver list \<Rightarrow> ('s, 'e, 'c, 't, 'v) qworld \<Rightarrow>
      ('s, 'e, 'c, 't, 'v) qsys \<Rightarrow> bool" for K L Q m observers w0 where
  qstart: "qreach K L Q m observers w0 \<lparr>y_w = w0, y_drain = Off\<rparr>"
| qcaller: "qreach K L Q m observers w0 s \<Longrightarrow> api_step Q (y_w s) w \<Longrightarrow>
     qreach K L Q m observers w0
       \<lparr>y_w = w, y_drain = if y_drain s = Off \<and> q_running w then Ready else y_drain s\<rparr>"
| qdrain: "qreach K L Q m observers w0 s \<Longrightarrow>
     qreach K L Q m observers w0 (drain_step K L Q m observers s)"

fun executing :: "('s, 'e, 'c, 't) drain_pc \<Rightarrow> nat list" where
  "executing (Executing req) = [ro_id req]"
| "executing (Finished req oc) = [ro_id req]"
| "executing _ = []"

definition qsys_inv :: "('s, 'e, 'c, 't, 'v) qsys \<Rightarrow> bool" where
  "qsys_inv s \<longleftrightarrow>
     sched_inv (executing (y_drain s)) (y_w s) \<and> (q_running (y_w s) \<longleftrightarrow> y_drain s \<noteq> Off)"

lemma api_step_running: "api_step Q w w' \<Longrightarrow> q_running w \<Longrightarrow> q_running w'"
  by (induction rule: api_step.induct)
     (auto simp: Enqueue_def fire_admit_def fire_cancel_def Let_def split: option.splits prod.splits)

lemma sched_inv_take:
  assumes "sched_inv [] w" "q_roots w = req # rest"
  shows "sched_inv [ro_id req] (w\<lparr>q_roots := rest, q_started := q_started w @ [ro_id req]\<rparr>)"
proof -
  have "ro_id req \<notin> set (q_started w)"
    using sched_inv_distinct [OF assms(1)] assms(2) by auto
  moreover have "q_running w" using assms by (simp add: sched_inv_def)
  ultimately show ?thesis using assms by (auto simp: sched_inv_def)
qed

lemma sched_inv_stop:
  "sched_inv [] w \<Longrightarrow> q_roots w = [] \<Longrightarrow> sched_inv [] (w\<lparr>q_running := False, q_roots := []\<rparr>)"
  by (auto simp: sched_inv_def)

lemma sched_inv_finish:
  assumes "sched_inv [ro_id req] w"
  shows "sched_inv [] (drain_finish req oc w)"
  using assms by (auto simp: sched_inv_def drain_finish_def)

lemma sched_inv_running: "sched_inv exe w \<Longrightarrow> exe \<noteq> [] \<or> q_roots w \<noteq> [] \<Longrightarrow> q_running w"
  by (auto simp: sched_inv_def)

lemma sched_inv_max: "sched_inv [x] w \<Longrightarrow> 0 < MaxRunEvents (q_limits w)"
  by (auto simp: sched_inv_def)

lemma drain_step_inv:
  assumes "runtime_acts Q m observers" and "qsys_inv s"
  shows "qsys_inv (drain_step K L Q m observers s)"
proof (cases "y_drain s")
  case Ready
  then show ?thesis
    using assms(2) sched_inv_take [of "y_w s"] sched_inv_stop [of "y_w s"]
      sched_inv_running [of "[]" "y_w s"]
    by (auto simp: qsys_inv_def drain_step_def drain_take_def split: list.splits)
next
  case (Executing req)
  then have inv: "sched_inv [ro_id req] (y_w s)" using assms(2) by (simp add: qsys_inv_def)
  obtain w oc where "run_root K L Q m observers req (y_w s) = Some (w, oc)" "sched_inv [ro_id req] w"
    using run_root_ends [OF assms(1) sched_inv_max [OF inv], of K L req] inv by blast
  with Executing show ?thesis
    using sched_inv_running [of "[ro_id req]" w] by (simp add: qsys_inv_def drain_step_def)
next
  case (Finished req oc)
  then have inv: "sched_inv [ro_id req] (y_w s)" "q_running (y_w s)"
    using assms(2) by (simp_all add: qsys_inv_def)
  with Finished sched_inv_finish [OF inv(1), of oc] show ?thesis
    by (simp add: qsys_inv_def drain_step_def) (simp add: drain_finish_def)
qed (use assms in \<open>simp add: drain_step_def\<close>)

lemma qreach_inv:
  assumes "runtime_acts Q m observers" and "sched_inv [] w0" "\<not> q_running w0"
    and "qreach K L Q m observers w0 s"
  shows "qsys_inv s"
  using assms(4)
proof (induction rule: qreach.induct)
  case qstart
  then show ?case using assms by (simp add: qsys_inv_def)
next
  case (qcaller s w)
  then have "sched_inv (executing (y_drain s)) w"
    by (auto simp: qsys_inv_def intro: sched_inv_api_step)
  moreover have "y_drain s \<noteq> Off \<Longrightarrow> q_running w"
    using qcaller api_step_running by (auto simp: qsys_inv_def)
  ultimately show ?case by (auto simp: qsys_inv_def)
next
  case (qdrain s)
  then show ?case using drain_step_inv [OF assms(1)] by blast
qed

lemma newRuntime_inv:
  assumes "0 < MaxRoots limits \<and> 0 < MaxRunEvents limits"
  shows "sched_inv [] (fst (newRuntime initial limits observers app))"
    "\<not> q_running (fst (newRuntime initial limits observers app))"
  using assms by (simp_all add: newRuntime_def sched_inv_def)

section \<open>Every root gets its outcome\<close>

definition rank_of :: "nat \<Rightarrow> ('s, 'e, 'c, 't, 'v) qsys \<Rightarrow> nat" where
  "rank_of i s =
     3 * card {j. j \<le> i \<and> j \<notin> q_cancelled (y_w s) \<and> j \<notin> set (q_started (y_w s))} +
     (case y_drain s of Executing _ \<Rightarrow> 2 | Finished _ _ \<Rightarrow> 1 | _ \<Rightarrow> 0)"

definition settled :: "nat \<Rightarrow> ('s, 'e, 'c, 't, 'v) qsys \<Rightarrow> bool" where
  "settled i s \<longleftrightarrow> i \<in> q_cancelled (y_w s) \<or> i \<in> dom (q_results (y_w s))"

lemma drain_step_progress:
  assumes "runtime_acts Q m observers" and "qsys_inv s" and "i < q_nextRoot (y_w s)"
    and "\<not> settled i s"
  shows "rank_of i (drain_step K L Q m observers s) < rank_of i s \<and>
     i < q_nextRoot (y_w (drain_step K L Q m observers s))"
proof -
  let ?w = "y_w s"
  have inv: "sched_inv (executing (y_drain s)) ?w" using assms(2) by (simp add: qsys_inv_def)
  then have ids: "filter (\<lambda>i. i \<notin> q_cancelled ?w) [0..<q_nextRoot ?w] =
      q_started ?w @ map ro_id (q_roots ?w)"
    by (simp add: sched_inv_def)
  have "i \<in> set (filter (\<lambda>i. i \<notin> q_cancelled ?w) [0..<q_nextRoot ?w])"
    using assms(3,4) by (simp add: settled_def)
  then have i: "i \<in> set (q_started ?w) \<or> i \<in> ro_id ` set (q_roots ?w)"
    unfolding ids by simp
  have fin: "finite {j. j \<le> i \<and> P j}" for P by simp
  show ?thesis
  proof (cases "y_drain s")
    case Off
    then have "q_roots ?w = []" "i \<notin> set (q_started ?w)"
      using inv assms(2,4) by (auto simp: qsys_inv_def sched_inv_def settled_def)
    with i show ?thesis by simp
  next
    case Ready
    have "i \<notin> set (q_started ?w)"
      using inv Ready assms(4) by (auto simp: sched_inv_def settled_def)
    with i obtain req rest where roots: "q_roots ?w = req # rest" and
      mem: "i \<in> set (map ro_id (req # rest))"
      by (cases "q_roots ?w") auto
    have sorted: "sorted (q_started ?w @ map ro_id (req # rest))"
      using sorted_filter [of id "[0..<q_nextRoot ?w]" "\<lambda>i. i \<notin> q_cancelled ?w"] ids roots
      by simp
    have d: "ro_id req \<notin> set (q_started ?w)"
      using sched_inv_distinct [OF inv] roots by auto
    have "ro_id req \<in> set (filter (\<lambda>i. i \<notin> q_cancelled ?w) [0..<q_nextRoot ?w])"
      unfolding ids roots by simp
    then have nc: "ro_id req \<notin> q_cancelled ?w" by simp
    have "ro_id req \<le> i"
      using sorted mem by (auto simp: sorted_append)
    with d nc have "card {j. j \<le> i \<and> j \<notin> q_cancelled ?w \<and> j \<notin> set (q_started ?w @ [ro_id req])} <
        card {j. j \<le> i \<and> j \<notin> q_cancelled ?w \<and> j \<notin> set (q_started ?w)}"
      by (intro psubset_card_mono) auto
    with Ready roots assms(3) show ?thesis
      by (simp add: rank_of_def drain_step_def drain_take_def)
  next
    case (Executing req)
    then have inv: "sched_inv [ro_id req] ?w" using inv by simp
    obtain w oc where "run_root K L Q m observers req ?w = Some (w, oc)"
      "q_started w = q_started ?w" "q_cancelled ?w \<subseteq> q_cancelled w" "q_nextRoot ?w \<le> q_nextRoot w"
      using run_root_ends [OF assms(1) sched_inv_max [OF inv], of K L req] by blast
    moreover from this have "card {j. j \<le> i \<and> j \<notin> q_cancelled w \<and> j \<notin> set (q_started w)} \<le>
        card {j. j \<le> i \<and> j \<notin> q_cancelled ?w \<and> j \<notin> set (q_started ?w)}"
      by (intro card_mono) auto
    ultimately show ?thesis
      using Executing assms(3) by (simp add: rank_of_def drain_step_def)
  next
    case (Finished req oc)
    with assms(3) show ?thesis by (simp add: rank_of_def drain_step_def drain_finish_def)
  qed
qed

lemma drain_settles:
  assumes "runtime_acts Q m observers"
  shows "qsys_inv s \<Longrightarrow> i < q_nextRoot (y_w s) \<Longrightarrow>
     \<exists>n. settled i ((drain_step K L Q m observers ^^ n) s)"
proof (induction "rank_of i s" arbitrary: s rule: less_induct)
  case less
  show ?case
  proof (cases "settled i s")
    case True
    then show ?thesis by (intro exI [of _ 0]) simp
  next
    case False
    let ?s = "drain_step K L Q m observers s"
    note p = drain_step_progress [OF assms less.prems False, of K L]
    obtain n where "settled i ((drain_step K L Q m observers ^^ n) ?s)"
      using less.hyps [of ?s] p drain_step_inv [OF assms less.prems(1)] by blast
    then show ?thesis by (intro exI [of _ "Suc n"]) (simp add: funpow_swap1)
  qed
qed

section \<open>A runtime whose effect enqueues a follow-up\<close>

definition q_demo_env :: "(nat, nat, unit, unit) qenv" where
  "q_demo_env = \<lparr>qe_me = 7, qe_err = (\<lambda>_ _. None), qe_other = (\<lambda>_ _. False), qe_now = (\<lambda>_. 0)\<rparr>"

definition q_demo_do ::
    "(nat, nat, unit qctx, nat, (nat, nat, unit, nat, unit) qworld) callback" where
  "q_demo_do ctx data = (\<lambda>w. case Enqueue q_demo_env ctx 5 data w of (w', err) \<Rightarrow> (w', Ret err))"

definition q_demo_machine :: "(nat, nat, unit, nat, unit) qmachine" where
  "q_demo_machine = table_machine demo_keys demo_keys
     [\<lparr>t_from = 0, t_event = 0, t_to = 2, t_guard = None, t_do = Some q_demo_do\<rparr>,
      \<lparr>t_from = 2, t_event = 5, t_to = 3, t_guard = None, t_do = None\<rparr>]"

definition q_demo_world :: "(nat, nat, unit, nat, unit) qworld" where
  "q_demo_world = fst (newRuntime 0 \<lparr>MaxRoots = 2, MaxRunEvents = 3\<rparr> [] ())"

definition q_demo_root :: "(nat, unit, nat) root" where
  "q_demo_root = \<lparr>ro_id = 0, ro_ctx = \<lparr>qc_base = (), qc_exec = None\<rparr>, ro_event = 0, ro_data = 4\<rparr>"

lemma q_demo_acts: "runtime_acts q_demo_env (Some q_demo_machine) []"
proof -
  have "api q_demo_env w (fst (Enqueue q_demo_env ctx 5 data w))" for ctx data
    and w :: "(nat, nat, unit, nat, unit) qworld"
    unfolding api_def by (intro r_into_rtranclp api_enqueue)
  then have "acts (api q_demo_env) (q_demo_do ctx data)" for ctx data
    by (simp add: acts_def q_demo_do_def case_prod_beta)
  then show ?thesis
    by (auto simp: runtime_acts_def machine_acts_def q_demo_machine_def table_rows_def row_key_def)
qed

lemma q_demo_inv:
  "sched_inv [] q_demo_world" "\<not> q_running q_demo_world" "0 < MaxRunEvents (q_limits q_demo_world)"
  by (simp_all add: q_demo_world_def newRuntime_inv) (simp add: newRuntime_def)

lemma q_demo_reach:
  "\<exists>s. qreach demo_keys demo_keys q_demo_env (Some q_demo_machine) [] q_demo_world s \<and>
     q_roots (y_w s) = [q_demo_root] \<and> q_nextRoot (y_w s) = 1 \<and> q_cancelled (y_w s) = {}"
proof -
  let ?w = "fst (fire_admit q_demo_env \<lparr>qc_base = (), qc_exec = None\<rparr> 0 4 q_demo_world)"
  let ?s = "\<lparr>y_w = q_demo_world, y_drain = Off\<rparr> :: (nat, nat, unit, nat, unit) qsys"
  have "qreach demo_keys demo_keys q_demo_env (Some q_demo_machine) [] q_demo_world
      \<lparr>y_w = ?w, y_drain = if y_drain ?s = Off \<and> q_running ?w then Ready else y_drain ?s\<rparr>"
    by (rule qcaller [OF qstart]) (simp add: api_admit)
  moreover have "q_roots ?w = [q_demo_root]" "q_nextRoot ?w = 1" "q_cancelled ?w = {}"
    by (simp_all add: fire_admit_def q_demo_world_def newRuntime_def base_err_def q_demo_env_def
        q_demo_root_def)
  ultimately show ?thesis by (metis qsys.select_convs(1))
qed

section \<open>Properties\<close>

text \<open>C34. A root's cascade always ends, within its event limit, whatever its callbacks enqueue,
  return, panic with or stop on, as long as they reach the runtime only through its API. It
  reports the committed state, leaves no follow-up behind, and closes the cascade: an Enqueue with
  its context afterwards is refused with ErrNotRunning and changes nothing.\<close>

theorem cascade_always_ends:
  assumes "runtime_acts Q m observers" and "0 < MaxRunEvents (q_limits w)"
  shows "\<exists>w' oc. run_root K L Q m observers req w = Some (w', oc) \<and> oc_state oc = q_state w' \<and>
     c_pending (q_cascades w' (q_runs w)) = [] \<and>
     (\<forall>base live event data.
        Enqueue Q \<lparr>qc_base = base, qc_exec =
            Some \<lparr>x_owner = qe_me Q, x_cascade = q_runs w, x_live = live\<rparr>\<rparr> event data w' =
          (w', Some (Sentinel ErrNotRunning)))"
  using run_root_ends [OF assms, of K L req]
  by (elim exE conjE, intro exI conjI) (assumption | simp add: Enqueue_def x_active_def)+

theorem cascade_always_ends_witness:
  "\<exists>w' oc. run_root demo_keys demo_keys q_demo_env (Some q_demo_machine) [] q_demo_root q_demo_world =
     Some (w', oc) \<and> oc_state oc = q_state w'"
  using cascade_always_ends [OF q_demo_acts q_demo_inv(3), of demo_keys demo_keys q_demo_root]
  by blast

text \<open>C35. In every reachable state of a runtime with positive limits, under any interleaving of
  callers with the drain goroutine: the outstanding count is the waiting roots plus the executing
  one and stays within its limit; the roots taken so far followed by those waiting are the
  admitted ones in admission order, less the cancelled ones; a root has an outcome exactly when it
  was taken and has finished; and a waiting root means the drain goroutine is running.\<close>

theorem roots_run_in_admission_order:
  assumes "runtime_acts Q m observers" and "0 < MaxRoots limits" and "0 < MaxRunEvents limits"
    and "qreach K L Q m observers (fst (newRuntime initial limits obs app)) s"
  shows "q_rootCount (y_w s) = int (length (q_roots (y_w s)) + length (executing (y_drain s))) \<and>
     q_rootCount (y_w s) \<le> MaxRoots (q_limits (y_w s)) \<and>
     q_started (y_w s) @ map ro_id (q_roots (y_w s)) =
       filter (\<lambda>i. i \<notin> q_cancelled (y_w s)) [0..<q_nextRoot (y_w s)] \<and>
     dom (q_results (y_w s)) = set (q_started (y_w s)) - set (executing (y_drain s)) \<and>
     (q_roots (y_w s) \<noteq> [] \<longrightarrow> y_drain s \<noteq> Off)"
proof -
  have "qsys_inv s"
    using qreach_inv [OF assms(1) newRuntime_inv assms(4)] assms(2,3) by simp
  then show ?thesis by (auto simp: qsys_inv_def sched_inv_def)
qed

theorem roots_run_in_admission_order_witness:
  "\<exists>s :: (nat, nat, unit, nat, unit) qsys. q_roots (y_w s) = [q_demo_root] \<and> y_drain s \<noteq> Off \<and> q_rootCount (y_w s) \<le> MaxRoots (q_limits (y_w s))"
proof -
  obtain s where s: "qreach demo_keys demo_keys q_demo_env (Some q_demo_machine) []
      (fst (newRuntime 0 \<lparr>MaxRoots = 2, MaxRunEvents = 3\<rparr> [] ())) s" "q_roots (y_w s) = [q_demo_root]"
    using q_demo_reach unfolding q_demo_world_def by blast
  have "0 < MaxRoots \<lparr>MaxRoots = 2, MaxRunEvents = 3\<rparr>" "0 < MaxRunEvents \<lparr>MaxRoots = 2, MaxRunEvents = 3\<rparr>"
    by simp_all
  from roots_run_in_admission_order [OF q_demo_acts this s(1)] s(2) show ?thesis by auto
qed

text \<open>C36. Every admitted root is eventually settled: from any reachable state, after finitely many
  pieces of the drain goroutine the root has its outcome or was cancelled by its caller, no matter
  how earlier roots ended (panics and stopped goroutines included) and how many roots their
  callbacks let in behind it.\<close>

theorem every_root_settles:
  assumes "runtime_acts Q m observers" and "0 < MaxRoots limits" and "0 < MaxRunEvents limits"
    and "qreach K L Q m observers (fst (newRuntime initial limits obs app)) s"
    and "i < q_nextRoot (y_w s)"
  shows "\<exists>n. i \<in> q_cancelled (y_w ((drain_step K L Q m observers ^^ n) s)) \<or>
     i \<in> dom (q_results (y_w ((drain_step K L Q m observers ^^ n) s)))"
  using drain_settles [OF assms(1) qreach_inv [OF assms(1) newRuntime_inv assms(4)] assms(5)] assms(2,3)
  unfolding settled_def by blast

theorem every_root_settles_witness:
  "\<exists>s n. q_roots (y_w s) = [q_demo_root] \<and>
     (0 \<in> q_cancelled (y_w ((drain_step demo_keys demo_keys q_demo_env (Some q_demo_machine) [] ^^ n) s)) \<or>
      0 \<in> dom (q_results (y_w ((drain_step demo_keys demo_keys q_demo_env (Some q_demo_machine) [] ^^ n) s))))"
proof -
  obtain s where s: "qreach demo_keys demo_keys q_demo_env (Some q_demo_machine) []
      (fst (newRuntime 0 \<lparr>MaxRoots = 2, MaxRunEvents = 3\<rparr> [] ())) s"
    "q_roots (y_w s) = [q_demo_root]" "0 < q_nextRoot (y_w s)"
    using q_demo_reach unfolding q_demo_world_def by auto
  have "0 < MaxRoots \<lparr>MaxRoots = 2, MaxRunEvents = 3\<rparr>" "0 < MaxRunEvents \<lparr>MaxRoots = 2, MaxRunEvents = 3\<rparr>"
    by simp_all
  from every_root_settles [OF q_demo_acts this s(1,3)] s(2) show ?thesis by blast
qed

end
