(* ===== verification/Super_Types.thy ===== *)
theory Super_Types
  imports Prelude Keycheck
begin

text \<open>
  \<^verbatim>\<open>supervised/definition.go\<close>, \<^verbatim>\<open>supervised/result.go\<close>: the types of a supervised execution.

  Identifiers are the code points of a Go string; \<open>blank\<close> is \<^verbatim>\<open>strings.TrimSpace\<close> leaving nothing.
  A time is a natural number, 0 the zero \<^verbatim>\<open>time.Time\<close>. \<open>serr\<close> has a constructor for each way the
  package builds an error, \<open>serr_is\<close> is \<^verbatim>\<open>errors.Is\<close> against one of its sentinels; \<open>SNew\<close> is an
  error made from a text alone. \<^verbatim>\<open>captureErrorText\<close> keeps an error's identity and only renders its
  text, so it is the identity here; the text \<^verbatim>\<open>safeErrorText\<close> renders is a parameter.
\<close>

type_synonym ident = "nat list"
type_synonym time = nat

text \<open>The code points \<^verbatim>\<open>unicode.IsSpace\<close> accepts.\<close>

definition is_space :: "nat \<Rightarrow> bool" where
  "is_space c \<longleftrightarrow>
     c \<in> {9, 10, 11, 12, 13, 32, 0x85, 0xA0, 0x1680, 0x2028, 0x2029, 0x202F, 0x205F, 0x3000} \<or>
     0x2000 \<le> c \<and> c \<le> 0x200A"

definition blank :: "ident \<Rightarrow> bool" where
  "blank s \<longleftrightarrow> list_all is_space s"

section \<open>Phases, modes and decisions\<close>

datatype sphase =
    PhaseNone | PhaseStart | PhasePrecondition | PhaseSelection | PhaseGuard | PhaseInvariant
  | PhaseIssue | PhaseVerify | PhasePostcondition | PhaseCommit | PhaseRecover | PhaseTrip
  | PhaseAdjudicate | OtherPhase "8 word"

datatype mode =
    ModeStopped | ModeReady | ModeExecuting | ModeAwaitingVerification | ModeFaulted

datatype adjudication =
    AdjudicateRetain | AdjudicateAdopt | AdjudicateOverride | OtherAdjudication "8 word"

record slimits =
  OperationTimeout :: int
  VerificationTimeout :: int
  MaxRecords :: int

record 's decision =
  de_outcome :: adjudication
  de_state :: 's
  de_evidence :: ident

section \<open>Attempts and changes\<close>

record attempt_id =
  ai_execution :: ident
  ai_incarnation :: ident
  ai_sequence :: u64

record ('s, 'e) attempt =
  at_definition :: ident
  at_execution :: ident
  at_incarnation :: ident
  at_id :: u64
  at_revision :: u64
  at_started :: time
  at_from :: 's
  at_event :: 'e

definition Identifier :: "('s, 'e, 'z) attempt_scheme \<Rightarrow> attempt_id" where
  "Identifier a = \<lparr>ai_execution = at_execution a, ai_incarnation = at_incarnation a,
                   ai_sequence = at_id a\<rparr>"

record ('s, 'e) change = "('s, 'e) attempt" +
  ch_transition :: ident
  ch_to :: 's

section \<open>Snapshots\<close>

record ('s, 'e) pending_snapshot =
  ps_started :: time
  ps_attempt :: attempt_id
  ps_revision :: u64
  ps_from :: 's
  ps_event :: 'e
  ps_transition :: ident
  ps_to :: 's
  ps_issuedAt :: time
  ps_deadline :: time

record ('s, 'e) ssnapshot =
  sn_version :: "32 word"
  sn_definition :: ident
  sn_execution :: ident
  sn_incarnation :: ident
  sn_restarts :: u64
  sn_state :: 's
  sn_revision :: u64
  sn_attempt :: u64
  sn_records :: u64
  sn_pending :: "('s, 'e) pending_snapshot option"
  sn_inDoubt :: bool
  sn_faulted :: bool
  sn_uncertain :: bool
  sn_faultPhase :: sphase
  sn_cause :: ident
  sn_recordedAt :: time

section \<open>Errors and faults\<close>

datatype ssentinel =
    SErrNotPermitted | SErrInvalidKey | ErrNilMachine | SErrInvalidLimits | ErrNotStarted
  | ErrAlreadyStarted | ErrBusy | ErrAwaitingVerification | ErrNoPending | ErrStaleAttempt
  | ErrFaulted | ErrNotFaulted | ErrCallbackRunning | ErrOperationTimeout
  | ErrVerificationTimeout | SErrExecutionStopped | ErrDefinitionMismatch | ErrUnknownState
  | ErrUnknownEvent | ErrCounterExhausted | ErrInvalidSnapshot | ErrSnapshotVersion
  | ErrInvalidDecision | ErrRestoredInDoubt | ErrJournalRequired | ErrJournal
  | ErrDeliveryBusy | ErrTripped | ErrViolation | ErrNilContext | ErrNilWriter
  | ErrDeadlineExceeded | ErrCanceled

text \<open>A Fault: the change it names, where the execution stood, and its cause.\<close>

datatype ('s, 'e, 'x) fault = Fault
  (f_change: "('s, 'e) change") (f_definition: ident) (f_execution: ident)
  (f_incarnation: ident) (f_attempt: u64) (f_revision: u64) (f_state: 's) (f_event: 'e)
  (f_transition: ident) (f_to: 's) (f_phase: sphase) (f_uncertain: bool) (f_issuedAt: time)
  (f_deadline: time) (f_occurredAt: time) (f_text: ident) (f_cause: 'x)

datatype ('s, 'e) serr =
    SSentinel ssentinel
  | SApp "('s, 'e) err"
  | SNew ident
  | SJoined "('s, 'e) serr list"
  | SWrapf "('s, 'e) serr"
  | SViolation sphase "('s, 'e) serr"
  | SPanicked "('s, 'e) pval"
  | SOperationTimeout "('s, 'e) serr"
  | SRefusal 's 'e "('s, 'e) serr list"
  | SFault "('s, 'e, ('s, 'e) serr) fault"

lemma size_cause [termination_simp]:
  "size (f_cause f) < Suc (size_fault (\<lambda>_. 0) (\<lambda>_. 0) size f)"
  by (cases f) simp

fun serr_is :: "ssentinel \<Rightarrow> ('s, 'e) serr \<Rightarrow> bool" where
  "serr_is s (SSentinel t) = (s = t)"
| "serr_is s (SApp e) =
     (s = SErrNotPermitted \<and> is_sentinel ErrNotPermitted e \<or>
      s = SErrInvalidKey \<and> is_sentinel ErrInvalidKey e)"
| "serr_is s (SNew text) = False"
| "serr_is s (SJoined es) = list_ex (serr_is s) es"
| "serr_is s (SWrapf e) = serr_is s e"
| "serr_is s (SViolation p e) = (s = ErrViolation \<or> serr_is s e)"
| "serr_is s (SPanicked v) = False"
| "serr_is s (SOperationTimeout e) = (s = ErrOperationTimeout \<or> serr_is s e)"
| "serr_is s (SRefusal a b es) = list_ex (serr_is s) es"
| "serr_is s (SFault f) = (s = ErrFaulted \<or> serr_is s (f_cause f))"

type_synonym ('s, 'e) sfault = "('s, 'e, ('s, 'e) serr) fault"

section \<open>Callbacks\<close>

type_synonym ('s, 'e, 'c, 't, 'w) precondition =
  "'c \<Rightarrow> ('s, 'e) attempt \<Rightarrow> 't \<Rightarrow> ('s, 'e, 'w, ('s, 'e) serr option) act"

type_synonym ('s, 'e, 'c, 't, 'w) check =
  "'c \<Rightarrow> ('s, 'e) change \<Rightarrow> 't \<Rightarrow> ('s, 'e, 'w, ('s, 'e) serr option) act"

type_synonym ('s, 'e, 'c, 't, 'w) reconciler =
  "'c \<Rightarrow> ('s, 'e) ssnapshot \<Rightarrow> 't \<Rightarrow> ('s, 'e, 'w, ('s, 'e) serr option) act"

end
