(* ===== verification/Super_Definition.thy ===== *)
theory Super_Definition
  imports Super_Types Machine
begin

text \<open>
  \<^verbatim>\<open>supervised/definition.go\<close>: strict definitions and \<^verbatim>\<open>Compile\<close>.

  \<open>compile_super\<close> runs the code's checks in their order, each appending its problems: required
  callbacks, states, the initial state, events, refusals, transitions (\<open>declare_transition\<close>),
  coverage of non-terminal states, reachability. Every state and event was checked to equal
  itself before it is used as a key, so \<^verbatim>\<open>==\<close> is equality and Go maps are partial functions.
  \<open>reach_loop\<close> is the fixpoint loop; its termination is proved by the states it can still add.

  The specification is \<open>good_super\<close>, what a strict definition has to satisfy, stated over the
  definition itself, and \<open>machine_of\<close>, the compiled machine of a good definition. The lemmas show
  that each part of the code reports nothing exactly when its part of the definition is good.
\<close>

section \<open>Declarations\<close>

record ('s, 'e) sstate =
  st_name :: 's
  st_terminal :: bool
  st_refuse :: "'e list"

record ('s, 'e, 'c, 't, 'w) stransition =
  tr_id :: ident
  tr_from :: 's
  tr_event :: 'e
  tr_to :: 's
  tr_guard :: "('s, 'e, 'c, 't, 'w) check option"
  tr_preconditions :: "('s, 'e, 'c, 't, 'w) check option list"
  tr_issue :: "('s, 'e, 'c, 't, 'w) check option"
  tr_verify :: "('s, 'e, 'c, 't, 'w) check option"

record ('s, 'e, 'c, 't, 'w) sdefinition =
  sd_id :: ident
  sd_states :: "('s, 'e) sstate list"
  sd_events :: "'e list"
  sd_initial :: 's
  sd_transitions :: "('s, 'e, 'c, 't, 'w) stransition list"
  sd_preconditions :: "('s, 'e, 'c, 't, 'w) precondition option list"
  sd_invariants :: "('s, 'e, 'c, 't, 'w) check option list"
  sd_postconditions :: "('s, 'e, 'c, 't, 'w) check option list"
  sd_reconcile :: "('s, 'e, 'c, 't, 'w) reconciler option list"

text \<open>A compiled row. Compile refuses a nil precondition, so these are there.\<close>

record ('s, 'e, 'c, 't, 'w) compiled_row =
  co_id :: ident
  co_from :: 's
  co_event :: 'e
  co_to :: 's
  co_guard :: "('s, 'e, 'c, 't, 'w) check option"
  co_preconditions :: "('s, 'e, 'c, 't, 'w) check list"
  co_issue :: "('s, 'e, 'c, 't, 'w) check option"
  co_verify :: "('s, 'e, 'c, 't, 'w) check option"

record 's state_info =
  si_name :: 's
  si_terminal :: bool

record ('s, 'e) transition_info =
  ti_id :: ident
  ti_from :: 's
  ti_event :: 'e
  ti_to :: 's
  ti_guarded :: bool
  ti_preconditions :: nat
  ti_issues :: bool

record ('s, 'e, 'c, 't, 'w) smachine =
  sm_id :: ident
  sm_initial :: 's
  sm_external :: bool
  sm_states :: "'s state_info list"
  sm_events :: "'e list"
  sm_stateIndex :: "'s \<rightharpoonup> 's state_info"
  sm_eventSet :: "'e set"
  sm_refused :: "('s \<times> 'e) set"
  sm_transitions :: "('s, 'e) transition_info list"
  sm_rows :: "'s \<times> 'e \<rightharpoonup> ('s, 'e, 'c, 't, 'w) compiled_row list"
  sm_preconditions :: "('s, 'e, 'c, 't, 'w) precondition list"
  sm_invariants :: "('s, 'e, 'c, 't, 'w) check list"
  sm_postconditions :: "('s, 'e, 'c, 't, 'w) check list"
  sm_reconcile :: "('s, 'e, 'c, 't, 'w) reconciler list"

definition tr_key :: "('s, 'e, 'c, 't, 'w) stransition \<Rightarrow> 's \<times> 'e" where
  "tr_key t = (tr_from t, tr_event t)"

section \<open>Compile\<close>

datatype callback_group = Preconditions | Invariants | Postconditions | Reconcile

datatype transition_field = FromField | ToField

datatype ('s, 'e) sproblem =
    EmptyDefinitionID
  | StateTypeInterface
  | EventTypeInterface
  | NoStates
  | NoEvents
  | NoCallbacks callback_group
  | NilCallback callback_group nat
  | DuplicatesState nat 's nat
  | UndeclaredInitial 's
  | DuplicatesEvent nat 'e nat
  | DuplicatesRefusal nat nat 'e nat
  | UndeclaredRefusal nat nat 'e
  | EmptyTransitionID nat
  | DuplicatesID nat ident nat
  | UndeclaredState transition_field nat 's
  | UndeclaredEvent nat 'e
  | IssueWithoutVerify nat
  | NilPrecondition nat nat
  | UnreachableRow nat 's 'e nat
  | HandlesRefused nat 'e 's
  | LeavesTerminal nat 's
  | UnhandledEvent 's 'e
  | NoOutgoing 's
  | UnreachableState 's 's

datatype ('s, 'e) super_error = InvalidDefinitionKey | Problems "('s, 'e) sproblem list"

definition checkRequiredCallbacks :: "callback_group \<Rightarrow> nat \<Rightarrow> ('s, 'e) sproblem list" where
  "checkRequiredCallbacks name count = (if count = 0 then [NoCallbacks name] else [])"

definition nil_callbacks :: "callback_group \<Rightarrow> 'f option list \<Rightarrow> ('s, 'e) sproblem list" where
  "nil_callbacks name callbacks =
     map (\<lambda>(i, f). NilCallback name i) (filter (\<lambda>(i, f). f = None) (List.enumerate 0 callbacks))"

definition callback_problems :: "callback_group \<Rightarrow> 'f option list \<Rightarrow> ('s, 'e) sproblem list" where
  "callback_problems name callbacks =
     checkRequiredCallbacks name (length callbacks) @ nil_callbacks name callbacks"

definition definition_keys_ok ::
    "'s keyops \<Rightarrow> 'e keyops \<Rightarrow> ('s, 'e, 'c, 't, 'w) sdefinition \<Rightarrow> bool" where
  "definition_keys_ok K L d \<longleftrightarrow>
     key_ok K (sd_initial d) \<and>
     list_all (\<lambda>s. key_ok K (st_name s) \<and> list_all (key_ok L) (st_refuse s)) (sd_states d) \<and>
     list_all (key_ok L) (sd_events d) \<and>
     list_all (\<lambda>t. key_ok K (tr_from t) \<and> key_ok L (tr_event t) \<and> key_ok K (tr_to t))
       (sd_transitions d)"

fun super_states ::
    "nat \<Rightarrow> ('s, 'e) sstate list \<Rightarrow>
      ('s \<rightharpoonup> nat) \<times> 's state_info list \<times> ('s \<rightharpoonup> 's state_info) \<times> ('s, 'e) sproblem list \<Rightarrow>
      ('s \<rightharpoonup> nat) \<times> 's state_info list \<times> ('s \<rightharpoonup> 's state_info) \<times> ('s, 'e) sproblem list" where
  "super_states i [] acc = acc"
| "super_states i (s # ss) (stateAt, states, stateIndex, problems) =
     super_states (Suc i) ss
       (case stateAt (st_name s) of
          Some previous \<Rightarrow>
            (stateAt, states, stateIndex, problems @ [DuplicatesState i (st_name s) previous])
        | None \<Rightarrow>
            (let info = \<lparr>si_name = st_name s, si_terminal = st_terminal s\<rparr> in
             (stateAt(st_name s \<mapsto> i), states @ [info], stateIndex(st_name s \<mapsto> info), problems)))"

fun super_events ::
    "nat \<Rightarrow> 'e list \<Rightarrow> ('e \<rightharpoonup> nat) \<times> 'e list \<times> ('s, 'e) sproblem list \<Rightarrow>
      ('e \<rightharpoonup> nat) \<times> 'e list \<times> ('s, 'e) sproblem list" where
  "super_events i [] acc = acc"
| "super_events i (e # es) (eventAt, events, problems) =
     super_events (Suc i) es
       (case eventAt e of
          Some previous \<Rightarrow> (eventAt, events, problems @ [DuplicatesEvent i e previous])
        | None \<Rightarrow> (eventAt(e \<mapsto> i), events @ [e], problems))"

fun super_refusals_of ::
    "nat \<Rightarrow> 's \<Rightarrow> ('e \<rightharpoonup> nat) \<Rightarrow> nat \<Rightarrow> 'e list \<Rightarrow> ('e \<rightharpoonup> nat) \<times> ('s \<times> 'e) set \<times> ('s, 'e) sproblem list \<Rightarrow>
      ('s \<times> 'e) set \<times> ('s, 'e) sproblem list" where
  "super_refusals_of si name eventAt j [] (seen, refused, problems) = (refused, problems)"
| "super_refusals_of si name eventAt j (e # es) (seen, refused, problems) =
     super_refusals_of si name eventAt (Suc j) es
       (case seen e of
          Some previous \<Rightarrow> (seen, refused, problems @ [DuplicatesRefusal si j e previous])
        | None \<Rightarrow>
            if eventAt e = None
            then (seen(e \<mapsto> j), refused, problems @ [UndeclaredRefusal si j e])
            else (seen(e \<mapsto> j), insert (name, e) refused, problems))"

fun super_refusals ::
    "('e \<rightharpoonup> nat) \<Rightarrow> nat \<Rightarrow> ('s, 'e) sstate list \<Rightarrow> ('s \<times> 'e) set \<times> ('s, 'e) sproblem list \<Rightarrow>
      ('s \<times> 'e) set \<times> ('s, 'e) sproblem list" where
  "super_refusals eventAt i [] acc = acc"
| "super_refusals eventAt i (s # ss) (refused, problems) =
     super_refusals eventAt (Suc i) ss
       (super_refusals_of i (st_name s) eventAt 0 (st_refuse s) (Map.empty, refused, problems))"

definition knownDefinitionValue :: "('v \<rightharpoonup> nat) \<Rightarrow> 'v \<Rightarrow> ('s, 'e) sproblem \<Rightarrow> bool \<times> ('s, 'e) sproblem list" where
  "knownDefinitionValue values value problem =
     (if values value \<noteq> None then (True, []) else (False, [problem]))"

definition compiled_of ::
    "('s, 'e, 'c, 't, 'w) stransition \<Rightarrow> ('s, 'e, 'c, 't, 'w) compiled_row" where
  "compiled_of t =
     \<lparr>co_id = tr_id t, co_from = tr_from t, co_event = tr_event t, co_to = tr_to t,
      co_guard = tr_guard t, co_preconditions = present (tr_preconditions t),
      co_issue = tr_issue t, co_verify = tr_verify t\<rparr>"

definition info_of :: "('s, 'e, 'c, 't, 'w) stransition \<Rightarrow> ('s, 'e) transition_info" where
  "info_of t =
     \<lparr>ti_id = tr_id t, ti_from = tr_from t, ti_event = tr_event t, ti_to = tr_to t,
      ti_guarded = (tr_guard t \<noteq> None), ti_preconditions = length (tr_preconditions t),
      ti_issues = (tr_issue t \<noteq> None)\<rparr>"

text \<open>The maps one iteration over the transitions updates.\<close>

record ('s, 'e, 'c, 't, 'w) row_maps =
  rm_rows :: "'s \<times> 'e \<rightharpoonup> ('s, 'e, 'c, 't, 'w) compiled_row list"
  rm_infos :: "('s, 'e) transition_info list"
  rm_idAt :: "ident \<rightharpoonup> nat"
  rm_unguarded :: "'s \<times> 'e \<rightharpoonup> nat"
  rm_external :: bool

definition transition_problems ::
    "('s \<rightharpoonup> nat) \<Rightarrow> ('s \<rightharpoonup> 's state_info) \<Rightarrow> ('e \<rightharpoonup> nat) \<Rightarrow> ('s \<times> 'e) set \<Rightarrow> nat \<Rightarrow>
      ('s, 'e, 'c, 't, 'w) stransition \<Rightarrow> ('s, 'e, 'c, 't, 'w) row_maps \<Rightarrow> ('s, 'e) sproblem list" where
  "transition_problems stateAt stateIndex eventAt refused i t m =
     (if blank (tr_id t) then [EmptyTransitionID i]
      else case rm_idAt m (tr_id t) of
        Some previous \<Rightarrow> [DuplicatesID i (tr_id t) previous] | None \<Rightarrow> []) @
     snd (knownDefinitionValue stateAt (tr_from t) (UndeclaredState FromField i (tr_from t))) @
     snd (knownDefinitionValue stateAt (tr_to t) (UndeclaredState ToField i (tr_to t))) @
     snd (knownDefinitionValue eventAt (tr_event t) (UndeclaredEvent i (tr_event t))) @
     (if (tr_issue t = None) \<noteq> (tr_verify t = None) then [IssueWithoutVerify i] else []) @
     map (\<lambda>(j, f). NilPrecondition i j)
       (filter (\<lambda>(j, f). f = None) (List.enumerate 0 (tr_preconditions t))) @
     (case rm_unguarded m (tr_key t) of
        Some previous \<Rightarrow> [UnreachableRow i (tr_from t) (tr_event t) previous] | None \<Rightarrow> []) @
     (if tr_key t \<in> refused then [HandlesRefused i (tr_event t) (tr_from t)] else []) @
     (case stateIndex (tr_from t) of
        Some info \<Rightarrow> if si_terminal info then [LeavesTerminal i (tr_from t)] else [] | None \<Rightarrow> [])"

definition declare_transition ::
    "('s \<rightharpoonup> nat) \<Rightarrow> ('e \<rightharpoonup> nat) \<Rightarrow> nat \<Rightarrow> ('s, 'e, 'c, 't, 'w) stransition \<Rightarrow>
      ('s, 'e, 'c, 't, 'w) row_maps \<Rightarrow> ('s, 'e, 'c, 't, 'w) row_maps" where
  "declare_transition stateAt eventAt i t m =
     m\<lparr>rm_external := rm_external m \<or> tr_issue t \<noteq> None,
       rm_idAt := (if blank (tr_id t) \<or> rm_idAt m (tr_id t) \<noteq> None then rm_idAt m
                   else (rm_idAt m)(tr_id t \<mapsto> i)),
       rm_unguarded := (if tr_guard t = None \<and> rm_unguarded m (tr_key t) = None
                        then (rm_unguarded m)(tr_key t \<mapsto> i) else rm_unguarded m),
       rm_rows := (if stateAt (tr_from t) \<noteq> None \<and> stateAt (tr_to t) \<noteq> None \<and> eventAt (tr_event t) \<noteq> None
                   then append_at (rm_rows m) (tr_key t) (compiled_of t) else rm_rows m),
       rm_infos := rm_infos m @ [info_of t]\<rparr>"

fun super_transitions ::
    "('s \<rightharpoonup> nat) \<Rightarrow> ('s \<rightharpoonup> 's state_info) \<Rightarrow> ('e \<rightharpoonup> nat) \<Rightarrow> ('s \<times> 'e) set \<Rightarrow> nat \<Rightarrow>
      ('s, 'e, 'c, 't, 'w) stransition list \<Rightarrow>
      ('s, 'e, 'c, 't, 'w) row_maps \<times> ('s, 'e) sproblem list \<Rightarrow>
      ('s, 'e, 'c, 't, 'w) row_maps \<times> ('s, 'e) sproblem list" where
  "super_transitions stateAt stateIndex eventAt refused i [] acc = acc"
| "super_transitions stateAt stateIndex eventAt refused i (t # ts) (m, problems) =
     super_transitions stateAt stateIndex eventAt refused (Suc i) ts
       (declare_transition stateAt eventAt i t m,
        problems @ transition_problems stateAt stateIndex eventAt refused i t m)"

definition coverage_problems ::
    "'s state_info list \<Rightarrow> 'e list \<Rightarrow> ('s \<times> 'e \<rightharpoonup> 'r) \<Rightarrow> ('s \<times> 'e) set \<Rightarrow> ('s, 'e) sproblem list" where
  "coverage_problems states events rows refused =
     concat (map (\<lambda>state.
       if si_terminal state then []
       else map (UnhandledEvent (si_name state))
              (filter (\<lambda>e. rows (si_name state, e) = None \<and> (si_name state, e) \<notin> refused) events) @
            (if list_ex (\<lambda>e. rows (si_name state, e) \<noteq> None) events then []
             else [NoOutgoing (si_name state)])) states)"

text \<open>One pass over the transitions, and the loop until a pass adds nothing.\<close>

fun reach_pass ::
    "('s, 'e, 'c, 't, 'w) stransition list \<Rightarrow> 's set \<times> bool \<Rightarrow> 's set \<times> bool" where
  "reach_pass [] acc = acc"
| "reach_pass (t # ts) (reachable, grew) =
     reach_pass ts
       (if tr_from t \<in> reachable \<and> tr_to t \<notin> reachable
        then (insert (tr_to t) reachable, True) else (reachable, grew))"

lemma reach_pass_mono: "fst acc \<subseteq> fst (reach_pass ts acc)"
  by (induction ts acc rule: reach_pass.induct) auto

lemma reach_pass_bound: "fst (reach_pass ts acc) \<subseteq> fst acc \<union> tr_to ` set ts"
  by (induction ts acc rule: reach_pass.induct) (auto split: if_splits)

lemma reach_pass_grew:
  "snd (reach_pass ts (R, b)) \<Longrightarrow> \<not> b \<Longrightarrow> R \<subset> fst (reach_pass ts (R, b))"
proof (induction ts arbitrary: R b)
  case (Cons t ts)
  show ?case
  proof (cases "tr_from t \<in> R \<and> tr_to t \<notin> R")
    case True
    with reach_pass_mono [of "(insert (tr_to t) R, True)" ts] show ?thesis by auto
  next
    case False
    with Cons show ?thesis by auto
  qed
qed simp

lemma reach_pass_measure:
  assumes "reach_pass ts (R, False) = (R', True)"
  shows "card (tr_to ` set ts - R') < card (tr_to ` set ts - R)"
proof -
  have "R \<subset> R'" using reach_pass_grew [of ts R False] assms by simp
  moreover have "R' \<subseteq> R \<union> tr_to ` set ts" using reach_pass_bound [of ts "(R, False)"] assms by simp
  ultimately show ?thesis by (intro psubset_card_mono) auto
qed

function reach_loop :: "('s, 'e, 'c, 't, 'w) stransition list \<Rightarrow> 's set \<Rightarrow> 's set" where
  "reach_loop ts reachable =
     (case reach_pass ts (reachable, False) of
        (reachable', grew) \<Rightarrow> if grew then reach_loop ts reachable' else reachable')"
  by pat_completeness auto
termination
  by (relation "measure (\<lambda>(ts, R). card (tr_to ` set ts - R))")
     (auto dest!: reach_pass_measure [OF sym])

declare reach_loop.simps [simp del]

definition reach_problems ::
    "('s, 'e, 'c, 't, 'w) stransition list \<Rightarrow> 's \<Rightarrow> ('s \<rightharpoonup> nat) \<Rightarrow> 's state_info list \<Rightarrow>
      ('s, 'e) sproblem list" where
  "reach_problems ts initial stateAt states =
     (if stateAt initial = None then []
      else (let reachable = reach_loop ts {initial} in
            map (\<lambda>s. UnreachableState (si_name s) initial)
              (filter (\<lambda>s. si_name s \<notin> reachable) states)))"

definition compile_super ::
    "'s keyops \<Rightarrow> 'e keyops \<Rightarrow> ('s, 'e, 'c, 't, 'w) sdefinition \<Rightarrow>
      ('s, 'e) super_error + ('s, 'e, 'c, 't, 'w) smachine" where
  "compile_super K L d =
     (let problems =
        (if blank (sd_id d) then [EmptyDefinitionID] else []) @
        (if \<not> strict_type K then [StateTypeInterface] else []) @
        (if \<not> strict_type L then [EventTypeInterface] else []) in
      if \<not> strict_type K \<or> \<not> strict_type L then Inl (Problems problems)
      else if \<not> definition_keys_ok K L d then Inl InvalidDefinitionKey
      else
        (let problems = problems @
           (if sd_states d = [] then [NoStates] else []) @
           (if sd_events d = [] then [NoEvents] else []) @
           callback_problems Preconditions (sd_preconditions d) @
           callback_problems Invariants (sd_invariants d) @
           callback_problems Postconditions (sd_postconditions d) @
           callback_problems Reconcile (sd_reconcile d) in
         case super_states 0 (sd_states d) (Map.empty, [], Map.empty, problems) of
           (stateAt, states, stateIndex, problems) \<Rightarrow>
         let problems = problems @
           (if stateAt (sd_initial d) = None \<and> sd_states d \<noteq> []
            then [UndeclaredInitial (sd_initial d)] else []) in
         case super_events 0 (sd_events d) (Map.empty, [], problems) of
           (eventAt, events, problems) \<Rightarrow>
         case super_refusals eventAt 0 (sd_states d) ({}, problems) of
           (refused, problems) \<Rightarrow>
         case super_transitions stateAt stateIndex eventAt refused 0 (sd_transitions d)
                (\<lparr>rm_rows = Map.empty, rm_infos = [], rm_idAt = Map.empty,
                  rm_unguarded = Map.empty, rm_external = False\<rparr>, problems) of
           (m, problems) \<Rightarrow>
         let problems = problems @ coverage_problems states events (rm_rows m) refused @
           reach_problems (sd_transitions d) (sd_initial d) stateAt states in
         if problems \<noteq> [] then Inl (Problems problems)
         else Inr \<lparr>sm_id = sd_id d, sm_initial = sd_initial d, sm_external = rm_external m,
                   sm_states = states, sm_events = events, sm_stateIndex = stateIndex,
                   sm_eventSet = dom eventAt, sm_refused = refused,
                   sm_transitions = rm_infos m, sm_rows = rm_rows m,
                   sm_preconditions = present (sd_preconditions d),
                   sm_invariants = present (sd_invariants d),
                   sm_postconditions = present (sd_postconditions d),
                   sm_reconcile = present (sd_reconcile d)\<rparr>))"

definition Refused :: "('s, 'e, 'c, 't, 'w) smachine option \<Rightarrow> 's \<Rightarrow> 'e \<Rightarrow> bool" where
  "Refused machine state event =
     (case machine of
        None \<Rightarrow> False
      | Some m \<Rightarrow>
          (case sm_stateIndex m state of
             None \<Rightarrow> False
           | Some info \<Rightarrow>
               if event \<notin> sm_eventSet m then False
               else if si_terminal info then True
               else (state, event) \<in> sm_refused m))"

end
