(* ===== verification/Super_Compile.thy ===== *)
theory Super_Compile
  imports Super_Definition
begin

text \<open>
  What the supervised \<open>compile_super\<close> accepts and what it builds.

  \<open>good_super\<close> states the rules of a strict definition over the definition itself: \<open>edges\<close> and its
  transitive closure give reachability, and no map of the compiler appears in it. Each loop of the
  compiler has a lemma of one shape: it leaves no problem exactly when there was none before and
  its part of the definition obeys the rules, and then its maps are those of the definition.
\<close>

section \<open>The rules\<close>

definition edges :: "('s, 'e, 'c, 't, 'w) stransition list \<Rightarrow> ('s \<times> 's) set" where
  "edges ts = (\<lambda>t. (tr_from t, tr_to t)) ` set ts"

definition callbacks_given :: "'f option list \<Rightarrow> bool" where
  "callbacks_given fs \<longleftrightarrow> fs \<noteq> [] \<and> None \<notin> set fs"

definition transition_ok ::
    "('s, 'e, 'c, 't, 'w) sdefinition \<Rightarrow> ('s, 'e, 'c, 't, 'w) stransition \<Rightarrow> bool" where
  "transition_ok d t \<longleftrightarrow>
     \<not> blank (tr_id t) \<and> tr_from t \<in> st_name ` set (sd_states d) \<and>
     tr_to t \<in> st_name ` set (sd_states d) \<and> tr_event t \<in> set (sd_events d) \<and>
     (tr_issue t = None \<longleftrightarrow> tr_verify t = None) \<and> None \<notin> set (tr_preconditions t) \<and>
     (\<forall>s \<in> set (sd_states d). st_name s = tr_from t \<longrightarrow>
        tr_event t \<notin> set (st_refuse s) \<and> \<not> st_terminal s)"

fun no_unreachable_row :: "('s, 'e, 'c, 't, 'w) stransition list \<Rightarrow> bool" where
  "no_unreachable_row [] = True"
| "no_unreachable_row (t # ts) \<longleftrightarrow>
     (tr_guard t = None \<longrightarrow> (\<forall>u \<in> set ts. tr_key u \<noteq> tr_key t)) \<and> no_unreachable_row ts"

definition handled :: "('s, 'e, 'c, 't, 'w) stransition list \<Rightarrow> 's \<Rightarrow> 'e \<Rightarrow> bool" where
  "handled ts s e \<longleftrightarrow> (\<exists>t \<in> set ts. tr_key t = (s, e))"

definition good_super :: "('s, 'e, 'c, 't, 'w) sdefinition \<Rightarrow> bool" where
  "good_super d \<longleftrightarrow>
     \<not> blank (sd_id d) \<and> sd_events d \<noteq> [] \<and>
     callbacks_given (sd_preconditions d) \<and> callbacks_given (sd_invariants d) \<and>
     callbacks_given (sd_postconditions d) \<and> callbacks_given (sd_reconcile d) \<and>
     distinct (map st_name (sd_states d)) \<and> sd_initial d \<in> st_name ` set (sd_states d) \<and>
     distinct (sd_events d) \<and>
     (\<forall>s \<in> set (sd_states d). distinct (st_refuse s) \<and> set (st_refuse s) \<subseteq> set (sd_events d)) \<and>
     (\<forall>t \<in> set (sd_transitions d). transition_ok d t) \<and>
     distinct (map tr_id (sd_transitions d)) \<and> no_unreachable_row (sd_transitions d) \<and>
     (\<forall>s \<in> set (sd_states d). \<not> st_terminal s \<longrightarrow>
        (\<forall>e \<in> set (sd_events d). handled (sd_transitions d) (st_name s) e \<or> e \<in> set (st_refuse s)) \<and>
        (\<exists>e \<in> set (sd_events d). handled (sd_transitions d) (st_name s) e)) \<and>
     (\<forall>s \<in> set (sd_states d). (sd_initial d, st_name s) \<in> (edges (sd_transitions d))\<^sup>*)"

definition state_info_of :: "('s, 'e) sstate \<Rightarrow> 's state_info" where
  "state_info_of s = \<lparr>si_name = st_name s, si_terminal = st_terminal s\<rparr>"

definition super_rows ::
    "('s, 'e, 'c, 't, 'w) stransition list \<Rightarrow> 's \<times> 'e \<Rightarrow> ('s, 'e, 'c, 't, 'w) compiled_row list" where
  "super_rows ts k = map compiled_of (filter (\<lambda>t. tr_key t = k) ts)"

definition refusals :: "('s, 'e) sstate list \<Rightarrow> ('s \<times> 'e) set" where
  "refusals states = {(st_name s, e) |s e. s \<in> set states \<and> e \<in> set (st_refuse s)}"

definition machine_of ::
    "('s, 'e, 'c, 't, 'w) sdefinition \<Rightarrow> ('s, 'e, 'c, 't, 'w) smachine" where
  "machine_of d =
     \<lparr>sm_id = sd_id d, sm_initial = sd_initial d,
      sm_external = list_ex (\<lambda>t. tr_issue t \<noteq> None) (sd_transitions d),
      sm_states = map state_info_of (sd_states d), sm_events = sd_events d,
      sm_stateIndex = map_of (map (\<lambda>s. (st_name s, state_info_of s)) (sd_states d)),
      sm_eventSet = set (sd_events d), sm_refused = refusals (sd_states d),
      sm_transitions = map info_of (sd_transitions d),
      sm_rows = (\<lambda>k. nonempty (super_rows (sd_transitions d) k)),
      sm_preconditions = present (sd_preconditions d), sm_invariants = present (sd_invariants d),
      sm_postconditions = present (sd_postconditions d), sm_reconcile = present (sd_reconcile d)\<rparr>"

section \<open>Reachability\<close>

lemma reach_pass_stable:
  "reach_pass ts (R, b) = (R', False) \<Longrightarrow>
     \<not> b \<and> R' = R \<and> (\<forall>t \<in> set ts. tr_from t \<in> R \<longrightarrow> tr_to t \<in> R)"
  by (induction ts arbitrary: R b) (fastforce split: if_splits)+

lemma reach_pass_sound:
  "x \<in> fst (reach_pass ts (R, b)) \<Longrightarrow> set ts \<subseteq> set us \<Longrightarrow> \<exists>r \<in> R. (r, x) \<in> (edges us)\<^sup>*"
proof (induction ts arbitrary: R b)
  case (Cons t ts)
  show ?case
  proof (cases "tr_from t \<in> R \<and> tr_to t \<notin> R")
    case True
    then have "x \<in> fst (reach_pass ts (insert (tr_to t) R, True))" using Cons.prems by simp
    from Cons.IH [OF this] Cons.prems(2) have "\<exists>r \<in> insert (tr_to t) R. (r, x) \<in> (edges us)\<^sup>*" by simp
    then obtain r where r: "r \<in> insert (tr_to t) R" "(r, x) \<in> (edges us)\<^sup>*" by blast
    have "(tr_from t, tr_to t) \<in> edges us" using Cons.prems by (auto simp: edges_def)
    with r True show ?thesis by (auto intro: converse_rtrancl_into_rtrancl)
  next
    case False
    then have "reach_pass (t # ts) (R, b) = reach_pass ts (R, b)" by auto
    with Cons show ?thesis by auto
  qed
qed auto

lemma reach_loop_step:
  "reach_pass ts (R, False) = (R', g) \<Longrightarrow> reach_loop ts R = (if g then reach_loop ts R' else R')"
  by (simp add: reach_loop.simps [of ts R])

lemma reach_loop_sound: "x \<in> reach_loop ts R \<Longrightarrow> \<exists>r \<in> R. (r, x) \<in> (edges ts)\<^sup>*"
proof (induction ts R rule: reach_loop.induct)
  case (1 ts R)
  obtain R' g where p: "reach_pass ts (R, False) = (R', g)" by fastforce
  show ?case
  proof (cases g)
    case True
    then have "x \<in> reach_loop ts R'" using 1(2) reach_loop_step [OF p] by simp
    from 1(1) [OF p [symmetric] True this] obtain r where "r \<in> R'" "(r, x) \<in> (edges ts)\<^sup>*"
      by blast
    moreover from this obtain q where "q \<in> R" "(q, r) \<in> (edges ts)\<^sup>*"
      using reach_pass_sound [of r ts R False ts] p by auto
    ultimately show ?thesis by (meson rtrancl_trans)
  next
    case False
    then have "x \<in> fst (reach_pass ts (R, False))" using 1(2) reach_loop_step [OF p] p by simp
    then show ?thesis using reach_pass_sound [of x ts R False ts] by simp
  qed
qed

lemma reach_loop_closed:
  "R \<subseteq> reach_loop ts R \<and> (\<forall>t \<in> set ts. tr_from t \<in> reach_loop ts R \<longrightarrow> tr_to t \<in> reach_loop ts R)"
proof (induction ts R rule: reach_loop.induct)
  case (1 ts R)
  obtain R' g where p: "reach_pass ts (R, False) = (R', g)" by fastforce
  have "R \<subseteq> R'" using reach_pass_mono [of "(R, False)" ts] p by simp
  then show ?case
    using 1 [OF p [symmetric]] reach_pass_stable [of ts R False R'] p
    unfolding reach_loop_step [OF p] by (cases g) auto
qed

lemma reach_loop_closure: "reach_loop ts R = (edges ts)\<^sup>* `` R"
proof
  show "reach_loop ts R \<subseteq> (edges ts)\<^sup>* `` R"
    by (auto dest: reach_loop_sound simp: Image_iff)
next
  have "x \<in> reach_loop ts R" if "(r, x) \<in> (edges ts)\<^sup>*" "r \<in> R" for r x
    using that(1)
  proof (induction rule: rtrancl_induct)
    case base
    show ?case using that(2) reach_loop_closed [of R ts] by blast
  next
    case (step y z)
    then obtain t where "t \<in> set ts" "tr_from t = y" "tr_to t = z" by (auto simp: edges_def)
    with step.IH reach_loop_closed [of R ts] show ?case by blast
  qed
  then show "(edges ts)\<^sup>* `` R \<subseteq> reach_loop ts R" by blast
qed

section \<open>States, events and refusals\<close>

lemma super_states_spec:
  "super_states i ss (stateAt, states, index, ps) = (stateAt', states', index', ps') \<Longrightarrow>
     (ps' = [] \<longleftrightarrow> ps = [] \<and> distinct (map st_name ss) \<and> (\<forall>s \<in> set ss. stateAt (st_name s) = None)) \<and>
     (ps' = [] \<longrightarrow> dom stateAt' = dom stateAt \<union> st_name ` set ss \<and> states' = states @ map state_info_of ss \<and>
        index' = index ++ map_of (map (\<lambda>s. (st_name s, state_info_of s)) ss))"
proof (induction ss arbitrary: i stateAt states index ps)
  case (Cons s ss)
  show ?case
  proof (cases "stateAt (st_name s)")
    case None
    let ?m = "map_of (map (\<lambda>s. (st_name s, state_info_of s)) ss)"
    have run: "super_states (Suc i) ss (stateAt(st_name s \<mapsto> i), states @ [state_info_of s],
        index(st_name s \<mapsto> state_info_of s), ps) = (stateAt', states', index', ps')"
      using Cons.prems None by (simp add: state_info_of_def Let_def)
    have upd: "index(st_name s \<mapsto> state_info_of s) ++ ?m = index ++ ?m(st_name s \<mapsto> state_info_of s)"
      if "st_name s \<notin> st_name ` set ss"
      using that by (subst map_add_upd_left) (auto simp: dom_map_of_conv_image_fst image_image)
    show ?thesis
      using Cons.IH [OF run] None upd unfolding fresh_upd by (auto simp del: fun_upd_apply)
  next
    case (Some y)
    then have "super_states (Suc i) ss (stateAt, states, index, ps @ [DuplicatesState i (st_name s) y]) =
        (stateAt', states', index', ps')"
      using Cons.prems by simp
    from Cons.IH [OF this] Some show ?thesis by auto
  qed
qed simp

lemma super_events_spec:
  "super_events i es (eventAt, events, ps) = (eventAt', events', ps') \<Longrightarrow>
     (ps' = [] \<longleftrightarrow> ps = [] \<and> distinct es \<and> (\<forall>e \<in> set es. eventAt e = None)) \<and>
     (ps' = [] \<longrightarrow> dom eventAt' = dom eventAt \<union> set es \<and> events' = events @ es)"
proof (induction es arbitrary: i eventAt events ps)
  case (Cons e es)
  show ?case
  proof (cases "eventAt e")
    case None
    then have "super_events (Suc i) es (eventAt(e \<mapsto> i), events @ [e], ps) = (eventAt', events', ps')"
      using Cons.prems by simp
    from Cons.IH [OF this] None show ?thesis by auto
  next
    case (Some y)
    then have "super_events (Suc i) es (eventAt, events, ps @ [DuplicatesEvent i e y]) =
        (eventAt', events', ps')"
      using Cons.prems by simp
    from Cons.IH [OF this] Some show ?thesis by auto
  qed
qed simp

lemma super_refusals_of_spec:
  "super_refusals_of i name eventAt j es (seen, refused, ps) = (refused', ps') \<Longrightarrow>
     (ps' = [] \<longleftrightarrow> ps = [] \<and> distinct es \<and> (\<forall>e \<in> set es. seen e = None \<and> eventAt e \<noteq> None)) \<and>
     (ps' = [] \<longrightarrow> refused' = refused \<union> Pair name ` set es)"
proof (induction es arbitrary: j seen refused ps)
  case (Cons e es)
  show ?case
  proof (cases "seen e = None \<and> eventAt e \<noteq> None")
    case True
    then have "super_refusals_of i name eventAt (Suc j) es (seen(e \<mapsto> j), insert (name, e) refused, ps) =
        (refused', ps')"
      using Cons.prems by auto
    from Cons.IH [OF this] True show ?thesis by auto
  next
    case False
    then obtain seen1 p where
      "super_refusals_of i name eventAt (Suc j) es (seen1, refused, ps @ [p]) = (refused', ps')"
      using Cons.prems by (cases "seen e") auto
    from Cons.IH [OF this] False show ?thesis by auto
  qed
qed simp

lemma super_refusals_spec:
  "super_refusals eventAt i ss (refused, ps) = (refused', ps') \<Longrightarrow>
     (ps' = [] \<longleftrightarrow> ps = [] \<and> (\<forall>s \<in> set ss. distinct (st_refuse s) \<and> set (st_refuse s) \<subseteq> dom eventAt)) \<and>
     (ps' = [] \<longrightarrow> refused' = refused \<union> refusals ss)"
proof (induction ss arbitrary: i refused ps)
  case (Cons s ss)
  obtain r1 p1 where 1:
    "super_refusals_of i (st_name s) eventAt 0 (st_refuse s) (Map.empty, refused, ps) = (r1, p1)"
    by fastforce
  with Cons.prems have 2: "super_refusals eventAt (Suc i) ss (r1, p1) = (refused', ps')" by simp
  have "refusals (s # ss) = Pair (st_name s) ` set (st_refuse s) \<union> refusals ss"
    by (auto simp: refusals_def)
  with super_refusals_of_spec [OF 1] Cons.IH [OF 2] show ?case by (auto simp: subset_iff dom_def)
qed (auto simp: refusals_def)

section \<open>Callbacks and coverage\<close>

lemma filter_enumerate_None:
  "filter (\<lambda>(j, f). f = None) (List.enumerate n fs) = [] \<longleftrightarrow> None \<notin> set fs"
  by (induction fs arbitrary: n) auto

lemma callback_problems_Nil: "callback_problems name fs = [] \<longleftrightarrow> callbacks_given fs"
  by (simp add: callback_problems_def checkRequiredCallbacks_def nil_callbacks_def
      filter_enumerate_None callbacks_given_def)

lemma coverage_problems_Nil:
  "coverage_problems states events rows refused = [] \<longleftrightarrow>
     (\<forall>s \<in> set states. \<not> si_terminal s \<longrightarrow>
        (\<forall>e \<in> set events. rows (si_name s, e) \<noteq> None \<or> (si_name s, e) \<in> refused) \<and>
        (\<exists>e \<in> set events. rows (si_name s, e) \<noteq> None))"
  by (induction states) (auto simp: coverage_problems_def filter_empty_conv list_ex_iff)

section \<open>Transitions\<close>

text \<open>The maps after the transitions \<open>seen\<close>, all of them acceptable, have been read.\<close>

definition maps_of ::
    "('s, 'e, 'c, 't, 'w) stransition list \<Rightarrow> ('s, 'e, 'c, 't, 'w) row_maps \<Rightarrow> bool" where
  "maps_of seen m \<longleftrightarrow>
     rm_rows m = (\<lambda>k. nonempty (super_rows seen k)) \<and> rm_infos m = map info_of seen \<and>
     dom (rm_idAt m) = tr_id ` set seen \<and>
     (\<forall>k. rm_unguarded m k \<noteq> None \<longleftrightarrow> (\<exists>t \<in> set seen. tr_key t = k \<and> tr_guard t = None)) \<and>
     rm_external m = list_ex (\<lambda>t. tr_issue t \<noteq> None) seen"

text \<open>What the compiler checks of one transition, against the maps built before the loop.\<close>

definition entry_ok ::
    "('s \<rightharpoonup> nat) \<Rightarrow> ('s \<rightharpoonup> 's state_info) \<Rightarrow> ('e \<rightharpoonup> nat) \<Rightarrow> ('s \<times> 'e) set \<Rightarrow>
      ('s, 'e, 'c, 't, 'w) stransition \<Rightarrow> bool" where
  "entry_ok stateAt index eventAt refused t \<longleftrightarrow>
     \<not> blank (tr_id t) \<and> tr_from t \<in> dom stateAt \<and> tr_to t \<in> dom stateAt \<and>
     tr_event t \<in> dom eventAt \<and> (tr_issue t = None \<longleftrightarrow> tr_verify t = None) \<and>
     None \<notin> set (tr_preconditions t) \<and> tr_key t \<notin> refused \<and>
     (\<forall>i. index (tr_from t) = Some i \<longrightarrow> \<not> si_terminal i)"

lemma transition_problems_Nil:
  assumes "maps_of seen m"
  shows "transition_problems stateAt index eventAt refused i t m = [] \<longleftrightarrow>
     entry_ok stateAt index eventAt refused t \<and> tr_id t \<notin> tr_id ` set seen \<and>
     (\<forall>u \<in> set seen. tr_guard u = None \<longrightarrow> tr_key u \<noteq> tr_key t)"
proof -
  have "rm_unguarded m (tr_key t) = None \<longleftrightarrow>
      (\<forall>u \<in> set seen. tr_guard u = None \<longrightarrow> tr_key u \<noteq> tr_key t)"
    using assms unfolding maps_of_def by metis
  moreover have "rm_idAt m (tr_id t) = None \<longleftrightarrow> tr_id t \<notin> tr_id ` set seen"
    using assms unfolding maps_of_def by (metis domIff)
  ultimately show ?thesis
    unfolding transition_problems_def entry_ok_def knownDefinitionValue_def
    by (auto simp: filter_enumerate_None dom_def split: option.splits if_splits)
qed

lemma maps_of_snoc:
  assumes "maps_of seen m" "entry_ok stateAt index eventAt refused t" "tr_id t \<notin> tr_id ` set seen"
  shows "maps_of (seen @ [t]) (declare_transition stateAt eventAt i t m)"
proof -
  have rows: "append_at (\<lambda>k. nonempty (super_rows seen k)) (tr_key t) (compiled_of t) =
      (\<lambda>k. nonempty (super_rows (seen @ [t]) k))"
    by (rule ext) (auto simp: append_at_def super_rows_def nonempty_def slice_def)
  have idAt: "rm_idAt m (tr_id t) = None" and known: "\<not> blank (tr_id t)"
    "stateAt (tr_from t) \<noteq> None" "stateAt (tr_to t) \<noteq> None" "eventAt (tr_event t) \<noteq> None"
    using assms unfolding maps_of_def entry_ok_def by (auto simp: domIff)
  let ?m = "declare_transition stateAt eventAt i t m"
  have "rm_rows ?m = (\<lambda>k. nonempty (super_rows (seen @ [t]) k))"
    "dom (rm_idAt ?m) = tr_id ` set (seen @ [t])"
    "rm_infos ?m = map info_of (seen @ [t])"
    "rm_external ?m = list_ex (\<lambda>t. tr_issue t \<noteq> None) (seen @ [t])"
    using assms(1) known idAt rows by (simp_all add: declare_transition_def maps_of_def)
  moreover have "rm_unguarded ?m k \<noteq> None \<longleftrightarrow>
      (\<exists>u \<in> set (seen @ [t]). tr_key u = k \<and> tr_guard u = None)" for k
  proof -
    have u: "rm_unguarded m j \<noteq> None \<longleftrightarrow> (\<exists>u \<in> set seen. tr_key u = j \<and> tr_guard u = None)" for j
      using assms(1) unfolding maps_of_def by blast
    have "rm_unguarded ?m = (if tr_guard t = None \<and> rm_unguarded m (tr_key t) = None
        then (rm_unguarded m)(tr_key t \<mapsto> i) else rm_unguarded m)"
      by (simp add: declare_transition_def)
    then show ?thesis using u [of k] u [of "tr_key t"] by (auto simp del: not_None_eq)
  qed
  ultimately show ?thesis unfolding maps_of_def by blast
qed

lemma super_transitions_problems:
  "ps \<noteq> [] \<Longrightarrow> snd (super_transitions stateAt index eventAt refused i ts (m, ps)) \<noteq> []"
  by (induction ts arbitrary: i m ps) auto

definition transitions_good ::
    "('s \<rightharpoonup> nat) \<Rightarrow> ('s \<rightharpoonup> 's state_info) \<Rightarrow> ('e \<rightharpoonup> nat) \<Rightarrow> ('s \<times> 'e) set \<Rightarrow>
      ('s, 'e, 'c, 't, 'w) stransition list \<Rightarrow> ('s, 'e, 'c, 't, 'w) stransition list \<Rightarrow> bool" where
  "transitions_good stateAt index eventAt refused seen ts \<longleftrightarrow>
     (\<forall>t \<in> set ts. entry_ok stateAt index eventAt refused t) \<and> distinct (map tr_id ts) \<and>
     tr_id ` set ts \<inter> tr_id ` set seen = {} \<and> no_unreachable_row ts \<and>
     (\<forall>t \<in> set ts. \<forall>u \<in> set seen. tr_guard u = None \<longrightarrow> tr_key u \<noteq> tr_key t)"

lemma transitions_good_Cons:
  "transitions_good stateAt index eventAt refused seen (t # ts) \<longleftrightarrow>
     (entry_ok stateAt index eventAt refused t \<and> tr_id t \<notin> tr_id ` set seen \<and>
      (\<forall>u \<in> set seen. tr_guard u = None \<longrightarrow> tr_key u \<noteq> tr_key t)) \<and>
     transitions_good stateAt index eventAt refused (seen @ [t]) ts"
  unfolding transitions_good_def by auto

lemma super_transitions_spec:
  "maps_of seen m \<Longrightarrow>
   super_transitions stateAt index eventAt refused i ts (m, ps) = (m', ps') \<Longrightarrow>
     (ps' = [] \<longleftrightarrow> ps = [] \<and> transitions_good stateAt index eventAt refused seen ts) \<and>
     (ps' = [] \<longrightarrow> maps_of (seen @ ts) m')"
proof (induction ts arbitrary: i seen m ps)
  case Nil
  then show ?case by (simp add: transitions_good_def)
next
  case (Cons t ts)
  let ?p = "transition_problems stateAt index eventAt refused i t m"
  note nil = transition_problems_Nil [OF Cons.prems(1), of stateAt index eventAt refused i t]
  have run: "super_transitions stateAt index eventAt refused (Suc i) ts
      (declare_transition stateAt eventAt i t m, ps @ ?p) = (m', ps')"
    using Cons.prems(2) by simp
  show ?case
  proof (cases "?p = []")
    case True
    with nil have "maps_of (seen @ [t]) (declare_transition stateAt eventAt i t m)"
      by (intro maps_of_snoc [OF Cons.prems(1)]) auto
    from Cons.IH [OF this run] True nil show ?thesis
      unfolding transitions_good_Cons by simp
  next
    case False
    then have "ps' \<noteq> []"
      using super_transitions_problems [of "ps @ ?p"] run by (metis append_is_Nil_conv snd_conv)
    with False nil show ?thesis unfolding transitions_good_Cons by blast
  qed
qed

section \<open>The whole compiler\<close>

lemma state_index_Some:
  assumes "distinct (map st_name ss)"
  shows "map_of (map (\<lambda>s. (st_name s, state_info_of s)) ss) n = Some i \<longleftrightarrow>
     (\<exists>s \<in> set ss. st_name s = n \<and> i = state_info_of s)"
proof -
  have "distinct (map fst (map (\<lambda>s. (st_name s, state_info_of s)) ss))" using assms by (simp add: comp_def)
  then show ?thesis by (subst map_of_eq_Some_iff) auto
qed

lemma entry_ok_transition_ok:
  assumes "distinct (map st_name (sd_states d))" "dom stateAt = st_name ` set (sd_states d)"
    and "dom eventAt = set (sd_events d)"
    and "index = map_of (map (\<lambda>s. (st_name s, state_info_of s)) (sd_states d))"
    and "refused = refusals (sd_states d)"
  shows "entry_ok stateAt index eventAt refused t \<longleftrightarrow> transition_ok d t"
proof -
  have "(\<forall>i. index (tr_from t) = Some i \<longrightarrow> \<not> si_terminal i) \<longleftrightarrow>
      (\<forall>s \<in> set (sd_states d). st_name s = tr_from t \<longrightarrow> \<not> st_terminal s)"
    unfolding assms(4) state_index_Some [OF assms(1)] by (auto simp: state_info_of_def)
  moreover have "tr_key t \<notin> refused \<longleftrightarrow>
      (\<forall>s \<in> set (sd_states d). st_name s = tr_from t \<longrightarrow> tr_event t \<notin> set (st_refuse s))"
    unfolding assms(5) refusals_def tr_key_def by auto
  ultimately show ?thesis
    unfolding entry_ok_def transition_ok_def assms(2,3) by blast
qed

lemma rows_handled: "nonempty (super_rows ts (s, e)) \<noteq> None \<longleftrightarrow> handled ts s e"
  by (auto simp: nonempty_def super_rows_def handled_def filter_empty_conv)

lemma refusals_mem:
  "distinct (map st_name ss) \<Longrightarrow> s \<in> set ss \<Longrightarrow> (st_name s, e) \<in> refusals ss \<longleftrightarrow> e \<in> set (st_refuse s)"
  by (auto simp: refusals_def dest: eq_key_imp_eq_value inj_onD [OF distinct_map [THEN iffD1, THEN conjunct2]])

lemma reach_problems_Nil:
  "stateAt initial \<noteq> None \<Longrightarrow> reach_problems ts initial stateAt (map state_info_of ss) = [] \<longleftrightarrow>
     (\<forall>s \<in> set ss. (initial, st_name s) \<in> (edges ts)\<^sup>*)"
  by (auto simp: reach_problems_def Let_def filter_empty_conv reach_loop_closure state_info_of_def)

lemma compile_super_result:
  assumes "strict_type K" "strict_type L" "definition_keys_ok K L d"
  shows "case compile_super K L d of
      Inl e \<Rightarrow> \<not> good_super d \<and> (\<exists>ps. e = Problems ps \<and> ps \<noteq> [])
    | Inr m \<Rightarrow> good_super d \<and> m = machine_of d"
proof -
  let ?ss = "sd_states d" and ?ts = "sd_transitions d" and ?es = "sd_events d"
  define p0 :: "('a, 'b) sproblem list" where "p0 =
    (if blank (sd_id d) then [EmptyDefinitionID] else []) @
    (if ?ss = [] then [NoStates] else []) @ (if ?es = [] then [NoEvents] else []) @
    callback_problems Preconditions (sd_preconditions d) @
    callback_problems Invariants (sd_invariants d) @
    callback_problems Postconditions (sd_postconditions d) @
    callback_problems Reconcile (sd_reconcile d)"
  obtain sa st ix p1 where 1: "super_states 0 ?ss (Map.empty, [], Map.empty, p0) = (sa, st, ix, p1)"
    by (metis prod_cases4)
  define p2 where "p2 = p1 @ (if sa (sd_initial d) = None \<and> ?ss \<noteq> []
    then [UndeclaredInitial (sd_initial d)] else [])"
  obtain ea ev p3 where 2: "super_events 0 ?es (Map.empty, [], p2) = (ea, ev, p3)"
    by (metis prod_cases3)
  obtain rf p4 where 3: "super_refusals ea 0 ?ss ({}, p3) = (rf, p4)" by fastforce
  let ?m0 = "\<lparr>rm_rows = Map.empty, rm_infos = [], rm_idAt = Map.empty, rm_unguarded = Map.empty,
    rm_external = False\<rparr> :: ('a, 'b, 'c, 'd, 'e) row_maps"
  obtain m p5 where 4: "super_transitions sa ix ea rf 0 ?ts (?m0, p4) = (m, p5)" by fastforce
  define p6 where "p6 = p5 @ coverage_problems st ev (rm_rows m) rf @
    reach_problems ?ts (sd_initial d) sa st"
  have result: "compile_super K L d =
      (if p6 \<noteq> [] then Inl (Problems p6)
       else Inr \<lparr>sm_id = sd_id d, sm_initial = sd_initial d, sm_external = rm_external m,
                 sm_states = st, sm_events = ev, sm_stateIndex = ix, sm_eventSet = dom ea,
                 sm_refused = rf, sm_transitions = rm_infos m, sm_rows = rm_rows m,
                 sm_preconditions = present (sd_preconditions d),
                 sm_invariants = present (sd_invariants d),
                 sm_postconditions = present (sd_postconditions d),
                 sm_reconcile = present (sd_reconcile d)\<rparr>)"
    using assms 1 2 3 4 by (simp add: compile_super_def Let_def p0_def p2_def p6_def)
  have "maps_of [] ?m0" by (auto simp: maps_of_def super_rows_def nonempty_def)
  note S1 = super_states_spec [OF 1] and S2 = super_events_spec [OF 2] and
    S3 = super_refusals_spec [OF 3] and S4 = super_transitions_spec [OF this 4]
  have S0: "p0 = [] \<longleftrightarrow> \<not> blank (sd_id d) \<and> ?ss \<noteq> [] \<and> ?es \<noteq> [] \<and>
      callbacks_given (sd_preconditions d) \<and> callbacks_given (sd_invariants d) \<and>
      callbacks_given (sd_postconditions d) \<and> callbacks_given (sd_reconcile d)"
    by (simp add: p0_def callback_problems_Nil)
  have early: "p4 = [] \<longleftrightarrow> p0 = [] \<and> distinct (map st_name ?ss) \<and>
      sd_initial d \<in> st_name ` set ?ss \<and> distinct ?es \<and>
      (\<forall>s \<in> set ?ss. distinct (st_refuse s) \<and> set (st_refuse s) \<subseteq> set ?es)"
  proof (cases "p1 = [] \<and> p3 = []")
    case True
    then have d1: "dom sa = st_name ` set ?ss" and d2: "dom ea = set ?es" using S1 S2 by auto
    have "p2 = [] \<longleftrightarrow> sd_initial d \<in> st_name ` set ?ss"
      using True S1 S0 unfolding p2_def d1 [symmetric] by (auto simp: domIff)
    with True S1 S2 S3 d2 show ?thesis by auto
  next
    case False
    then have "p3 \<noteq> []" using S2 by (auto simp: p2_def)
    then have "p4 \<noteq> []" using S3 by blast
    moreover have "sa (sd_initial d) \<noteq> None" if "p1 = []" "sd_initial d \<in> st_name ` set ?ss"
      using S1 that by (metis Un_iff domIff)
    ultimately show ?thesis using False S1 S2 by (auto simp: p2_def split: if_splits)
  qed
  show ?thesis
  proof (cases "p4 = []")
    case False
    then have "p6 \<noteq> []" using S4 by (auto simp: p6_def)
    moreover have "\<not> good_super d"
      using False early S0 by (auto simp: good_super_def)
    ultimately show ?thesis unfolding result by simp
  next
    case True
    then have p: "p3 = []" "p2 = []" "p1 = []" using S3 S2 by (auto simp: p2_def)
    have maps: "dom sa = st_name ` set ?ss" "st = map state_info_of ?ss"
      "ix = map_of (map (\<lambda>s. (st_name s, state_info_of s)) ?ss)" "dom ea = set ?es" "ev = ?es"
      "rf = refusals ?ss"
      using S1 S2 S3 p True by auto
    have d: "distinct (map st_name ?ss)" "sd_initial d \<in> st_name ` set ?ss"
      using early True by auto
    have entry: "entry_ok sa ix ea rf t = transition_ok d t" for t
      by (rule entry_ok_transition_ok) (use maps d in auto)
    have p5: "p5 = [] \<longleftrightarrow> (\<forall>t \<in> set ?ts. transition_ok d t) \<and> distinct (map tr_id ?ts) \<and>
        no_unreachable_row ?ts"
      using S4 True by (simp add: transitions_good_def entry)
    have init: "sa (sd_initial d) \<noteq> None" using d(2) maps(1) by (metis domIff)
    have cover: "p6 = [] \<longleftrightarrow> p5 = [] \<and>
        (\<forall>s \<in> set ?ss. \<not> st_terminal s \<longrightarrow>
          (\<forall>e \<in> set ?es. handled ?ts (st_name s) e \<or> e \<in> set (st_refuse s)) \<and>
          (\<exists>e \<in> set ?es. handled ?ts (st_name s) e)) \<and>
        (\<forall>s \<in> set ?ss. (sd_initial d, st_name s) \<in> (edges ?ts)\<^sup>*)" if "p5 = []"
    proof -
      have "rm_rows m = (\<lambda>k. nonempty (super_rows ?ts k))"
        using S4 that by (simp add: maps_of_def)
      then show ?thesis
        using that unfolding p6_def maps(2,5,6)
        by (simp add: coverage_problems_Nil reach_problems_Nil [where stateAt = sa, OF init] rows_handled
            refusals_mem [OF d(1)] state_info_of_def del: not_None_eq)
    qed
    have "p6 = [] \<longleftrightarrow> good_super d"
    proof (cases "p5 = []")
      case True
      with cover p5 early S0 \<open>p4 = []\<close> show ?thesis by (auto simp: good_super_def)
    next
      case False
      with p5 show ?thesis by (auto simp: good_super_def p6_def)
    qed
    moreover have "p6 = [] \<longrightarrow> maps_of ?ts m" using S4 by (simp add: p6_def)
    ultimately show ?thesis
      unfolding result using maps by (auto simp: machine_of_def maps_of_def)
  qed
qed

lemma compile_super_cases:
  "case compile_super K L d of
      Inl InvalidDefinitionKey \<Rightarrow> \<not> definition_keys_ok K L d
    | Inl (Problems ps) \<Rightarrow>
        ps \<noteq> [] \<and> \<not> (strict_type K \<and> strict_type L \<and> definition_keys_ok K L d \<and> good_super d)
    | Inr m \<Rightarrow>
        strict_type K \<and> strict_type L \<and> definition_keys_ok K L d \<and> good_super d \<and> m = machine_of d"
proof (cases "strict_type K \<and> strict_type L \<and> definition_keys_ok K L d")
  case True
  with compile_super_result [of K L d] show ?thesis by (auto split: sum.splits)
next
  case False
  then show ?thesis by (auto simp: compile_super_def Let_def)
qed

lemma good_super_refused:
  assumes "good_super d" "s \<in> st_name ` set (sd_states d)" "e \<in> set (sd_events d)"
  shows "Refused (Some (machine_of d)) s e \<longleftrightarrow> sm_rows (machine_of d) (s, e) = None"
proof -
  obtain x where x: "x \<in> set (sd_states d)" "s = st_name x" using assms(2) by blast
  have d: "distinct (map st_name (sd_states d))" using assms(1) by (simp add: good_super_def)
  have index: "sm_stateIndex (machine_of d) s = Some (state_info_of x)"
    using state_index_Some [OF d, of s "state_info_of x"] x by (auto simp: machine_of_def)
  have rows: "sm_rows (machine_of d) (s, e) = None \<longleftrightarrow> \<not> handled (sd_transitions d) s e"
    using rows_handled [of "sd_transitions d" s e] by (auto simp: machine_of_def)
  have ok: "st_terminal x \<or> e \<in> set (st_refuse x) \<Longrightarrow> \<not> handled (sd_transitions d) s e"
    using assms(1) x unfolding good_super_def transition_ok_def handled_def tr_key_def by fastforce
  have covered: "\<not> st_terminal x \<Longrightarrow> handled (sd_transitions d) s e \<or> e \<in> set (st_refuse x)"
    using assms(1,3) x by (auto simp: good_super_def)
  have "sm_refused (machine_of d) = refusals (sd_states d)" "e \<in> sm_eventSet (machine_of d)"
    using assms(3) by (simp_all add: machine_of_def)
  then show ?thesis
    unfolding rows using index ok covered refusals_mem [OF d x(1)] x(2)
    by (auto simp: Refused_def state_info_of_def)
qed

definition sup_demo :: "(nat, nat, unit, nat, unit) sdefinition" where
  "sup_demo =
     \<lparr>sd_id = [100],
      sd_states = [\<lparr>st_name = 0, st_terminal = False, st_refuse = [7]\<rparr>,
                   \<lparr>st_name = 2, st_terminal = True, st_refuse = []\<rparr>],
      sd_events = [5, 7], sd_initial = 0,
      sd_transitions = [\<lparr>tr_id = [103], tr_from = 0, tr_event = 5, tr_to = 2, tr_guard = None,
                         tr_preconditions = [], tr_issue = None, tr_verify = None\<rparr>],
      sd_preconditions = [Some (\<lambda>_ _ _. ret None)], sd_invariants = [Some (\<lambda>_ _ _. ret None)],
      sd_postconditions = [Some (\<lambda>_ _ _. ret None)], sd_reconcile = [Some (\<lambda>_ _ _. ret None)]\<rparr>"

lemma sup_demo_compiles: "compile_super demo_keys demo_keys sup_demo = Inr (machine_of sup_demo)"
proof -
  have "good_super sup_demo"
    by (auto simp: good_super_def sup_demo_def callbacks_given_def transition_ok_def blank_def
        is_space_def handled_def tr_key_def edges_def)
  moreover have "strict_type demo_keys" "definition_keys_ok demo_keys demo_keys sup_demo"
    by (simp_all add: demo_keys_def definition_keys_ok_def sup_demo_def)
  moreover have "strict_type (demo_keys :: nat keyops)" by (simp add: demo_keys_def)
  ultimately show ?thesis
    using compile_super_result [of demo_keys demo_keys sup_demo]
    by (auto split: sum.splits)
qed

section \<open>Properties\<close>

text \<open>C37. Compile accepts a definition exactly when both key types are strict, every state and
  event in it equals itself, and it obeys the rules of a strict definition: distinct declared
  states, events and transition identifiers, each callback group given, every event of every
  non-terminal state handled or refused and none both, a way out of every non-terminal state,
  Issue and Verify together or not at all, no row behind an unguarded one, every state reachable.
  The machine it then returns holds the definition's rows by key in table order. Otherwise it
  reports an invalid key or at least one problem.\<close>

theorem super_compile_accepts_good_definitions:
  "case compile_super K L d of
      Inl InvalidDefinitionKey \<Rightarrow> \<not> definition_keys_ok K L d
    | Inl (Problems ps) \<Rightarrow>
        ps \<noteq> [] \<and> \<not> (strict_type K \<and> strict_type L \<and> definition_keys_ok K L d \<and> good_super d)
    | Inr m \<Rightarrow>
        strict_type K \<and> strict_type L \<and> definition_keys_ok K L d \<and> good_super d \<and> m = machine_of d"
  by (rule compile_super_cases)

text \<open>In a compiled machine every declared event of every declared state is either routed to
  at least one row or refused, never both: Refused answers exactly for the pairs without a row.\<close>

theorem refused_exactly_without_rows:
  assumes "compile_super K L d = Inr m"
    and "s \<in> si_name ` set (sm_states m)" and "e \<in> set (sm_events m)"
  shows "Refused (Some m) s e \<longleftrightarrow> sm_rows m (s, e) = None"
proof -
  have m: "good_super d" "m = machine_of d"
    using compile_super_cases [of K L d] assms(1) by simp_all
  have "s \<in> st_name ` set (sd_states d)" "e \<in> set (sd_events d)"
    using assms(2,3) unfolding m(2) by (auto simp: machine_of_def state_info_of_def)
  from good_super_refused [OF m(1) this] show ?thesis unfolding m(2) .
qed

theorem refused_exactly_without_rows_witness:
  "Refused (Some (machine_of sup_demo)) 0 7 \<and> sm_rows (machine_of sup_demo) (0, 7) = None"
proof -
  have "0 \<in> si_name ` set (sm_states (machine_of sup_demo))" "7 \<in> set (sm_events (machine_of sup_demo))"
    by (simp_all add: machine_of_def sup_demo_def state_info_of_def)
  moreover have "sm_rows (machine_of sup_demo) (0, 7) = None"
    by (simp add: machine_of_def sup_demo_def super_rows_def nonempty_def tr_key_def)
  ultimately show ?thesis
    using refused_exactly_without_rows [OF sup_demo_compiles] by blast
qed

end
