(* ===== verification/Super_State.thy ===== *)
theory Super_State
  imports Super_Compile
begin

text \<open>
  \<^verbatim>\<open>supervised/execution.go\<close>, \<^verbatim>\<open>supervised/record.go\<close>: the state of a Supervisor, its construction.

  \<open>sup\<close> holds the struct's mutable fields next to what its goroutines share: operations, contexts
  and channels live in heaps indexed by pointers (\<open>su_ops\<close>, \<open>su_ctxs\<close>, \<open>su_outcomes\<close> and
  \<open>su_failures\<close>), and \<open>su_app\<close> is the application's world. The pointer \<^verbatim>\<open>s.operation\<close> is
  \<open>su_operation\<close>. A context is None until it is done, then its error and its cause. An armed
  verification timer is the attempt and the version its callback was created with. \<open>senv\<close> is what
  is fixed or outside: zero values, limits, the clock, the rendering of error texts, contexts of
  the application, the adapters. \<open>su_live\<close> is a ghost: the channels of the goroutines that were
  started for an application callback or an adapter and have not ended it.
\<close>

section \<open>State\<close>

record ('s, 'e, 'c, 't, 'v) pending_change =
  pe_change :: "('s, 'e) change"
  pe_transition :: "('s, 'e, 'c, 't, 'v) compiled_row"
  pe_issuedAt :: time
  pe_deadline :: time
  pe_version :: u64

record ('s, 'e) operation =
  op_id :: u64
  op_change :: "('s, 'e) change"
  op_phase :: sphase
  op_ctx :: nat
  op_cancel :: bool
  op_startedAt :: time
  op_phaseAt :: time
  op_issuedAt :: time
  op_deadline :: time
  op_callbacks :: int
  op_returned :: bool
  op_revoked :: bool
  op_abandoned :: bool

datatype record_kind =
    RecordStart | RecordIssue | RecordVerify | RecordTrip | RecordRecover
  | RecordVerificationExpired | RecordSecondaryCause | RecordAdjudicate | RecordJournalError

record record_stamp =
  rs_seq :: u64
  rs_at :: time
  rs_mode :: mode
  rs_durable :: bool
  rs_ok :: bool
  rs_exhausted :: bool

record ('s, 'e) sresult =
  re_definition :: ident
  re_execution :: ident
  re_incarnation :: ident
  re_operation :: u64
  re_attemptKey :: attempt_id
  re_attempt :: u64
  re_revision :: u64
  re_from :: 's
  re_event :: 'e
  re_transition :: ident
  re_to :: 's
  re_phase :: sphase
  re_selected :: bool
  re_issued :: bool
  re_verified :: bool
  re_committed :: bool
  re_faulted :: bool
  re_uncertain :: bool
  re_evidence :: ident
  re_adjudication :: adjudication
  re_change :: "('s, 'e) change"
  re_startedAt :: time
  re_completedAt :: time
  re_err :: "('s, 'e) serr option"
  re_stamp :: record_stamp
  re_owner :: "nat option"
  re_reporting :: bool

record ('s, 'e) srecord =
  rc_seq :: u64
  rc_at :: time
  rc_kind :: record_kind
  rc_execution :: ident
  rc_incarnation :: ident
  rc_restarts :: u64
  rc_operation :: u64
  rc_attempt :: attempt_id
  rc_revision :: u64
  rc_mode :: mode
  rc_phase :: sphase
  rc_change :: "('s, 'e) change"
  rc_selected :: bool
  rc_issued :: bool
  rc_verified :: bool
  rc_committed :: bool
  rc_faulted :: bool
  rc_uncertain :: bool
  rc_cause :: ident
  rc_evidence :: ident
  rc_adjudication :: adjudication
  rc_startedAt :: time
  rc_completedAt :: time

text \<open>The outcome a callback goroutine publishes: the error, and whether the callback returned.\<close>

record ('s, 'e) callback_outcome =
  cb_err :: "('s, 'e) serr option"
  cb_completed :: bool

record ('s, 'e, 'c, 't, 'v) sup =
  su_recorderBusy :: bool
  su_journalBusy :: bool
  su_recorderRunning :: bool
  su_journalRunning :: bool
  su_reporting :: int
  su_mode :: mode
  su_state :: 's
  su_execution :: ident
  su_incarnation :: ident
  su_restarts :: u64
  su_revision :: u64
  su_attempt :: u64
  su_pending :: "('s, 'e, 'c, 't, 'v) pending_change option"
  su_fault :: "('s, 'e) sfault option"
  su_operation :: "nat option"
  su_nextOperation :: u64
  su_timer :: "(u64 \<times> u64) option"
  su_records :: "('s, 'e) srecord list"
  su_maxRecords :: nat
  su_nextRecord :: u64
  su_droppedRecords :: u64
  su_recorderFailures :: u64
  su_recorderError :: ident
  su_journalError :: ident
  su_ops :: "nat \<Rightarrow> ('s, 'e) operation"
  su_nextOp :: nat
  su_ctxs :: "nat \<Rightarrow> (('s, 'e) serr \<times> ('s, 'e) serr) option"
  su_nextCtx :: nat
  su_outcomes :: "nat \<Rightarrow> ('s, 'e) callback_outcome option"
  su_failures :: "nat \<Rightarrow> ('s, 'e) serr option option"
  su_nextChan :: nat
  su_live :: "nat set"
  su_app :: 'v

record ('s, 'e, 'c, 'v) senv =
  se_zeroS :: 's
  se_zeroE :: 'e
  se_limits :: slimits
  se_now :: "'v \<Rightarrow> time"
  se_text :: "('s, 'e) serr \<Rightarrow> ident"
  se_err :: "'c \<Rightarrow> 'v \<Rightarrow> (('s, 'e) serr \<times> ('s, 'e) serr) option"
  se_background :: 'c
  se_journal :: "('c \<Rightarrow> ('s, 'e) ssnapshot \<Rightarrow> ('s, 'e, 'v, ('s, 'e) serr option) act) option"
  se_recorder :: "('c \<Rightarrow> ('s, 'e) srecord \<Rightarrow> ('s, 'e, 'v, ('s, 'e) serr option) act) option"

definition recordSeqMargin :: u64 where
  "recordSeqMargin = 16"

definition now :: "('s, 'e, 'c, 'v) senv \<Rightarrow> ('s, 'e, 'c, 't, 'v) sup \<Rightarrow> time" where
  "now E w = se_now E (su_app w)"

definition upd_op ::
    "nat \<Rightarrow> (('s, 'e) operation \<Rightarrow> ('s, 'e) operation) \<Rightarrow>
      ('s, 'e, 'c, 't, 'v) sup \<Rightarrow> ('s, 'e, 'c, 't, 'v) sup" where
  "upd_op op f w = w\<lparr>su_ops := (su_ops w)(op := f (su_ops w op))\<rparr>"

text \<open>A context ends once; later causes change nothing. A cause set by \<^verbatim>\<open>WithCancelCause\<close> makes
  \<^verbatim>\<open>Err\<close> the library's \<^verbatim>\<open>context.Canceled\<close>.\<close>

definition end_ctx ::
    "nat \<Rightarrow> ('s, 'e) serr \<times> ('s, 'e) serr \<Rightarrow> ('s, 'e, 'c, 't, 'v) sup \<Rightarrow> ('s, 'e, 'c, 't, 'v) sup" where
  "end_ctx c x w =
     (if su_ctxs w c = None then w\<lparr>su_ctxs := (su_ctxs w)(c := Some x)\<rparr> else w)"

definition cancel_ctx :: "nat \<Rightarrow> ('s, 'e, 'c, 't, 'v) sup \<Rightarrow> ('s, 'e, 'c, 't, 'v) sup" where
  "cancel_ctx c = end_ctx c (SSentinel ErrCanceled, SSentinel ErrCanceled)"

definition contextFailure :: "('s, 'e) serr \<times> ('s, 'e) serr \<Rightarrow> ('s, 'e) serr" where
  "contextFailure x =
     (case x of (err, cause) \<Rightarrow>
        if serr_is ErrOperationTimeout cause then SOperationTimeout (SSentinel ErrDeadlineExceeded)
        else err)"

section \<open>Sequence stamps and the record ring\<close>

definition zero_stamp :: record_stamp where
  "zero_stamp = \<lparr>rs_seq = 0, rs_at = 0, rs_mode = ModeStopped, rs_durable = False, rs_ok = False,
                 rs_exhausted = False\<rparr>"

definition stampLocked ::
    "('s, 'e, 'c, 'v) senv \<Rightarrow> ('s, 'e, 'c, 't, 'v) sup \<Rightarrow> ('s, 'e, 'c, 't, 'v) sup \<times> record_stamp" where
  "stampLocked E w =
     (if su_nextRecord w = - 1 then (w, zero_stamp\<lparr>rs_exhausted := True\<rparr>)
      else (w\<lparr>su_nextRecord := su_nextRecord w + 1\<rparr>,
            zero_stamp\<lparr>rs_seq := su_nextRecord w + 1, rs_at := now E w, rs_mode := su_mode w,
                       rs_ok := True\<rparr>))"

text \<open>\<^verbatim>\<open>slices.BinarySearchFunc\<close> on a list sorted by sequence number: the first position whose
  number is not below the one searched for, and whether it is there.\<close>

fun search_seq :: "u64 \<Rightarrow> ('s, 'e) srecord list \<Rightarrow> nat \<times> bool" where
  "search_seq q [] = (0, False)"
| "search_seq q (r # rs) =
     (if rc_seq r < q then (case search_seq q rs of (i, found) \<Rightarrow> (Suc i, found))
      else (0, rc_seq r = q))"

text \<open>The ring as a list, its capacity and the count of dropped records.\<close>

definition append_record ::
    "nat \<Rightarrow> ('s, 'e) srecord \<Rightarrow> ('s, 'e) srecord list \<times> u64 \<Rightarrow> ('s, 'e) srecord list \<times> u64" where
  "append_record cap r st =
     (case st of (rs, dropped) \<Rightarrow>
      case search_seq (rc_seq r) rs of (index, exists) \<Rightarrow>
        if exists then (rs, dropped)
        else if length rs = cap then
          (let dropped = (if dropped < - 1 then dropped + 1 else dropped) in
           if index = 0 then (rs, dropped)
           else (let rs = tl rs; index = index - 1 in
                 (take index rs @ [r] @ drop index rs, dropped)))
        else (take index rs @ [r] @ drop index rs, dropped))"

definition appendRecordLocked :: "('s, 'e) srecord \<Rightarrow> ('s, 'e, 'c, 't, 'v) sup \<Rightarrow> ('s, 'e, 'c, 't, 'v) sup" where
  "appendRecordLocked r w =
     (case append_record (su_maxRecords w) r (su_records w, su_droppedRecords w) of
        (rs, dropped) \<Rightarrow> w\<lparr>su_records := rs, su_droppedRecords := dropped\<rparr>)"

text \<open>The lock region of \<^verbatim>\<open>recordResult\<close>: the record made of a result, or its loss counted.\<close>

definition recordResultLocked ::
    "('s, 'e, 'c, 'v) senv \<Rightarrow> record_kind \<Rightarrow> ('s, 'e) sresult \<Rightarrow> ('s, 'e, 'c, 't, 'v) sup \<Rightarrow>
      ('s, 'e, 'c, 't, 'v) sup \<times> ('s, 'e) srecord option" where
  "recordResultLocked E kind result w =
     (let causeText = (case re_err result of None \<Rightarrow> [] | Some e \<Rightarrow> se_text E e) in
      case (if \<not> rs_ok (re_stamp result) \<and> \<not> rs_exhausted (re_stamp result)
            then stampLocked E w else (w, re_stamp result)) of
        (w, stamp) \<Rightarrow>
          if rs_exhausted stamp
          then (w\<lparr>su_droppedRecords :=
                  if su_droppedRecords w < - 1 then su_droppedRecords w + 1 else su_droppedRecords w\<rparr>,
                None)
          else
            (let r = \<lparr>rc_seq = rs_seq stamp, rc_at = rs_at stamp, rc_kind = kind,
                      rc_execution = su_execution w, rc_incarnation = su_incarnation w,
                      rc_restarts = su_restarts w, rc_operation = re_operation result,
                      rc_attempt = re_attemptKey result, rc_revision = re_revision result,
                      rc_mode = rs_mode stamp, rc_phase = re_phase result,
                      rc_change = re_change result, rc_selected = re_selected result,
                      rc_issued = re_issued result, rc_verified = re_verified result,
                      rc_committed = re_committed result, rc_faulted = re_faulted result,
                      rc_uncertain = re_uncertain result, rc_cause = causeText,
                      rc_evidence = re_evidence result, rc_adjudication = re_adjudication result,
                      rc_startedAt = re_startedAt result, rc_completedAt = re_completedAt result\<rparr> in
             (appendRecordLocked r w, Some r)))"

section \<open>Construction\<close>

definition validateLimits :: "slimits \<Rightarrow> ('s, 'e) serr option" where
  "validateLimits l =
     (if OperationTimeout l \<le> 0 \<or> VerificationTimeout l \<le> 0 then Some (SSentinel SErrInvalidLimits)
      else if MaxRecords l < 0 then Some (SSentinel SErrInvalidLimits)
      else None)"

definition resolvedMaxRecords :: "slimits \<Rightarrow> nat" where
  "resolvedMaxRecords l = (if MaxRecords l = 0 then 1024 else nat (MaxRecords l))"

definition zero_change :: "('s, 'e, 'c, 'v) senv \<Rightarrow> ('s, 'e) change" where
  "zero_change E =
     \<lparr>at_definition = [], at_execution = [], at_incarnation = [], at_id = 0, at_revision = 0,
      at_started = 0, at_from = se_zeroS E, at_event = se_zeroE E, ch_transition = [],
      ch_to = se_zeroS E\<rparr>"

definition zero_operation :: "('s, 'e, 'c, 'v) senv \<Rightarrow> ('s, 'e) operation" where
  "zero_operation E =
     \<lparr>op_id = 0, op_change = zero_change E, op_phase = PhaseNone, op_ctx = 0, op_cancel = False,
      op_startedAt = 0, op_phaseAt = 0, op_issuedAt = 0, op_deadline = 0, op_callbacks = 0,
      op_returned = False, op_revoked = False, op_abandoned = False\<rparr>"

text \<open>An identity is 16 random bytes in hexadecimal. \<open>random\<close> is what the source of randomness
  returned: its error, or the bytes.\<close>

definition hex_digit :: "nat \<Rightarrow> nat" where
  "hex_digit n = (if n < 10 then 48 + n else 87 + n)"

definition hex_encode :: "128 word \<Rightarrow> ident" where
  "hex_encode bytes = map (\<lambda>i. hex_digit (unat bytes div 16 ^ (31 - i) mod 16)) [0..<32]"

definition newExecutionID :: "('s, 'e) serr + 128 word \<Rightarrow> ('s, 'e) serr + ident" where
  "newExecutionID random =
     (case random of
        Inl err \<Rightarrow> Inl (SWrapf err)
      | Inr bytes \<Rightarrow> Inr (hex_encode bytes))"

definition newSupervisor ::
    "('s, 'e, 'c, 'v) senv \<Rightarrow> ('s, 'e, 'c, 't, 'v) smachine \<Rightarrow> ('s, 'e) serr + 128 word \<Rightarrow> 'v \<Rightarrow>
      ('s, 'e) serr + ('s, 'e, 'c, 't, 'v) sup" where
  "newSupervisor E m random app =
     (case validateLimits (se_limits E) of
        Some err \<Rightarrow> Inl err
      | None \<Rightarrow>
          (case newExecutionID random of
             Inl err \<Rightarrow> Inl err
           | Inr executionID \<Rightarrow>
               Inr \<lparr>su_recorderBusy = False, su_journalBusy = False, su_recorderRunning = False,
                    su_journalRunning = False, su_reporting = 0, su_mode = ModeStopped,
                    su_state = sm_initial m, su_execution = executionID,
                    su_incarnation = executionID, su_restarts = 0, su_revision = 0,
                    su_attempt = 0, su_pending = None, su_fault = None, su_operation = None,
                    su_nextOperation = 0, su_timer = None,
                    su_records = [], su_maxRecords = resolvedMaxRecords (se_limits E),
                    su_nextRecord = 0, su_droppedRecords = 0, su_recorderFailures = 0,
                    su_recorderError = [], su_journalError = [],
                    su_ops = (\<lambda>_. zero_operation E), su_nextOp = 0, su_ctxs = (\<lambda>_. None),
                    su_nextCtx = 0, su_outcomes = (\<lambda>_. None), su_failures = (\<lambda>_. None),
                    su_nextChan = 0, su_live = {}, su_app = app\<rparr>))"

definition super_New ::
    "('s, 'e, 'c, 'v) senv \<Rightarrow> ('s, 'e, 'c, 't, 'v) smachine option \<Rightarrow> ('s, 'e) serr + 128 word \<Rightarrow> 'v \<Rightarrow>
      ('s, 'e) serr + ('s, 'e, 'c, 't, 'v) sup" where
  "super_New E machine random app =
     (case machine of
        None \<Rightarrow> Inl (SSentinel ErrNilMachine)
      | Some m \<Rightarrow>
          if sm_external m then Inl (SSentinel ErrJournalRequired)
          else newSupervisor E m random app)"

text \<open>A zero clock is the system's. \<open>configure\<close> gives the Supervisor's environment; the timeout of
  adapters is no part of it, as a context's end is not bound to a duration.\<close>

record ('s, 'e, 'c, 'v) soptions =
  so_limits :: slimits
  so_clock :: "('v \<Rightarrow> time) option"
  so_recorder :: "('c \<Rightarrow> ('s, 'e) srecord \<Rightarrow> ('s, 'e, 'v, ('s, 'e) serr option) act) option"
  so_recorderTimeout :: int
  so_journal :: "('c \<Rightarrow> ('s, 'e) ssnapshot \<Rightarrow> ('s, 'e, 'v, ('s, 'e) serr option) act) option"
  so_requireJournal :: bool
  so_unjournaled :: bool

definition normalizedClock :: "('v \<Rightarrow> time) \<Rightarrow> ('v \<Rightarrow> time) option \<Rightarrow> 'v \<Rightarrow> time" where
  "normalizedClock system clock = (case clock of None \<Rightarrow> system | Some c \<Rightarrow> c)"

definition configure ::
    "('s, 'e, 'c, 'v) soptions \<Rightarrow> ('s, 'e, 'c, 'v) senv \<Rightarrow> ('s, 'e, 'c, 'v) senv" where
  "configure o' E =
     E\<lparr>se_limits := so_limits o', se_now := normalizedClock (se_now E) (so_clock o'),
       se_recorder := so_recorder o', se_journal := so_journal o'\<rparr>"

definition requireJournal :: "bool \<Rightarrow> ('s, 'e, 'c, 'v) soptions \<Rightarrow> ('s, 'e) serr option" where
  "requireJournal external o' =
     (if so_recorderTimeout o' < 0 then Some (SSentinel SErrInvalidLimits)
      else if so_requireJournal o' \<and> so_journal o' = None then Some (SSentinel ErrJournalRequired)
      else if external \<and> so_journal o' = None \<and> \<not> so_unjournaled o'
      then Some (SSentinel ErrJournalRequired)
      else None)"

text \<open>A Supervisor with its environment; \<open>E\<close> has the system's clock and no adapters.\<close>

definition super_NewWithClock ::
    "('s, 'e, 'c, 'v) senv \<Rightarrow> ('s, 'e, 'c, 't, 'v) smachine option \<Rightarrow> ('v \<Rightarrow> time) option \<Rightarrow>
      ('s, 'e) serr + 128 word \<Rightarrow> 'v \<Rightarrow>
      ('s, 'e) serr + ('s, 'e, 'c, 'v) senv \<times> ('s, 'e, 'c, 't, 'v) sup" where
  "super_NewWithClock E machine clock random app =
     (case super_New E machine random app of
        Inl err \<Rightarrow> Inl err
      | Inr w \<Rightarrow> Inr (E\<lparr>se_now := normalizedClock (se_now E) clock\<rparr>, w))"

definition super_NewWithOptions ::
    "('s, 'e, 'c, 'v) senv \<Rightarrow> ('s, 'e, 'c, 't, 'v) smachine option \<Rightarrow> ('s, 'e, 'c, 'v) soptions \<Rightarrow>
      ('s, 'e) serr + 128 word \<Rightarrow> 'v \<Rightarrow>
      ('s, 'e) serr + ('s, 'e, 'c, 'v) senv \<times> ('s, 'e, 'c, 't, 'v) sup" where
  "super_NewWithOptions E machine o' random app =
     (case machine of
        None \<Rightarrow> Inl (SSentinel ErrNilMachine)
      | Some m \<Rightarrow>
          (case requireJournal (sm_external m) o' of
             Some err \<Rightarrow> Inl err
           | None \<Rightarrow>
               (case newSupervisor (E\<lparr>se_limits := so_limits o'\<rparr>) m random app of
                  Inl err \<Rightarrow> Inl err
                | Inr w \<Rightarrow> Inr (configure o' E, w))))"

text \<open>What Restore refuses; the row of a pending change has to be an external one of the machine.\<close>

definition restore_refusal ::
    "'s keyops \<Rightarrow> 'e keyops \<Rightarrow> ('s, 'e, 'c, 'v) senv \<Rightarrow> ('s, 'e, 'c, 't, 'v) smachine \<Rightarrow>
      ('s, 'e) ssnapshot \<Rightarrow> ('s, 'e) serr option" where
  "restore_refusal K L E m snap =
     (case validateLimits (se_limits E) of
        Some err \<Rightarrow> Some err
      | None \<Rightarrow>
          if sn_version snap \<noteq> 2 then Some (SSentinel ErrSnapshotVersion)
          else if sn_definition snap \<noteq> sm_id m then Some (SSentinel ErrDefinitionMismatch)
          else if sn_execution snap = [] \<or> sn_incarnation snap = []
          then Some (SSentinel ErrInvalidSnapshot)
          else if \<not> key_ok K (sn_state snap) then Some (SSentinel SErrInvalidKey)
          else if sm_stateIndex m (sn_state snap) = None then Some (SSentinel ErrUnknownState)
          else if sn_revision snap = - 1 \<or> sn_restarts snap = - 1 \<or>
                  sn_records snap \<ge> - 1 - recordSeqMargin
          then Some (SSentinel ErrCounterExhausted)
          else if sn_inDoubt snap \<noteq> (sn_pending snap \<noteq> None)
          then Some (SSentinel ErrInvalidSnapshot)
          else case sn_pending snap of
            None \<Rightarrow> None
          | Some p \<Rightarrow>
              if \<not> key_ok K (ps_from p) \<or> \<not> key_ok L (ps_event p) \<or> \<not> key_ok K (ps_to p)
              then Some (SSentinel SErrInvalidKey)
              else if ai_execution (ps_attempt p) \<noteq> sn_execution snap \<or>
                      ai_incarnation (ps_attempt p) = [] \<or> ai_sequence (ps_attempt p) = 0 \<or>
                      ai_sequence (ps_attempt p) > sn_attempt snap \<or>
                      ps_revision p \<noteq> sn_revision snap \<or> ps_from p \<noteq> sn_state snap
              then Some (SSentinel ErrInvalidSnapshot)
              else if \<not> list_ex (\<lambda>r. co_id r = ps_transition p \<and> co_to r = ps_to p \<and> co_issue r \<noteq> None)
                         (slice (sm_rows m) (ps_from p, ps_event p))
              then Some (SSentinel ErrInvalidSnapshot)
              else None)"

definition restored_fault ::
    "('s, 'e, 'c, 'v) senv \<Rightarrow> ('s, 'e, 'c, 't, 'v) smachine \<Rightarrow> ('s, 'e) ssnapshot \<Rightarrow>
      ('s, 'e) sfault option" where
  "restored_fault E m snap =
     (if \<not> sn_inDoubt snap \<and> \<not> sn_faulted snap then None
      else
        (let cause = (if sn_cause snap \<noteq> [] then SNew (sn_cause snap)
                      else SSentinel ErrRestoredInDoubt);
             text = (if sn_cause snap \<noteq> [] then sn_cause snap
                     else se_text E (SSentinel ErrRestoredInDoubt)) in
         Some
           (case sn_pending snap of
              None \<Rightarrow>
                Fault (zero_change E) (sm_id m) (sn_execution snap) (sn_incarnation snap)
                  (sn_attempt snap) (sn_revision snap) (sn_state snap) (se_zeroE E) []
                  (se_zeroS E) (sn_faultPhase snap) (sn_uncertain snap \<or> sn_inDoubt snap) 0 0
                  (sn_recordedAt snap) text cause
            | Some p \<Rightarrow>
                Fault \<lparr>at_definition = sm_id m, at_execution = ai_execution (ps_attempt p),
                       at_incarnation = ai_incarnation (ps_attempt p),
                       at_id = ai_sequence (ps_attempt p), at_revision = ps_revision p,
                       at_started = ps_started p, at_from = ps_from p, at_event = ps_event p,
                       ch_transition = ps_transition p, ch_to = ps_to p\<rparr>
                  (sm_id m) (sn_execution snap) (ai_incarnation (ps_attempt p))
                  (ai_sequence (ps_attempt p)) (sn_revision snap) (sn_state snap) (ps_event p)
                  (ps_transition p) (ps_to p) (sn_faultPhase snap)
                  (sn_uncertain snap \<or> sn_inDoubt snap) (ps_issuedAt p) (ps_deadline p)
                  (sn_recordedAt snap) text cause)))"

definition restoreSupervisor ::
    "'s keyops \<Rightarrow> 'e keyops \<Rightarrow> ('s, 'e, 'c, 'v) senv \<Rightarrow> ('s, 'e, 'c, 't, 'v) smachine \<Rightarrow>
      ('s, 'e) ssnapshot \<Rightarrow> ('s, 'e) serr + 128 word \<Rightarrow> 'v \<Rightarrow> ('s, 'e) serr + ('s, 'e, 'c, 't, 'v) sup" where
  "restoreSupervisor K L E m snap random app =
     (case restore_refusal K L E m snap of
        Some err \<Rightarrow> Inl err
      | None \<Rightarrow>
          (case newExecutionID random of
             Inl err \<Rightarrow> Inl err
           | Inr incarnationID \<Rightarrow>
               Inr \<lparr>su_recorderBusy = False, su_journalBusy = False, su_recorderRunning = False,
                    su_journalRunning = False, su_reporting = 0,
                    su_mode = (if sn_inDoubt snap \<or> sn_faulted snap then ModeFaulted
                               else ModeStopped),
                    su_state = sn_state snap, su_execution = sn_execution snap,
                    su_incarnation = incarnationID, su_restarts = sn_restarts snap + 1,
                    su_revision = sn_revision snap, su_attempt = sn_attempt snap,
                    su_pending = None, su_fault = restored_fault E m snap, su_operation = None,
                    su_nextOperation = 0, su_timer = None,
                    su_records = [], su_maxRecords = resolvedMaxRecords (se_limits E),
                    su_nextRecord = sn_records snap, su_droppedRecords = 0,
                    su_recorderFailures = 0, su_recorderError = [], su_journalError = [],
                    su_ops = (\<lambda>_. zero_operation E), su_nextOp = 0, su_ctxs = (\<lambda>_. None),
                    su_nextCtx = 0, su_outcomes = (\<lambda>_. None), su_failures = (\<lambda>_. None),
                    su_nextChan = 0, su_live = {}, su_app = app\<rparr>))"

definition super_Restore ::
    "'s keyops \<Rightarrow> 'e keyops \<Rightarrow> ('s, 'e, 'c, 'v) senv \<Rightarrow> ('s, 'e, 'c, 't, 'v) smachine option \<Rightarrow>
      ('s, 'e) ssnapshot \<Rightarrow> ('s, 'e) serr + 128 word \<Rightarrow> 'v \<Rightarrow> ('s, 'e) serr + ('s, 'e, 'c, 't, 'v) sup" where
  "super_Restore K L E machine snap random app =
     (case machine of
        None \<Rightarrow> Inl (SSentinel ErrNilMachine)
      | Some m \<Rightarrow>
          if sm_external m then Inl (SSentinel ErrJournalRequired)
          else restoreSupervisor K L E m snap random app)"

definition super_RestoreWithClock ::
    "'s keyops \<Rightarrow> 'e keyops \<Rightarrow> ('s, 'e, 'c, 'v) senv \<Rightarrow> ('s, 'e, 'c, 't, 'v) smachine option \<Rightarrow>
      ('s, 'e) ssnapshot \<Rightarrow> ('v \<Rightarrow> time) option \<Rightarrow> ('s, 'e) serr + 128 word \<Rightarrow> 'v \<Rightarrow>
      ('s, 'e) serr + ('s, 'e, 'c, 'v) senv \<times> ('s, 'e, 'c, 't, 'v) sup" where
  "super_RestoreWithClock K L E machine snap clock random app =
     (case super_Restore K L E machine snap random app of
        Inl err \<Rightarrow> Inl err
      | Inr w \<Rightarrow> Inr (E\<lparr>se_now := normalizedClock (se_now E) clock\<rparr>, w))"

definition super_RestoreWithOptions ::
    "'s keyops \<Rightarrow> 'e keyops \<Rightarrow> ('s, 'e, 'c, 'v) senv \<Rightarrow> ('s, 'e, 'c, 't, 'v) smachine option \<Rightarrow>
      ('s, 'e) ssnapshot \<Rightarrow> ('s, 'e, 'c, 'v) soptions \<Rightarrow> ('s, 'e) serr + 128 word \<Rightarrow> 'v \<Rightarrow>
      ('s, 'e) serr + ('s, 'e, 'c, 'v) senv \<times> ('s, 'e, 'c, 't, 'v) sup" where
  "super_RestoreWithOptions K L E machine snap o' random app =
     (case machine of
        None \<Rightarrow> Inl (SSentinel ErrNilMachine)
      | Some m \<Rightarrow>
          (case requireJournal (sm_external m) o' of
             Some err \<Rightarrow> Inl err
           | None \<Rightarrow>
               (case restoreSupervisor K L (E\<lparr>se_limits := so_limits o'\<rparr>) m snap random app of
                  Inl err \<Rightarrow> Inl err
                | Inr w \<Rightarrow> Inr (configure o' E, w))))"

end
