(* ===== verification/Super_Locked.thy ===== *)
theory Super_Locked
  imports Super_State
begin

text \<open>
  \<^verbatim>\<open>supervised/execution.go\<close>: what the Supervisor does while it holds its lock.

  A function named \<open>...Locked\<close> is the code's function of that name, on the state; the others are
  what one \<^verbatim>\<open>Lock\<close> ... \<^verbatim>\<open>Unlock\<close> region of a driver does. A cancel function taken under the lock is
  returned as the context it ends, since the code calls it after the unlock.
\<close>

section \<open>Values read from the state\<close>

definition snapshot_of ::
    "('s, 'e, 'c, 'v) senv \<Rightarrow> ('s, 'e, 'c, 't, 'v) smachine \<Rightarrow> ('s, 'e, 'c, 't, 'v) sup \<Rightarrow>
      ('s, 'e) ssnapshot" where
  "snapshot_of E m w =
     \<lparr>sn_version = 2, sn_definition = sm_id m, sn_execution = su_execution w,
      sn_incarnation = su_incarnation w, sn_restarts = su_restarts w, sn_state = su_state w,
      sn_revision = su_revision w, sn_attempt = su_attempt w, sn_records = su_nextRecord w,
      sn_pending = None, sn_inDoubt = False, sn_faulted = False, sn_uncertain = False,
      sn_faultPhase = PhaseNone, sn_cause = [], sn_recordedAt = now E w\<rparr>"

definition pending_of :: "('s, 'e) change \<Rightarrow> time \<Rightarrow> time \<Rightarrow> ('s, 'e) pending_snapshot" where
  "pending_of c issuedAt deadline =
     \<lparr>ps_started = at_started c, ps_attempt = Identifier c, ps_revision = at_revision c,
      ps_from = at_from c, ps_event = at_event c, ps_transition = ch_transition c, ps_to = ch_to c,
      ps_issuedAt = issuedAt, ps_deadline = deadline\<rparr>"

definition with_pending :: "('s, 'e, 'c, 't, 'v) sup \<Rightarrow> ('s, 'e) ssnapshot \<Rightarrow> ('s, 'e) ssnapshot" where
  "with_pending w s =
     (case su_pending w of
        None \<Rightarrow> s
      | Some p \<Rightarrow> s\<lparr>sn_inDoubt := True, sn_uncertain := True,
                    sn_pending := Some (pending_of (pe_change p) (pe_issuedAt p) (pe_deadline p))\<rparr>)"

definition with_operation :: "('s, 'e, 'c, 't, 'v) sup \<Rightarrow> ('s, 'e) ssnapshot \<Rightarrow> ('s, 'e) ssnapshot" where
  "with_operation w s =
     (case su_operation w of
        None \<Rightarrow> s
      | Some o' \<Rightarrow>
          (let op = su_ops w o' in
           if su_mode w = ModeExecuting \<and> op_issuedAt op \<noteq> 0 then
             (let s = s\<lparr>sn_inDoubt := True, sn_uncertain := True\<rparr> in
              if sn_pending s = None \<and> at_id (op_change op) \<noteq> 0
              then s\<lparr>sn_pending := Some (pending_of (op_change op) (op_issuedAt op) 0)\<rparr>
              else s)
           else s))"

definition with_fault :: "('s, 'e, 'c, 't, 'v) sup \<Rightarrow> ('s, 'e) ssnapshot \<Rightarrow> ('s, 'e) ssnapshot" where
  "with_fault w s =
     (case su_fault w of
        None \<Rightarrow> s
      | Some f \<Rightarrow>
          (let s = s\<lparr>sn_faulted := True, sn_uncertain := f_uncertain f, sn_faultPhase := f_phase f,
                     sn_cause := f_text f\<rparr> in
           if sn_pending s = None \<and> f_issuedAt f \<noteq> 0 then
             s\<lparr>sn_inDoubt := True,
               sn_pending := Some
                 \<lparr>ps_started = at_started (f_change f),
                  ps_attempt = \<lparr>ai_execution = f_execution f, ai_incarnation = f_incarnation f,
                                ai_sequence = f_attempt f\<rparr>,
                  ps_revision = at_revision (f_change f), ps_from = f_state f,
                  ps_event = f_event f, ps_transition = f_transition f, ps_to = f_to f,
                  ps_issuedAt = f_issuedAt f, ps_deadline = f_deadline f\<rparr>\<rparr>
           else s))"

definition snapshotLocked ::
    "('s, 'e, 'c, 'v) senv \<Rightarrow> ('s, 'e, 'c, 't, 'v) smachine \<Rightarrow> ('s, 'e, 'c, 't, 'v) sup \<Rightarrow>
      ('s, 'e) ssnapshot" where
  "snapshotLocked E m w = with_fault w (with_operation w (with_pending w (snapshot_of E m w)))"

definition currentChangeLocked ::
    "('s, 'e, 'c, 'v) senv \<Rightarrow> ('s, 'e, 'c, 't, 'v) smachine \<Rightarrow> ('s, 'e, 'c, 't, 'v) sup \<Rightarrow>
      ('s, 'e) change" where
  "currentChangeLocked E m w =
     \<lparr>at_definition = sm_id m, at_execution = su_execution w, at_incarnation = su_incarnation w,
      at_id = su_attempt w, at_revision = su_revision w, at_started = 0, at_from = su_state w,
      at_event = se_zeroE E, ch_transition = [], ch_to = su_state w\<rparr>"

definition zero_result :: "('s, 'e, 'c, 'v) senv \<Rightarrow> ('s, 'e) sresult" where
  "zero_result E =
     \<lparr>re_definition = [], re_execution = [], re_incarnation = [], re_operation = 0,
      re_attemptKey = \<lparr>ai_execution = [], ai_incarnation = [], ai_sequence = 0\<rparr>, re_attempt = 0,
      re_revision = 0, re_from = se_zeroS E, re_event = se_zeroE E, re_transition = [],
      re_to = se_zeroS E, re_phase = PhaseNone, re_selected = False, re_issued = False,
      re_verified = False, re_committed = False, re_faulted = False, re_uncertain = False,
      re_evidence = [], re_adjudication = AdjudicateRetain, re_change = zero_change E,
      re_startedAt = 0, re_completedAt = 0, re_err = None, re_stamp = zero_stamp,
      re_owner = None, re_reporting = False\<rparr>"

definition baseResultLocked ::
    "('s, 'e, 'c, 'v) senv \<Rightarrow> ('s, 'e, 'c, 't, 'v) smachine \<Rightarrow> ('s, 'e, 'c, 't, 'v) sup \<Rightarrow>
      ('s, 'e) sresult" where
  "baseResultLocked E m w =
     (zero_result E)\<lparr>re_definition := sm_id m, re_execution := su_execution w,
        re_incarnation := su_incarnation w, re_attempt := su_attempt w,
        re_attemptKey := \<lparr>ai_execution = su_execution w, ai_incarnation = su_incarnation w,
                          ai_sequence = su_attempt w\<rparr>,
        re_revision := su_revision w, re_from := su_state w, re_to := su_state w\<rparr>"

definition resultFromChange :: "('s, 'e, 'c, 'v) senv \<Rightarrow> ('s, 'e) change \<Rightarrow> ('s, 'e) sresult" where
  "resultFromChange E c =
     (zero_result E)\<lparr>re_definition := at_definition c, re_execution := at_execution c,
        re_incarnation := at_incarnation c, re_change := c, re_attempt := at_id c,
        re_attemptKey := Identifier c, re_revision := at_revision c, re_startedAt := at_started c,
        re_from := at_from c, re_event := at_event c, re_transition := ch_transition c,
        re_to := ch_to c, re_selected := (ch_transition c \<noteq> [])\<rparr>"

definition faultResult :: "('s, 'e) sresult \<Rightarrow> ('s, 'e) sfault option \<Rightarrow> ('s, 'e) sresult" where
  "faultResult base fault =
     (case fault of
        None \<Rightarrow> base\<lparr>re_faulted := True, re_err := Some (SSentinel ErrFaulted)\<rparr>
      | Some f \<Rightarrow> base\<lparr>re_phase := f_phase f, re_revision := f_revision f, re_faulted := True,
                       re_uncertain := f_uncertain f, re_err := Some (SFault f)\<rparr>)"

definition statusResult ::
    "('s, 'e, 'c, 'v) senv \<Rightarrow> ('s, 'e, 'c, 't, 'v) smachine \<Rightarrow> sphase \<Rightarrow> ('s, 'e) serr \<Rightarrow>
      ('s, 'e, 'c, 't, 'v) sup \<Rightarrow> ('s, 'e, 'c, 't, 'v) sup \<times> ('s, 'e) sresult" where
  "statusResult E m phase err w =
     (let result = (baseResultLocked E m w)\<lparr>re_phase := phase, re_err := Some err\<rparr>;
          result = (case su_fault w of
                      Some f \<Rightarrow> if su_mode w = ModeFaulted
                                then result\<lparr>re_faulted := True, re_uncertain := f_uncertain f\<rparr>
                                else result
                    | None \<Rightarrow> result) in
      case stampLocked E w of (w, stamp) \<Rightarrow> (w, result\<lparr>re_stamp := stamp\<rparr>))"

text \<open>\<^verbatim>\<open>completeResult\<close> at the time of the clock.\<close>

definition completed :: "time \<Rightarrow> ('s, 'e) sresult \<Rightarrow> ('s, 'e) sresult" where
  "completed t r =
     (let r = (if re_completedAt r = 0 then r\<lparr>re_completedAt := t\<rparr> else r) in
      if re_startedAt r = 0 then r\<lparr>re_startedAt := re_completedAt r\<rparr> else r)"

section \<open>Ownership of an operation\<close>

definition countersExhaustedLocked :: "('s, 'e, 'c, 't, 'v) sup \<Rightarrow> bool" where
  "countersExhaustedLocked w \<longleftrightarrow>
     su_revision w = - 1 \<or> su_nextOperation w \<ge> - 1 - 1 \<or> su_nextRecord w \<ge> - 1 - recordSeqMargin"

definition ownsLocked :: "nat \<Rightarrow> ('s, 'e, 'c, 't, 'v) sup \<Rightarrow> bool" where
  "ownsLocked op w \<longleftrightarrow> su_operation w = Some op \<and> \<not> op_revoked (su_ops w op)"

definition beginOperationLocked ::
    "('s, 'e, 'c, 'v) senv \<Rightarrow> 'c \<Rightarrow> ('s, 'e) change \<Rightarrow> sphase \<Rightarrow> ('s, 'e, 'c, 't, 'v) sup \<Rightarrow>
      ('s, 'e, 'c, 't, 'v) sup \<times> nat" where
  "beginOperationLocked E parent change phase w =
     (let ctx = su_nextCtx w; op = su_nextOp w; startedAt = now E w;
          w = w\<lparr>su_ctxs := (su_ctxs w)(ctx := se_err E parent (su_app w)), su_nextCtx := Suc ctx,
                su_nextOperation := su_nextOperation w + 1\<rparr>;
          operation = \<lparr>op_id = su_nextOperation w, op_change = change, op_phase = phase,
             op_ctx = ctx, op_cancel = True, op_startedAt = startedAt, op_phaseAt = startedAt,
             op_issuedAt = 0, op_deadline = startedAt + nat (OperationTimeout (se_limits E)),
             op_callbacks = 0, op_returned = False, op_revoked = False, op_abandoned = False\<rparr> in
      (w\<lparr>su_ops := (su_ops w)(op := operation), su_nextOp := Suc op, su_mode := ModeExecuting,
         su_operation := Some op\<rparr>, op))"

definition operationReturned ::
    "nat \<Rightarrow> ('s, 'e, 'c, 't, 'v) sup \<Rightarrow> ('s, 'e, 'c, 't, 'v) sup" where
  "operationReturned op w =
     (let w = upd_op op (\<lambda>p. p\<lparr>op_returned := True\<rparr>) w in
      if su_operation w = Some op \<and> op_callbacks (su_ops w op) = 0
      then w\<lparr>su_operation := None\<rparr> else w)"

definition callbackReturnedLocked ::
    "nat option \<Rightarrow> ('s, 'e, 'c, 't, 'v) sup \<Rightarrow> ('s, 'e, 'c, 't, 'v) sup" where
  "callbackReturnedLocked owner w =
     (case owner of
        None \<Rightarrow> w
      | Some op \<Rightarrow>
          (let w = upd_op op (\<lambda>p. p\<lparr>op_callbacks := op_callbacks p - 1\<rparr>) w in
           if su_operation w = Some op \<and> op_returned (su_ops w op) \<and> op_callbacks (su_ops w op) = 0
           then w\<lparr>su_operation := None\<rparr> else w))"

definition reportingReturned :: "('s, 'e, 'c, 't, 'v) sup \<Rightarrow> ('s, 'e, 'c, 't, 'v) sup" where
  "reportingReturned w = w\<lparr>su_reporting := su_reporting w - 1\<rparr>"

text \<open>The cancel function of an operation, taken under the lock.\<close>

definition take_cancel ::
    "nat \<Rightarrow> ('s, 'e, 'c, 't, 'v) sup \<Rightarrow> ('s, 'e, 'c, 't, 'v) sup \<times> nat option" where
  "take_cancel op w =
     (upd_op op (\<lambda>p. p\<lparr>op_cancel := False\<rparr>) w,
      if op_cancel (su_ops w op) then Some (op_ctx (su_ops w op)) else None)"

section \<open>Faults\<close>

definition fault_times :: "('s, 'e) change \<Rightarrow> ('s, 'e, 'c, 't, 'v) sup \<Rightarrow> time \<times> time" where
  "fault_times change w =
     (case su_pending w of
        Some p \<Rightarrow>
          if Identifier (pe_change p) = Identifier change then (pe_issuedAt p, pe_deadline p)
          else (case su_operation w of
                  Some o' \<Rightarrow> if Identifier (op_change (su_ops w o')) = Identifier change
                            then (op_issuedAt (su_ops w o'), 0) else (0, 0)
                | None \<Rightarrow> (0, 0))
      | None \<Rightarrow>
          (case su_operation w of
             Some o' \<Rightarrow> if Identifier (op_change (su_ops w o')) = Identifier change
                       then (op_issuedAt (su_ops w o'), 0) else (0, 0)
           | None \<Rightarrow> (0, 0)))"

definition new_fault ::
    "('s, 'e, 'c, 'v) senv \<Rightarrow> ('s, 'e, 'c, 't, 'v) smachine \<Rightarrow> ('s, 'e) change \<Rightarrow> sphase \<Rightarrow>
      ('s, 'e) serr \<Rightarrow> bool \<Rightarrow> ('s, 'e, 'c, 't, 'v) sup \<Rightarrow> ('s, 'e) sfault" where
  "new_fault E m change phase cause uncertain w =
     (case fault_times change w of (issuedAt, deadline) \<Rightarrow>
        Fault change (sm_id m) (su_execution w) (at_incarnation change) (at_id change)
          (su_revision w) (su_state w) (at_event change) (ch_transition change) (ch_to change)
          phase uncertain issuedAt deadline (now E w) (se_text E cause) cause)"

definition latchLocked ::
    "('s, 'e, 'c, 'v) senv \<Rightarrow> ('s, 'e, 'c, 't, 'v) smachine \<Rightarrow> nat option \<Rightarrow> ('s, 'e) change \<Rightarrow>
      sphase \<Rightarrow> ('s, 'e) serr \<Rightarrow> bool \<Rightarrow> ('s, 'e, 'c, 't, 'v) sup \<Rightarrow>
      ('s, 'e, 'c, 't, 'v) sup \<times> ('s, 'e) sfault option \<times> nat option \<times> bool" where
  "latchLocked E m op change phase cause uncertain w =
     (if (case op of None \<Rightarrow> False | Some o' \<Rightarrow> \<not> ownsLocked o' w) then (w, su_fault w, None, False)
      else
        (let fresh = (su_fault w = None);
             w = (if fresh
                  then w\<lparr>su_fault := Some (new_fault E m change phase cause uncertain w)\<rparr> else w);
             w = w\<lparr>su_timer := None, su_pending := None\<rparr> in
         case (case su_operation w of
                 None \<Rightarrow> (w, None)
               | Some o' \<Rightarrow> take_cancel o' (upd_op o' (\<lambda>p. p\<lparr>op_revoked := True\<rparr>) w)) of
           (w, cancel) \<Rightarrow>
             (let w = w\<lparr>su_mode := ModeFaulted\<rparr> in (w, su_fault w, cancel, fresh))))"

text \<open>\<open>p\<close> is the pending change the caller has found.\<close>

definition expireVerificationLocked ::
    "('s, 'e, 'c, 'v) senv \<Rightarrow> ('s, 'e, 'c, 't, 'v) smachine \<Rightarrow> ('s, 'e, 'c, 't, 'v) pending_change \<Rightarrow>
      ('s, 'e, 'c, 't, 'v) sup \<Rightarrow> ('s, 'e, 'c, 't, 'v) sup \<times> ('s, 'e) sresult \<times> nat option" where
  "expireVerificationLocked E m p w =
     (let change = pe_change p in
      case latchLocked E m None change PhaseVerify (SSentinel ErrVerificationTimeout) True w of
        (w, fault, cancel, fresh) \<Rightarrow>
      case stampLocked E w of (w, stamp) \<Rightarrow>
        (w\<lparr>su_reporting := su_reporting w + 1\<rparr>,
         (resultFromChange E change)\<lparr>re_phase := PhaseVerify, re_issued := True,
            re_faulted := True, re_uncertain := True, re_err := map_option SFault fault,
            re_stamp := stamp\<lparr>rs_durable := fresh\<rparr>, re_startedAt := rs_at stamp,
            re_owner := su_operation w, re_reporting := True\<rparr>,
         cancel))"

section \<open>The ends of an operation\<close>

text \<open>\<open>finishReady\<close> gives the fault it found when it may not finish, nil for success.\<close>

definition finishReady_region ::
    "('s, 'e, 'c, 'v) senv \<Rightarrow> nat \<Rightarrow> ('s, 'e) sresult \<Rightarrow> ('s, 'e, 'c, 't, 'v) sup \<Rightarrow>
      ('s, 'e, 'c, 't, 'v) sup \<times> ('s, 'e) sresult \<times> ('s, 'e) sfault option \<times> nat option" where
  "finishReady_region E op base w =
     (if \<not> ownsLocked op w \<or> su_mode w \<noteq> ModeExecuting then
        (case stampLocked E w of (w, stamp) \<Rightarrow> (w, base\<lparr>re_stamp := stamp\<rparr>, su_fault w, None))
      else
        (case take_cancel op w of (w, cancel) \<Rightarrow>
         case stampLocked E (w\<lparr>su_mode := ModeReady\<rparr>) of (w, stamp) \<Rightarrow>
           (w, base\<lparr>re_stamp := stamp\<lparr>rs_durable := True\<rparr>\<rparr>, None, cancel)))"

definition awaitVerification_region ::
    "('s, 'e, 'c, 'v) senv \<Rightarrow> nat \<Rightarrow> ('s, 'e) change \<Rightarrow> ('s, 'e, 'c, 't, 'v) compiled_row \<Rightarrow>
      ('s, 'e) sresult \<Rightarrow> ('s, 'e, 'c, 't, 'v) sup \<Rightarrow>
      ('s, 'e, 'c, 't, 'v) sup \<times> ('s, 'e) sresult \<times> ('s, 'e) sfault option \<times> nat option" where
  "awaitVerification_region E op change row base w =
     (if \<not> ownsLocked op w \<or> su_mode w \<noteq> ModeExecuting then
        (case stampLocked E w of (w, stamp) \<Rightarrow> (w, base\<lparr>re_stamp := stamp\<rparr>, su_fault w, None))
      else
        (case take_cancel op w of (w, cancel) \<Rightarrow>
         case stampLocked E
           (w\<lparr>su_pending := Some
                \<lparr>pe_change = change, pe_transition = row, pe_issuedAt = op_issuedAt (su_ops w op),
                 pe_deadline = now E w + nat (VerificationTimeout (se_limits E)),
                 pe_version = op_id (su_ops w op)\<rparr>,
              su_mode := ModeAwaitingVerification,
              su_timer := Some (at_id change, op_id (su_ops w op))\<rparr>) of
           (w, stamp) \<Rightarrow> (w, base\<lparr>re_stamp := stamp\<rparr>, None, cancel)))"

definition restoreFault_region ::
    "('s, 'e, 'c, 'v) senv \<Rightarrow> nat \<Rightarrow> ('s, 'e) sfault \<Rightarrow> ('s, 'e) sresult \<Rightarrow>
      ('s, 'e, 'c, 't, 'v) sup \<Rightarrow> ('s, 'e, 'c, 't, 'v) sup \<times> ('s, 'e) sresult \<times> nat option" where
  "restoreFault_region E op fault base w =
     (if \<not> ownsLocked op w then
        (case stampLocked E w of (w, stamp) \<Rightarrow> (w, base\<lparr>re_stamp := stamp\<rparr>, None))
      else
        (case take_cancel op w of (w, cancel) \<Rightarrow>
         case stampLocked E ((upd_op op (\<lambda>p. p\<lparr>op_revoked := True\<rparr>) w)
                \<lparr>su_fault := Some fault, su_mode := ModeFaulted\<rparr>) of
           (w, stamp) \<Rightarrow> (w, base\<lparr>re_stamp := stamp\<rparr>, cancel)))"

text \<open>The lock region of \<^verbatim>\<open>commit\<close>: a fault to report, or the committed revision.\<close>

definition commit_region ::
    "('s, 'e, 'c, 'v) senv \<Rightarrow> ('s, 'e, 'c, 't, 'v) smachine \<Rightarrow> nat \<Rightarrow> ('s, 'e) sresult \<Rightarrow>
      ('s, 'e) change \<Rightarrow> bool \<Rightarrow> ('s, 'e, 'c, 't, 'v) sup \<Rightarrow>
      ('s, 'e, 'c, 't, 'v) sup \<times> ('s, 'e) sresult \<times> (('s, 'e) sfault option + u64) \<times> nat option" where
  "commit_region E m op base change issued w =
     (if \<not> ownsLocked op w \<or> su_mode w \<noteq> ModeExecuting then
        (case stampLocked E w of (w, stamp) \<Rightarrow> (w, base\<lparr>re_stamp := stamp\<rparr>, Inl (su_fault w), None))
      else if su_revision w = - 1 then
        (case latchLocked E m (Some op) change PhaseCommit (SSentinel ErrCounterExhausted) issued w of
           (w, fault, cancel, fresh) \<Rightarrow>
         case stampLocked E w of (w, stamp) \<Rightarrow>
           (w, base\<lparr>re_stamp := stamp\<lparr>rs_durable := fresh\<rparr>\<rparr>, Inl fault, cancel))
      else
        (case take_cancel op
                (w\<lparr>su_state := ch_to change, su_revision := su_revision w + 1, su_pending := None\<rparr>) of
           (w, cancel) \<Rightarrow>
         case stampLocked E (w\<lparr>su_mode := ModeReady\<rparr>) of (w, stamp) \<Rightarrow>
           (w, base\<lparr>re_stamp := stamp\<lparr>rs_durable := True\<rparr>\<rparr>, Inr (su_revision w), cancel)))"

text \<open>The last lock region of an adjudication, which commits \<open>target\<close> unless it retains.\<close>

definition adjudicate_region ::
    "('s, 'e, 'c, 'v) senv \<Rightarrow> nat \<Rightarrow> ('s, 'e) sfault \<Rightarrow> adjudication \<Rightarrow> 's \<Rightarrow> ('s, 'e) sresult \<Rightarrow>
      ('s, 'e, 'c, 't, 'v) sup \<Rightarrow>
      ('s, 'e, 'c, 't, 'v) sup \<times> ('s, 'e) sresult \<times> ('s, 'e) sfault option option \<times> nat option" where
  "adjudicate_region E op original outcome target base w =
     (if \<not> ownsLocked op w \<or> su_mode w \<noteq> ModeExecuting \<or> su_fault w \<noteq> Some original then
        (case stampLocked E w of (w, stamp) \<Rightarrow>
           (w, base\<lparr>re_stamp := stamp\<rparr>, Some (su_fault w), None))
      else
        (case take_cancel op w of (w, cancel) \<Rightarrow>
         let (w, base) = (if outcome \<noteq> AdjudicateRetain
                          then (w\<lparr>su_state := target, su_revision := su_revision w + 1\<rparr>,
                                base\<lparr>re_committed := True\<rparr>)
                          else (w, base));
             base = base\<lparr>re_revision := su_revision w\<rparr> in
         case stampLocked E (w\<lparr>su_fault := None, su_mode := ModeReady\<rparr>) of (w, stamp) \<Rightarrow>
           (w, base\<lparr>re_stamp := stamp\<lparr>rs_durable := True\<rparr>\<rparr>, None, cancel)))"

end
