(* ===== verification/Super_Threads.thy ===== *)
theory Super_Threads
  imports Prelude "HOL-Library.Multiset"
begin

text \<open>
  Goroutines as programs of atomic pieces, and a proof rule for any interleaving of them.

  A piece is what the code does under one hold of the lock, or one unlocked access to what
  goroutines share. It is blocked (None), or it gives the new world, the rest of the goroutine
  and the goroutines it starts. A configuration is a world and the list of all goroutines.
  \<open>pool_step\<close> lets any of them run one piece, a client start a new goroutine, or the environment
  change the world.

  The locale \<open>tokens\<close> is the proof rule: each goroutine owns a multiset of tokens, \<open>Inv\<close> relates
  the world to all tokens, and every piece trades its own tokens for new ones while the others'
  stay. \<open>holds_inv\<close> is its soundness.
\<close>

section \<open>Programs\<close>

datatype ('w, 'a) prog =
    Return 'a
  | Piece "'w \<Rightarrow> ('w \<times> ('w, 'a) prog \<times> ('w, 'a) prog list) option"

definition locked :: "('w \<Rightarrow> 'w \<times> ('w, 'a) prog) \<Rightarrow> ('w, 'a) prog" where
  "locked f = Piece (\<lambda>w. case f w of (w', p) \<Rightarrow> Some (w', p, []))"

definition forked :: "('w \<Rightarrow> 'w \<times> ('w, 'a) prog \<times> ('w, 'a) prog list) \<Rightarrow> ('w, 'a) prog" where
  "forked f = Piece (\<lambda>w. Some (f w))"

definition awaiting :: "('w \<Rightarrow> ('w \<times> ('w, 'a) prog) option) \<Rightarrow> ('w, 'a) prog" where
  "awaiting f = Piece (\<lambda>w. case f w of None \<Rightarrow> None | Some (w', p) \<Rightarrow> Some (w', p, []))"

section \<open>Configurations\<close>

inductive pool_step ::
    "(('w, 'a) prog \<Rightarrow> 'w \<Rightarrow> bool) \<Rightarrow> ('w \<Rightarrow> 'w \<Rightarrow> bool) \<Rightarrow>
      'w \<times> ('w, 'a) prog list \<Rightarrow> 'w \<times> ('w, 'a) prog list \<Rightarrow> bool"
  for starts env where
  Run: "pool_step starts env (w, ps @ Piece f # qs) (w', ps @ p # qs @ new)"
    if "f w = Some (w', p, new)"
| Begin: "pool_step starts env (w, ps) (w, ps @ [p])" if "starts p w"
| Outside: "pool_step starts env (w, ps) (w', ps)" if "env w w'"

inductive pool_runs ::
    "(('w, 'a) prog \<Rightarrow> 'w \<Rightarrow> bool) \<Rightarrow> ('w \<Rightarrow> 'w \<Rightarrow> bool) \<Rightarrow>
      'w \<times> ('w, 'a) prog list \<Rightarrow> 'w \<times> ('w, 'a) prog list \<Rightarrow> bool"
  for starts env where
  pool_refl: "pool_runs starts env c c"
| pool_snoc: "pool_runs starts env c c' \<Longrightarrow> pool_step starts env c' c'' \<Longrightarrow> pool_runs starts env c c''"

inductive_cases pool_stepE: "pool_step starts env c c'"

lemma pool_runs_trans: "pool_runs S E b c \<Longrightarrow> pool_runs S E a b \<Longrightarrow> pool_runs S E a c"
  by (induction rule: pool_runs.induct) (auto intro: pool_runs.intros)

section \<open>Tokens\<close>

locale tokens =
  fixes Inv :: "'w \<Rightarrow> 'k multiset \<Rightarrow> bool"
    and Allowed :: "'w \<Rightarrow> 'w \<Rightarrow> bool"
begin

inductive ok :: "('a \<Rightarrow> bool) \<Rightarrow> 'k multiset \<Rightarrow> ('w, 'a) prog \<Rightarrow> bool" for good where
  ok_Return: "good a \<Longrightarrow> ok good T (Return a)"
| ok_Piece:
    "(\<And>w F w' p new. Inv w (F + T) \<Longrightarrow> f w = Some (w', p, new) \<Longrightarrow>
       \<exists>T' Ts. Inv w' (F + T' + sum_list Ts) \<and> Allowed w w' \<and> ok good T' p \<and>
         list_all2 (ok good) Ts new) \<Longrightarrow>
     ok good T (Piece f)"

inductive_cases ok_PieceE: "ok good T (Piece f)"
inductive_cases ok_ReturnE: "ok good T (Return a)"

definition pool_ok :: "('a \<Rightarrow> bool) \<Rightarrow> 'w \<times> ('w, 'a) prog list \<Rightarrow> bool" where
  "pool_ok good c \<longleftrightarrow> (\<exists>Ts. list_all2 (ok good) Ts (snd c) \<and> Inv (fst c) (sum_list Ts))"

text \<open>What a goroutine may rely on when a piece of it is \<open>locked\<close>, forks, or waits.\<close>

lemma ok_locked:
  assumes "\<And>w F w' p. Inv w (F + T) \<Longrightarrow> f w = (w', p) \<Longrightarrow>
    \<exists>T'. Inv w' (F + T') \<and> Allowed w w' \<and> ok good T' p"
  shows "ok (good :: 'a \<Rightarrow> bool) T (locked f)"
  unfolding locked_def
proof (rule ok_Piece)
  fix w F w' p and new :: "('w, 'a) prog list"
  assume I: "Inv w (F + T)" and "(case f w of (w', p) \<Rightarrow> Some (w', p, [])) = Some (w', p, new)"
  then have "f w = (w', p)" "new = []" by (auto split: prod.splits)
  moreover obtain T' where "Inv w' (F + T')" "Allowed w w'" "ok good T' p"
    using assms [OF I \<open>f w = (w', p)\<close>] by auto
  ultimately show "\<exists>T' Ts. Inv w' (F + T' + sum_list Ts) \<and> Allowed w w' \<and> ok good T' p \<and>
      list_all2 (ok good) Ts new"
    by (intro exI [of _ T'] exI [of _ "[]"]) simp
qed

lemma ok_awaiting:
  assumes "\<And>w F w' p. Inv w (F + T) \<Longrightarrow> f w = Some (w', p) \<Longrightarrow>
    \<exists>T'. Inv w' (F + T') \<and> Allowed w w' \<and> ok good T' p"
  shows "ok (good :: 'a \<Rightarrow> bool) T (awaiting f)"
  unfolding awaiting_def
proof (rule ok_Piece)
  fix w F w' p and new :: "('w, 'a) prog list"
  assume I: "Inv w (F + T)"
    and "(case f w of None \<Rightarrow> None | Some (w', p) \<Rightarrow> Some (w', p, [])) = Some (w', p, new)"
  then have "f w = Some (w', p)" "new = []" by (auto split: option.splits)
  moreover obtain T' where "Inv w' (F + T')" "Allowed w w'" "ok good T' p"
    using assms [OF I \<open>f w = Some (w', p)\<close>] by auto
  ultimately show "\<exists>T' Ts. Inv w' (F + T' + sum_list Ts) \<and> Allowed w w' \<and> ok good T' p \<and>
      list_all2 (ok good) Ts new"
    by (intro exI [of _ T'] exI [of _ "[]"]) simp
qed

lemma ok_forked:
  assumes "\<And>w F w' p new. Inv w (F + T) \<Longrightarrow> f w = (w', p, new) \<Longrightarrow>
    \<exists>T' Ts. Inv w' (F + T' + sum_list Ts) \<and> Allowed w w' \<and> ok good T' p \<and> list_all2 (ok good) Ts new"
  shows "ok good T (forked f)"
  unfolding forked_def using assms by (intro ok_Piece) auto

text \<open>Tokens a goroutine does not use are no obstacle.\<close>

lemma ok_frame: "ok good T p \<Longrightarrow> ok good (T + X) p"
proof (induction rule: ok.induct)
  case (ok_Piece T f)
  show ?case
  proof (rule ok.ok_Piece)
    fix w F w' p new
    assume "Inv w (F + (T + X))" "f w = Some (w', p, new)"
    then obtain T' Ts where *: "Inv w' ((F + X) + T' + sum_list Ts)" "Allowed w w'"
      "ok good (T' + X) p" "list_all2 (ok good) Ts new"
      using ok_Piece [of w "F + X" w' p new] by (auto simp: ac_simps intro: list_all2_mono)
    then show "\<exists>T' Ts. Inv w' (F + T' + sum_list Ts) \<and> Allowed w w' \<and> ok good T' p \<and>
        list_all2 (ok good) Ts new"
      by (intro exI [of _ "T' + X"] exI [of _ Ts]) (simp add: ac_simps)
  qed
qed (rule ok_Return)

text \<open>A piece that only reads keeps the tokens.\<close>

lemma ok_reading:
  assumes "\<And>w. ok good T (f w)" "\<And>w. Allowed w w"
  shows "ok good T (locked (\<lambda>w. (w, f w)))"
  using assms by (intro ok_locked) auto

end

text \<open>Soundness: the environment must keep every invariant, and a new goroutine bring its tokens.\<close>

context tokens
begin

lemma pool_ok_step:
  assumes "pool_step starts env c c'" "pool_ok good c"
    and starts: "\<And>p w T. starts p w \<Longrightarrow> Inv w T \<Longrightarrow> \<exists>T'. Inv w (T + T') \<and> ok good T' p"
    and env: "\<And>w w' T. env w w' \<Longrightarrow> Inv w T \<Longrightarrow> Inv w' T \<and> Allowed w w'"
    and refl: "\<And>w. Allowed w w"
  shows "pool_ok good c' \<and> Allowed (fst c) (fst c')"
  using assms(1, 2)
proof (induction rule: pool_step.induct)
  case (Run f w w' p new ps qs)
  then obtain Ts where Ts: "list_all2 (ok good) Ts (ps @ Piece f # qs)" "Inv w (sum_list Ts)"
    by (auto simp: pool_ok_def)
  then obtain As T Bs where split: "Ts = As @ T # Bs" "list_all2 (ok good) As ps"
    "ok good T (Piece f)" "list_all2 (ok good) Bs qs"
    by (auto simp: list_all2_append2 list_all2_Cons2)
  from Ts(2) have "Inv w ((sum_list As + sum_list Bs) + T)" by (simp add: split ac_simps)
  then obtain T' Ns where new: "Inv w' (sum_list As + sum_list Bs + T' + sum_list Ns)"
    "Allowed w w'" "ok good T' p" "list_all2 (ok good) Ns new"
    using split(3) Run.hyps by (elim ok_PieceE) blast
  have "list_all2 (ok good) (As @ T' # Bs @ Ns) (ps @ p # qs @ new)"
    using split new by (simp add: list_all2_appendI)
  moreover have "Inv w' (sum_list (As @ T' # Bs @ Ns))" using new(1) by (simp add: ac_simps)
  ultimately show ?case using new(2) by (auto simp: pool_ok_def)
next
  case (Begin p w ps)
  then obtain Ts where Ts: "list_all2 (ok good) Ts ps" "Inv w (sum_list Ts)"
    by (auto simp: pool_ok_def)
  then obtain T' where "Inv w (sum_list Ts + T')" "ok good T' p"
    using starts [OF Begin.hyps] by blast
  then show ?case
    using Ts refl by (auto simp: pool_ok_def intro!: exI [of _ "Ts @ [T']"] list_all2_appendI)
next
  case (Outside w w' ps)
  then show ?case using env by (auto simp: pool_ok_def)
qed

lemma pool_ok_runs:
  assumes "pool_runs starts env c c'" "pool_ok good c"
    and "\<And>p w T. starts p w \<Longrightarrow> Inv w T \<Longrightarrow> \<exists>T'. Inv w (T + T') \<and> ok good T' p"
    and "\<And>w w' T. env w w' \<Longrightarrow> Inv w T \<Longrightarrow> Inv w' T \<and> Allowed w w'"
    and "\<And>w. Allowed w w"
  shows "pool_ok good c'"
  using assms(1, 2) by (induction rule: pool_runs.induct) (use pool_ok_step assms(3-) in blast)+

lemma pool_ok_invariant: "pool_ok good (w, ps) \<Longrightarrow> \<exists>T. Inv w T"
  by (auto simp: pool_ok_def)

lemma pool_ok_results:
  assumes "pool_ok good (w, ps)" "Return a \<in> set ps"
  shows "good a"
proof -
  obtain Ts where "list_all2 (ok good) Ts ps" using assms(1) by (auto simp: pool_ok_def)
  then obtain T where "ok good T (Return a)"
    using assms(2) by (auto simp: list_all2_conv_all_nth in_set_conv_nth)
  then show ?thesis by (elim ok_ReturnE)
qed

end

end
