(* ===== verification/Super_Drivers.thy ===== *)
theory Super_Drivers
  imports Super_Locked Super_Threads
begin

text \<open>
  \<^verbatim>\<open>supervised/execution.go\<close>, \<^verbatim>\<open>supervised/delivery.go\<close>: what runs outside the lock.

  Each function of the code that takes and releases the lock is a program of pieces, with the
  rest of its caller as the argument \<open>k\<close>. \<open>invoke\<close> and \<open>deliverAdapter\<close> start a goroutine for
  application code and wait for what it sends, or for their context. An application callback is
  one piece that acts on the application's world \<open>su_app\<close>; what else the callback does meanwhile
  (it may call the Supervisor, or change the world in several moves) is done by other goroutines
  and by the environment, before that piece. A callback that never returns is one whose piece
  never runs. \<open>NilDereference\<close> is the run-time panic of a read through a nil pointer.
\<close>

datatype ('s, 'e) call_result =
    ResultOf "('s, 'e) sresult"
  | FaultOf "('s, 'e) sfault"
  | Ended
  | NilDereference

type_synonym ('s, 'e, 'c, 't, 'v) sprog = "(('s, 'e, 'c, 't, 'v) sup, ('s, 'e) call_result) prog"

type_synonym ('s, 'e, 'v) callback = "('s, 'e, 'v, ('s, 'e) serr option) act"

section \<open>Small pieces\<close>

definition cancelling ::
    "nat option \<Rightarrow> ('s, 'e, 'c, 't, 'v) sprog \<Rightarrow> ('s, 'e, 'c, 't, 'v) sprog" where
  "cancelling ctx k =
     (case ctx of None \<Rightarrow> k | Some c \<Rightarrow> locked (\<lambda>w. (cancel_ctx c w, k)))"

definition completeResult ::
    "('s, 'e, 'c, 'v) senv \<Rightarrow> ('s, 'e) sresult \<Rightarrow>
      (('s, 'e) sresult \<Rightarrow> ('s, 'e, 'c, 't, 'v) sprog) \<Rightarrow> ('s, 'e, 'c, 't, 'v) sprog" where
  "completeResult E result k = locked (\<lambda>w. (w, k (completed (now E w) result)))"

text \<open>Application code runs on its world.\<close>

definition run_callback ::
    "('s, 'e, 'v) callback \<Rightarrow>
      (('s, 'e, ('s, 'e) serr option) outcome \<Rightarrow> ('s, 'e, 'c, 't, 'v) sprog) \<Rightarrow>
      ('s, 'e, 'c, 't, 'v) sprog" where
  "run_callback act k =
     locked (\<lambda>w. case act (su_app w) of (v, out) \<Rightarrow> (w\<lparr>su_app := v\<rparr>, k out))"

text \<open>A new context with a deadline, on \<^verbatim>\<open>context.Background\<close>.\<close>

definition with_timeout ::
    "(nat \<Rightarrow> ('s, 'e, 'c, 't, 'v) sprog) \<Rightarrow> ('s, 'e, 'c, 't, 'v) sprog" where
  "with_timeout k =
     locked (\<lambda>w. (w\<lparr>su_ctxs := (su_ctxs w)(su_nextCtx w := None), su_nextCtx := Suc (su_nextCtx w)\<rparr>,
                  k (su_nextCtx w)))"

section \<open>Adapters\<close>

definition gate_busy :: "bool \<Rightarrow> ('s, 'e, 'c, 't, 'v) sup \<Rightarrow> bool" where
  "gate_busy journal w = (if journal then su_journalBusy w else su_recorderBusy w)"

definition set_gate :: "bool \<Rightarrow> bool \<Rightarrow> ('s, 'e, 'c, 't, 'v) sup \<Rightarrow> ('s, 'e, 'c, 't, 'v) sup" where
  "set_gate journal b w =
     (if journal then w\<lparr>su_journalBusy := b\<rparr> else w\<lparr>su_recorderBusy := b\<rparr>)"

definition set_running :: "bool \<Rightarrow> bool \<Rightarrow> ('s, 'e, 'c, 't, 'v) sup \<Rightarrow> ('s, 'e, 'c, 't, 'v) sup" where
  "set_running journal b w =
     (if journal then w\<lparr>su_journalRunning := b\<rparr> else w\<lparr>su_recorderRunning := b\<rparr>)"

definition add_callback :: "nat option \<Rightarrow> ('s, 'e, 'c, 't, 'v) sup \<Rightarrow> ('s, 'e, 'c, 't, 'v) sup" where
  "add_callback owner w =
     (case owner of
        None \<Rightarrow> w
      | Some op \<Rightarrow> upd_op op (\<lambda>p. p\<lparr>op_callbacks := op_callbacks p + 1\<rparr>) w)"

text \<open>A goroutine and its channel.\<close>

definition new_goroutine :: "('s, 'e, 'c, 't, 'v) sup \<Rightarrow> ('s, 'e, 'c, 't, 'v) sup" where
  "new_goroutine w = w\<lparr>su_nextChan := Suc (su_nextChan w), su_live := insert (su_nextChan w) (su_live w)\<rparr>"

definition callback_ended :: "nat \<Rightarrow> ('s, 'e, 'c, 't, 'v) sup \<Rightarrow> ('s, 'e, 'c, 't, 'v) sup" where
  "callback_ended ch w = w\<lparr>su_live := su_live w - {ch}\<rparr>"

definition delivery_failure ::
    "('s, 'e, ('s, 'e) serr option) outcome \<Rightarrow> ('s, 'e) serr option" where
  "delivery_failure out =
     (case out of
        Ret e \<Rightarrow> e
      | Panic v \<Rightarrow> Some (SPanicked v)
      | Goexit \<Rightarrow> Some (SSentinel SErrExecutionStopped))"

definition deliver_finish ::
    "nat option \<Rightarrow> bool \<Rightarrow> nat \<Rightarrow> ('s, 'e) serr option \<Rightarrow> ('s, 'e, 'c, 't, 'v) sprog" where
  "deliver_finish op journal ch failure =
     locked (\<lambda>w.
       (callback_ended ch
          (set_gate journal False (set_running journal False (callbackReturnedLocked op w))),
        locked (\<lambda>w. (w\<lparr>su_failures := (su_failures w)(ch := Some failure)\<rparr>, Return Ended))))"

text \<open>\<open>body\<close> is the delivered function: it goes on with the outcome of the adapter.\<close>

type_synonym ('s, 'e, 'c, 't, 'v) delivery =
  "(('s, 'e, ('s, 'e) serr option) outcome \<Rightarrow> ('s, 'e, 'c, 't, 'v) sprog) \<Rightarrow>
    ('s, 'e, 'c, 't, 'v) sprog"

definition deliver_worker ::
    "nat \<Rightarrow> nat option \<Rightarrow> bool \<Rightarrow> ('s, 'e, 'c, 't, 'v) delivery \<Rightarrow> nat \<Rightarrow>
      ('s, 'e, 'c, 't, 'v) sprog" where
  "deliver_worker ctx op journal body ch =
     locked (\<lambda>w. (w,
       case su_ctxs w ctx of
         Some x \<Rightarrow> deliver_finish op journal ch (Some (contextFailure x))
       | None \<Rightarrow> body (\<lambda>out. deliver_finish op journal ch (delivery_failure out))))"

definition deliver_wait ::
    "nat \<Rightarrow> nat \<Rightarrow> (('s, 'e) serr option \<Rightarrow> ('s, 'e, 'c, 't, 'v) sprog) \<Rightarrow>
      ('s, 'e, 'c, 't, 'v) sprog" where
  "deliver_wait ctx ch k =
     awaiting (\<lambda>w.
       case su_failures w ch of
         Some failure \<Rightarrow> Some (w, k failure)
       | None \<Rightarrow>
           (case su_ctxs w ctx of
              Some x \<Rightarrow> Some (w, k (Some (contextFailure x)))
            | None \<Rightarrow> None))"

definition deliverAdapter ::
    "nat \<Rightarrow> nat option \<Rightarrow> bool \<Rightarrow> ('s, 'e, 'c, 't, 'v) delivery \<Rightarrow>
      (('s, 'e) serr option \<Rightarrow> ('s, 'e, 'c, 't, 'v) sprog) \<Rightarrow> ('s, 'e, 'c, 't, 'v) sprog" where
  "deliverAdapter ctx op journal body k =
     locked (\<lambda>w. (w,
       case su_ctxs w ctx of
         Some x \<Rightarrow> k (Some (contextFailure x))
       | None \<Rightarrow>
           forked (\<lambda>w.
             if gate_busy journal w then (w, k (Some (SSentinel ErrDeliveryBusy)), [])
             else
               (let ch = su_nextChan w;
                    w = set_running journal True (add_callback op (set_gate journal True w)) in
                (new_goroutine w, deliver_wait ctx ch k, [deliver_worker ctx op journal body ch])))))"

section \<open>Records and the Journal\<close>

definition recordResult ::
    "('s, 'e, 'c, 'v) senv \<Rightarrow> record_kind \<Rightarrow> ('s, 'e) sresult \<Rightarrow> ('s, 'e, 'c, 't, 'v) sprog \<Rightarrow>
      ('s, 'e, 'c, 't, 'v) sprog" where
  "recordResult E kind result k =
     locked (\<lambda>w.
       case recordResultLocked E kind result w of
         (w, None) \<Rightarrow> (w, k)
       | (w, Some r) \<Rightarrow>
           (w,
            case se_recorder E of
              None \<Rightarrow> k
            | Some recorder \<Rightarrow>
                with_timeout (\<lambda>ctx.
                  deliverAdapter ctx (re_owner result) False
                    (run_callback (recorder (se_background E) r))
                    (\<lambda>failure.
                      case failure of
                        None \<Rightarrow> cancelling (Some ctx) k
                      | Some f \<Rightarrow>
                          locked (\<lambda>w.
                            (w\<lparr>su_recorderError := se_text E f,
                               su_recorderFailures :=
                                 if su_recorderFailures w < - 1 then su_recorderFailures w + 1
                                 else su_recorderFailures w\<rparr>,
                             cancelling (Some ctx) k))))))"

definition closeJournal ::
    "('s, 'e, 'c, 'v) senv \<Rightarrow> ('s, 'e, 'c, 't, 'v) smachine \<Rightarrow> nat option \<Rightarrow>
      ('s, 'e, 'c, 't, 'v) sprog \<Rightarrow> ('s, 'e, 'c, 't, 'v) sprog" where
  "closeJournal E m op k =
     (case se_journal E of
        None \<Rightarrow> k
      | Some journal \<Rightarrow>
          with_timeout (\<lambda>ctx.
            deliverAdapter ctx op True
              (\<lambda>finish. locked (\<lambda>w.
                 (w, run_callback (journal (se_background E) (snapshotLocked E m w)) finish)))
              (\<lambda>failure.
                locked (\<lambda>w.
                  case failure of
                    None \<Rightarrow> (w\<lparr>su_journalError := []\<rparr>, cancelling (Some ctx) k)
                  | Some f \<Rightarrow>
                      (let w = w\<lparr>su_journalError := se_text E f\<rparr>;
                           base = (baseResultLocked E m w)
                             \<lparr>re_owner := op, re_err := Some (SJoined [SSentinel ErrJournal, f])\<rparr> in
                       case stampLocked E w of (w, stamp) \<Rightarrow>
                         (w, completeResult E (base\<lparr>re_stamp := stamp\<rparr>) (\<lambda>base.
                               recordResult E RecordJournalError base
                                 (cancelling (Some ctx) k))))))))"

definition closeJournalAfter ::
    "('s, 'e, 'c, 'v) senv \<Rightarrow> ('s, 'e, 'c, 't, 'v) smachine \<Rightarrow> ('s, 'e) sresult \<Rightarrow>
      ('s, 'e, 'c, 't, 'v) sprog \<Rightarrow> ('s, 'e, 'c, 't, 'v) sprog" where
  "closeJournalAfter E m result k =
     (if rs_durable (re_stamp result) then closeJournal E m (re_owner result) k else k)"

definition super_finalize ::
    "('s, 'e, 'c, 'v) senv \<Rightarrow> ('s, 'e, 'c, 't, 'v) smachine \<Rightarrow> record_kind \<Rightarrow> ('s, 'e) sresult \<Rightarrow>
      ('s, 'e, 'c, 't, 'v) sprog" where
  "super_finalize E m kind result =
     completeResult E result (\<lambda>result.
       closeJournalAfter E m result
         (recordResult E kind result
           (let k = Return (ResultOf (result\<lparr>re_owner := None, re_reporting := False\<rparr>)) in
            if re_reporting result then locked (\<lambda>w. (reportingReturned w, k))
            else case re_owner result of
                   Some op \<Rightarrow> locked (\<lambda>w. (operationReturned op w, k))
                 | None \<Rightarrow> k)))"

section \<open>Latching and refusing\<close>

definition latchResult ::
    "('s, 'e, 'c, 'v) senv \<Rightarrow> ('s, 'e, 'c, 't, 'v) smachine \<Rightarrow> ('s, 'e) sresult \<Rightarrow> nat \<Rightarrow>
      ('s, 'e) change \<Rightarrow> sphase \<Rightarrow> ('s, 'e) serr \<Rightarrow> bool \<Rightarrow>
      (('s, 'e) sresult \<Rightarrow> ('s, 'e, 'c, 't, 'v) sprog) \<Rightarrow> ('s, 'e, 'c, 't, 'v) sprog" where
  "latchResult E m base op change phase cause uncertain k =
     locked (\<lambda>w.
       case latchLocked E m (Some op) change phase cause uncertain w of
         (w, fault, cancel, fresh) \<Rightarrow>
           (case stampLocked E w of (w, stamp) \<Rightarrow>
              (w, cancelling cancel
                    (k (faultResult (base\<lparr>re_stamp := stamp\<lparr>rs_durable := fresh\<rparr>\<rparr>) fault)))))"

text \<open>A refusal under the lock: the error, and the stamp of the decision.\<close>

definition refused ::
    "('s, 'e, 'c, 'v) senv \<Rightarrow> ('s, 'e) sresult \<Rightarrow> ('s, 'e) serr \<Rightarrow>
      (('s, 'e) sresult \<Rightarrow> ('s, 'e, 'c, 't, 'v) sprog) \<Rightarrow> ('s, 'e, 'c, 't, 'v) sup \<Rightarrow>
      ('s, 'e, 'c, 't, 'v) sup \<times> ('s, 'e, 'c, 't, 'v) sprog" where
  "refused E base err k w =
     (case stampLocked E w of (w, stamp) \<Rightarrow>
        (w, k (base\<lparr>re_err := Some err, re_stamp := stamp\<rparr>)))"

text \<open>The refusal of a faulted Supervisor, which reads through \<^verbatim>\<open>s.fault\<close>.\<close>

definition refused_faulted ::
    "('s, 'e, 'c, 'v) senv \<Rightarrow> ('s, 'e) sresult \<Rightarrow>
      (('s, 'e) sresult \<Rightarrow> ('s, 'e, 'c, 't, 'v) sprog) \<Rightarrow> ('s, 'e, 'c, 't, 'v) sup \<Rightarrow>
      ('s, 'e, 'c, 't, 'v) sup \<times> ('s, 'e, 'c, 't, 'v) sprog" where
  "refused_faulted E base k w =
     (case su_fault w of
        None \<Rightarrow> (w, Return NilDereference)
      | Some f \<Rightarrow>
          refused E (base\<lparr>re_faulted := True, re_uncertain := f_uncertain f\<rparr>) (SFault f) k w)"

definition admission_closed :: "('s, 'e, 'c, 't, 'v) sup \<Rightarrow> bool" where
  "admission_closed w \<longleftrightarrow>
     su_operation w \<noteq> None \<or> su_recorderRunning w \<or> su_journalRunning w \<or> su_reporting w \<noteq> 0"

section \<open>Callbacks\<close>

definition callback_outcome_of ::
    "('s, 'e, ('s, 'e) serr option) outcome \<Rightarrow> ('s, 'e) callback_outcome" where
  "callback_outcome_of out =
     (case out of
        Ret e \<Rightarrow> \<lparr>cb_err = e, cb_completed = True\<rparr>
      | Panic v \<Rightarrow> \<lparr>cb_err = Some (SPanicked v), cb_completed = False\<rparr>
      | Goexit \<Rightarrow> \<lparr>cb_err = Some (SSentinel SErrExecutionStopped), cb_completed = False\<rparr>)"

definition send_outcome ::
    "nat \<Rightarrow> nat \<Rightarrow> ('s, 'e) callback_outcome \<Rightarrow> ('s, 'e, 'c, 't, 'v) sup \<Rightarrow>
      ('s, 'e, 'c, 't, 'v) sup" where
  "send_outcome op ch out w =
     (callback_ended ch (callbackReturnedLocked (Some op) w))
       \<lparr>su_outcomes := (su_outcomes w)(ch := Some out)\<rparr>"

definition invoke_publish ::
    "('s, 'e, 'c, 'v) senv \<Rightarrow> nat \<Rightarrow> ('s, 'e) change \<Rightarrow> sphase \<Rightarrow> nat \<Rightarrow>
      ('s, 'e) callback_outcome \<Rightarrow> ('s, 'e, 'c, 't, 'v) sprog" where
  "invoke_publish E op change phase ch out =
     locked (\<lambda>w.
       if \<not> (op_abandoned (su_ops w op) \<and> cb_err out \<noteq> None)
       then (send_outcome op ch out w, Return Ended)
       else
         (let late = (resultFromChange E change)
                \<lparr>re_operation := op_id (su_ops w op), re_owner := Some op, re_phase := phase,
                  re_faulted := (su_mode w = ModeFaulted),
                  re_uncertain :=
                    (phase = PhaseIssue \<or> phase = PhaseVerify \<or> phase = PhasePostcondition),
                  re_err := cb_err out\<rparr> in
          case stampLocked E w of (w, stamp) \<Rightarrow>
            (w, completeResult E (late\<lparr>re_stamp := stamp\<rparr>) (\<lambda>late.
                  recordResult E RecordSecondaryCause late
                    (locked (\<lambda>w. (send_outcome op ch out w, Return Ended)))))))"

definition invoke_worker ::
    "('s, 'e, 'c, 'v) senv \<Rightarrow> nat \<Rightarrow> ('s, 'e) change \<Rightarrow> sphase \<Rightarrow> ('s, 'e, 'v) callback \<Rightarrow> nat \<Rightarrow>
      ('s, 'e, 'c, 't, 'v) sprog" where
  "invoke_worker E op change phase callback ch =
     run_callback callback (\<lambda>out. invoke_publish E op change phase ch (callback_outcome_of out))"

definition timed_out ::
    "(('s, 'e) serr \<times> ('s, 'e) serr) option \<Rightarrow> ('s, 'e) callback_outcome \<Rightarrow>
      ('s, 'e) callback_outcome" where
  "timed_out ctx out =
     (case ctx of
        None \<Rightarrow> out
      | Some x \<Rightarrow>
          (case cb_err out of
             Some e \<Rightarrow> out\<lparr>cb_err := Some (SJoined [e, contextFailure x])\<rparr>
           | None \<Rightarrow> out\<lparr>cb_err := Some (contextFailure x)\<rparr>))"

text \<open>The selects of \<^verbatim>\<open>invoke\<close>: a sent outcome comes first; without one, an ended context abandons
  the callback. The last look at the channel and the mark are under one lock.\<close>

definition invoke_wait ::
    "nat \<Rightarrow> nat \<Rightarrow> (('s, 'e) callback_outcome \<Rightarrow> ('s, 'e, 'c, 't, 'v) sprog) \<Rightarrow>
      ('s, 'e, 'c, 't, 'v) sprog" where
  "invoke_wait op ch k =
     awaiting (\<lambda>w.
       case su_outcomes w ch of
         Some out \<Rightarrow> Some (w, locked (\<lambda>w. (w, k (timed_out (su_ctxs w (op_ctx (su_ops w op))) out))))
       | None \<Rightarrow>
           (case su_ctxs w (op_ctx (su_ops w op)) of
              Some x \<Rightarrow>
                Some (upd_op op (\<lambda>p. p\<lparr>op_abandoned := True\<rparr>) w,
                      k \<lparr>cb_err = Some (contextFailure x), cb_completed = False\<rparr>)
            | None \<Rightarrow> None))"

text \<open>The error of a driver that no longer owns its operation.\<close>

definition lost_ownership :: "('s, 'e, 'c, 't, 'v) sup \<Rightarrow> ('s, 'e) serr" where
  "lost_ownership w = (case su_fault w of Some f \<Rightarrow> SFault f | None \<Rightarrow> SSentinel ErrBusy)"

definition invoke ::
    "('s, 'e, 'c, 'v) senv \<Rightarrow> nat \<Rightarrow> ('s, 'e) change \<Rightarrow> sphase \<Rightarrow> ('s, 'e, 'v) callback \<Rightarrow>
      (('s, 'e) callback_outcome \<Rightarrow> ('s, 'e, 'c, 't, 'v) sprog) \<Rightarrow> ('s, 'e, 'c, 't, 'v) sprog" where
  "invoke E op change phase callback k =
     locked (\<lambda>w. (w,
       case su_ctxs w (op_ctx (su_ops w op)) of
         Some x \<Rightarrow> k \<lparr>cb_err = Some (contextFailure x), cb_completed = False\<rparr>
       | None \<Rightarrow>
           forked (\<lambda>w.
             if \<not> ownsLocked op w \<or> su_mode w \<noteq> ModeExecuting
             then (w, k \<lparr>cb_err = Some (lost_ownership w), cb_completed = False\<rparr>, [])
             else
               (let ch = su_nextChan w;
                    w = upd_op op (\<lambda>p. p\<lparr>op_change := change, op_phase := phase,
                          op_phaseAt := now E w, op_callbacks := op_callbacks p + 1\<rparr>) w in
                (new_goroutine w, invoke_wait op ch k,
                 [invoke_worker E op change phase callback ch])))))"

text \<open>A sequence of mandatory callbacks; a callback that returned an error violates its phase.\<close>

primrec invoke_each ::
    "('s, 'e, 'c, 'v) senv \<Rightarrow> nat \<Rightarrow> ('s, 'e) change \<Rightarrow> sphase \<Rightarrow> ('s, 'e, 'v) callback list \<Rightarrow>
      (('s, 'e) serr \<Rightarrow> ('s, 'e, 'c, 't, 'v) sprog) \<Rightarrow> ('s, 'e, 'c, 't, 'v) sprog \<Rightarrow>
      ('s, 'e, 'c, 't, 'v) sprog" where
  "invoke_each E op change phase [] fail k = k"
| "invoke_each E op change phase (callback # callbacks) fail k =
     invoke E op change phase callback (\<lambda>out.
       case cb_err out of
         None \<Rightarrow> invoke_each E op change phase callbacks fail k
       | Some e \<Rightarrow> fail (if cb_completed out then SViolation phase e else e))"

definition runChecks ::
    "('s, 'e, 'c, 'v) senv \<Rightarrow> ('s, 'e, 'c, 't, 'v) smachine \<Rightarrow> nat \<Rightarrow> 'c \<Rightarrow> ('s, 'e) sresult \<Rightarrow>
      ('s, 'e) change \<Rightarrow> sphase \<Rightarrow> ('s, 'e, 'c, 't, 'v) check list \<Rightarrow> 't \<Rightarrow> bool \<Rightarrow>
      (('s, 'e) sresult \<Rightarrow> ('s, 'e, 'c, 't, 'v) sprog) \<Rightarrow> ('s, 'e, 'c, 't, 'v) sprog \<Rightarrow>
      ('s, 'e, 'c, 't, 'v) sprog" where
  "runChecks E m op ctx base change phase checks data uncertain stop k =
     invoke_each E op change phase (map (\<lambda>check. check ctx change data) checks)
       (\<lambda>cause. latchResult E m base op change phase cause uncertain stop) k"

end
