(* ===== verification/Super_Decisions.thy ===== *)
theory Super_Decisions
  imports Super_Drivers
begin

text \<open>
  \<^verbatim>\<open>supervised/execution.go\<close>: Start, Issue, Verify, Trip, Recover, Adjudicate, the expiry of a
  verification, and the queries.

  A driver is the program of one public call. Its first piece is the admission under the lock, on
  every mode and in the code's order; \<open>sup_call\<close> collects the calls a client can make, and
  \<open>sup_env\<close> is what happens outside: the application changes its world, and a context ends, because
  its timer fires or a caller cancels it.
\<close>

section \<open>Start\<close>

definition finishReady ::
    "('s, 'e, 'c, 'v) senv \<Rightarrow> nat \<Rightarrow> ('s, 'e) sresult \<Rightarrow>
      (('s, 'e) sresult \<Rightarrow> ('s, 'e) sfault option \<Rightarrow> ('s, 'e, 'c, 't, 'v) sprog) \<Rightarrow>
      ('s, 'e, 'c, 't, 'v) sprog" where
  "finishReady E op base k =
     locked (\<lambda>w. case finishReady_region E op base w of
       (w, base, fault, cancel) \<Rightarrow> (w, cancelling cancel (k base fault)))"

text \<open>The check of the operation's context between callbacks and the end of an operation.\<close>

definition if_ended ::
    "nat \<Rightarrow> (('s, 'e) serr \<Rightarrow> ('s, 'e, 'c, 't, 'v) sprog) \<Rightarrow> ('s, 'e, 'c, 't, 'v) sprog \<Rightarrow>
      ('s, 'e, 'c, 't, 'v) sprog" where
  "if_ended op ended k =
     locked (\<lambda>w. (w, case su_ctxs w (op_ctx (su_ops w op)) of
                      Some x \<Rightarrow> ended (contextFailure x)
                    | None \<Rightarrow> k))"

definition start_run ::
    "('s, 'e, 'c, 'v) senv \<Rightarrow> ('s, 'e, 'c, 't, 'v) smachine \<Rightarrow> 'c \<Rightarrow> 't \<Rightarrow> nat \<Rightarrow>
      ('s, 'e) change \<Rightarrow> ('s, 'e) ssnapshot \<Rightarrow> ('s, 'e) sresult \<Rightarrow>
      (('s, 'e) sresult \<Rightarrow> ('s, 'e, 'c, 't, 'v) sprog) \<Rightarrow> ('s, 'e, 'c, 't, 'v) sprog" where
  "start_run E m ctx data op change snapshot base k =
     invoke_each E op change PhaseStart
       (map (\<lambda>reconcile. reconcile ctx snapshot data) (sm_reconcile m))
       (\<lambda>cause. latchResult E m base op change PhaseStart cause True k)
       (if_ended op (\<lambda>err. latchResult E m base op change PhaseStart err True k)
          (finishReady E op base (\<lambda>base fault.
             case fault of
               Some f \<Rightarrow> k (faultResult base (Some f))
             | None \<Rightarrow> k (base\<lparr>re_phase := PhaseStart\<rparr>))))"

definition startDecision ::
    "('s, 'e, 'c, 'v) senv \<Rightarrow> ('s, 'e, 'c, 't, 'v) smachine \<Rightarrow> 'c option \<Rightarrow> 't \<Rightarrow>
      (('s, 'e) sresult \<Rightarrow> ('s, 'e, 'c, 't, 'v) sprog) \<Rightarrow> ('s, 'e, 'c, 't, 'v) sprog" where
  "startDecision E m parent data k =
     (case parent of
        None \<Rightarrow> locked (\<lambda>w. case statusResult E m PhaseStart (SSentinel ErrNilContext) w of
                              (w, result) \<Rightarrow> (w, k result))
      | Some ctx \<Rightarrow>
          locked (\<lambda>w.
            let base = baseResultLocked E m w in
            case su_mode w of
              ModeFaulted \<Rightarrow> refused_faulted E base k w
            | ModeExecuting \<Rightarrow> refused E base (SSentinel ErrBusy) k w
            | ModeReady \<Rightarrow> refused E base (SSentinel ErrAlreadyStarted) k w
            | ModeAwaitingVerification \<Rightarrow> refused E base (SSentinel ErrAlreadyStarted) k w
            | ModeStopped \<Rightarrow>
                if admission_closed w then refused E base (SSentinel ErrBusy) k w
                else
                  (let change = currentChangeLocked E m w; exhausted = countersExhaustedLocked w in
                   case beginOperationLocked E ctx change PhaseStart w of (w, op) \<Rightarrow>
                     let base = base\<lparr>re_operation := op_id (su_ops w op), re_owner := Some op\<rparr> in
                     if exhausted then
                       (w, latchResult E m base op change PhaseStart
                             (SSentinel ErrCounterExhausted) False k)
                     else
                       (w, start_run E m ctx data op change (snapshotLocked E m w)
                             (base\<lparr>re_startedAt := op_startedAt (su_ops w op)\<rparr>) k))))"

section \<open>Issue\<close>

text \<open>What \<^verbatim>\<open>commit\<close> does around its lock region.\<close>

definition super_commit ::
    "('s, 'e, 'c, 'v) senv \<Rightarrow> ('s, 'e, 'c, 't, 'v) smachine \<Rightarrow> nat \<Rightarrow> ('s, 'e) sresult \<Rightarrow>
      ('s, 'e) change \<Rightarrow> bool \<Rightarrow> bool \<Rightarrow>
      (('s, 'e) sresult \<Rightarrow> ('s, 'e, 'c, 't, 'v) sprog) \<Rightarrow> ('s, 'e, 'c, 't, 'v) sprog" where
  "super_commit E m op base change issued verified k =
     if_ended op (\<lambda>err. latchResult E m base op change PhaseCommit err issued k)
       (locked (\<lambda>w. case commit_region E m op base change issued w of
          (w, base, outcome, cancel) \<Rightarrow>
            (w, cancelling cancel
                  (case outcome of
                     Inl fault \<Rightarrow> k (faultResult base fault)
                   | Inr revision \<Rightarrow>
                       k (base\<lparr>re_phase := PhaseCommit, re_revision := revision,
                               re_issued := issued, re_verified := verified,
                               re_committed := True\<rparr>)))))"

definition prepareIssue ::
    "('s, 'e, 'c, 'v) senv \<Rightarrow> ('s, 'e, 'c, 't, 'v) smachine \<Rightarrow> nat \<Rightarrow> 'c \<Rightarrow> ('s, 'e) change \<Rightarrow>
      (('s, 'e) serr option \<Rightarrow> ('s, 'e, 'c, 't, 'v) sprog) \<Rightarrow> ('s, 'e, 'c, 't, 'v) sprog" where
  "prepareIssue E m op ctx change k =
     locked (\<lambda>w.
       if \<not> ownsLocked op w \<or> su_mode w \<noteq> ModeExecuting then (w, k (Some (lost_ownership w)))
       else
         (let w = upd_op op (\<lambda>p. p\<lparr>op_phase := PhaseIssue, op_phaseAt := now E w,
                                   op_issuedAt := now E w, op_change := change\<rparr>) w in
          (w,
           case se_journal E of
             None \<Rightarrow> k None
           | Some journal \<Rightarrow>
               deliverAdapter (op_ctx (su_ops w op)) (Some op) True
                 (\<lambda>finish. locked (\<lambda>w.
                    (w, if \<not> ownsLocked op w \<or> su_mode w \<noteq> ModeExecuting
                        then finish (Ret (Some (lost_ownership w)))
                        else run_callback (journal ctx (snapshotLocked E m w)) finish)))
                 (\<lambda>failure. k (map_option (\<lambda>f. SJoined [SSentinel ErrJournal, f]) failure)))))"

definition awaitVerification ::
    "('s, 'e, 'c, 'v) senv \<Rightarrow> nat \<Rightarrow> ('s, 'e) change \<Rightarrow> ('s, 'e, 'c, 't, 'v) compiled_row \<Rightarrow>
      ('s, 'e) sresult \<Rightarrow> (('s, 'e) sresult \<Rightarrow> ('s, 'e) sfault option \<Rightarrow> ('s, 'e, 'c, 't, 'v) sprog) \<Rightarrow>
      ('s, 'e, 'c, 't, 'v) sprog" where
  "awaitVerification E op change row base k =
     locked (\<lambda>w. case awaitVerification_region E op change row base w of
       (w, base, fault, cancel) \<Rightarrow> (w, cancelling cancel (k base fault)))"

text \<open>Guards, in the order of the rows. A guard that returned an error only rejects its row.\<close>

definition candidate_change ::
    "('s, 'e) attempt \<Rightarrow> ('s, 'e, 'c, 't, 'v) compiled_row \<Rightarrow> ('s, 'e) change" where
  "candidate_change a row = attempt.extend a (change.fields (co_id row) (co_to row))"

primrec try_candidates ::
    "('s, 'e, 'c, 'v) senv \<Rightarrow> ('s, 'e, 'c, 't, 'v) smachine \<Rightarrow> nat \<Rightarrow> 'c \<Rightarrow> 't \<Rightarrow> ('s, 'e) attempt \<Rightarrow>
      ('s, 'e) sresult \<Rightarrow> ('s, 'e, 'c, 't, 'v) compiled_row list \<Rightarrow> ('s, 'e) serr list \<Rightarrow>
      (('s, 'e) sresult \<Rightarrow> ('s, 'e, 'c, 't, 'v) sprog) \<Rightarrow>
      (('s, 'e, 'c, 't, 'v) compiled_row \<Rightarrow> ('s, 'e, 'c, 't, 'v) sprog) \<Rightarrow>
      (('s, 'e) serr list \<Rightarrow> ('s, 'e, 'c, 't, 'v) sprog) \<Rightarrow> ('s, 'e, 'c, 't, 'v) sprog" where
  "try_candidates E m op ctx data a base [] reasons stop found none = none reasons"
| "try_candidates E m op ctx data a base (row # rows) reasons stop found none =
     (case co_guard row of
        None \<Rightarrow> found row
      | Some guard \<Rightarrow>
          (let change = candidate_change a row in
           invoke E op change PhaseGuard (guard ctx change data) (\<lambda>out.
             case cb_err out of
               None \<Rightarrow> found row
             | Some e \<Rightarrow>
                 if \<not> cb_completed out
                 then latchResult E m base op change PhaseGuard e False stop
                 else try_candidates E m op ctx data a base rows (reasons @ [e]) stop found none)))"

text \<open>After the selection: the row's checks, then a commit or the external Issue action.\<close>

definition issue_selected ::
    "('s, 'e, 'c, 'v) senv \<Rightarrow> ('s, 'e, 'c, 't, 'v) smachine \<Rightarrow> nat \<Rightarrow> 'c \<Rightarrow> 't \<Rightarrow>
      ('s, 'e) change \<Rightarrow> ('s, 'e, 'c, 't, 'v) compiled_row \<Rightarrow> ('s, 'e) sresult \<Rightarrow>
      (('s, 'e) sresult \<Rightarrow> ('s, 'e, 'c, 't, 'v) sprog) \<Rightarrow> ('s, 'e, 'c, 't, 'v) sprog" where
  "issue_selected E m op ctx data change row base k =
     runChecks E m op ctx base change PhasePrecondition (co_preconditions row) data False k
    (runChecks E m op ctx base change PhaseInvariant (sm_invariants m) data False k
       (case co_issue row of
          None \<Rightarrow>
            runChecks E m op ctx base change PhasePostcondition (sm_postconditions m) data False k
              (super_commit E m op base change False False k)
        | Some issue \<Rightarrow>
            prepareIssue E m op ctx change (\<lambda>failure.
              case failure of
                Some err \<Rightarrow> latchResult E m base op change PhaseIssue err False k
              | None \<Rightarrow>
                  invoke E op change PhaseIssue (issue ctx change data) (\<lambda>out.
                    case cb_err out of
                      Some err \<Rightarrow> latchResult E m base op change PhaseIssue err True k
                    | None \<Rightarrow>
                        (let base = base\<lparr>re_issued := True, re_phase := PhaseIssue\<rparr> in
                         if_ended op
                           (\<lambda>err. latchResult E m base op change PhaseIssue err True k)
                           (awaitVerification E op change row base (\<lambda>base fault.
                              case fault of
                                Some f \<Rightarrow> k (faultResult base (Some f))
                              | None \<Rightarrow> k base)))))))"

definition issue_run ::
    "('s, 'e, 'c, 'v) senv \<Rightarrow> ('s, 'e, 'c, 't, 'v) smachine \<Rightarrow> 'c \<Rightarrow> 't \<Rightarrow> nat \<Rightarrow>
      ('s, 'e) attempt \<Rightarrow> ('s, 'e) change \<Rightarrow> ('s, 'e) sresult \<Rightarrow>
      (('s, 'e) sresult \<Rightarrow> ('s, 'e, 'c, 't, 'v) sprog) \<Rightarrow> ('s, 'e, 'c, 't, 'v) sprog" where
  "issue_run E m ctx data op a change base k =
     invoke_each E op change PhasePrecondition
       (map (\<lambda>precondition. precondition ctx a data) (sm_preconditions m))
       (\<lambda>cause. latchResult E m base op change PhasePrecondition cause False k)
       (try_candidates E m op ctx data a base (slice (sm_rows m) (at_from a, at_event a)) [] k
          (\<lambda>row.
             let change = candidate_change a row in
             issue_selected E m op ctx data change row
               (base\<lparr>re_change := change, re_selected := True, re_transition := ch_transition change,
                     re_to := ch_to change\<rparr>) k)
          (\<lambda>reasons.
             if_ended op (\<lambda>err. latchResult E m base op change PhaseSelection err False k)
               (finishReady E op base (\<lambda>base fault.
                  case fault of
                    Some f \<Rightarrow> k (faultResult base (Some f))
                  | None \<Rightarrow>
                      k (base\<lparr>re_phase := PhaseSelection,
                              re_err := Some (SRefusal (at_from a) (at_event a)
                                               (SSentinel SErrNotPermitted # reasons))\<rparr>)))))"

definition issueDecision ::
    "'e keyops \<Rightarrow> ('s, 'e, 'c, 'v) senv \<Rightarrow> ('s, 'e, 'c, 't, 'v) smachine \<Rightarrow> 'c option \<Rightarrow> 'e \<Rightarrow> 't \<Rightarrow>
      (('s, 'e) sresult \<Rightarrow> ('s, 'e, 'c, 't, 'v) sprog) \<Rightarrow> ('s, 'e, 'c, 't, 'v) sprog" where
  "issueDecision L E m parent event data k =
     (case parent of
        None \<Rightarrow> locked (\<lambda>w. case statusResult E m PhaseNone (SSentinel ErrNilContext) w of
                              (w, result) \<Rightarrow> (w, k (result\<lparr>re_event := event\<rparr>)))
      | Some ctx \<Rightarrow>
          locked (\<lambda>w.
            let base = (baseResultLocked E m w)\<lparr>re_event := event\<rparr> in
            case su_mode w of
              ModeStopped \<Rightarrow> refused E base (SSentinel ErrNotStarted) k w
            | ModeExecuting \<Rightarrow> refused E base (SSentinel ErrBusy) k w
            | ModeAwaitingVerification \<Rightarrow> refused E base (SSentinel ErrAwaitingVerification) k w
            | ModeFaulted \<Rightarrow> refused_faulted E base k w
            | ModeReady \<Rightarrow>
                if admission_closed w then refused E base (SSentinel ErrBusy) k w
                else if \<not> key_ok L event
                then refused E (base\<lparr>re_phase := PhaseSelection\<rparr>) (SSentinel SErrInvalidKey) k w
                else if event \<notin> sm_eventSet m
                then refused E (base\<lparr>re_phase := PhaseSelection\<rparr>) (SSentinel ErrUnknownEvent) k w
                else if su_attempt w = - 1 \<or> countersExhaustedLocked w then
                  (let change = (currentChangeLocked E m w)\<lparr>at_event := event\<rparr> in
                   case beginOperationLocked E ctx change PhaseSelection w of (w, op) \<Rightarrow>
                     (w, latchResult E m
                           (base\<lparr>re_operation := op_id (su_ops w op), re_owner := Some op\<rparr>) op change
                           PhaseSelection (SSentinel ErrCounterExhausted) False k))
                else
                  (let w = w\<lparr>su_attempt := su_attempt w + 1\<rparr>;
                       a = \<lparr>at_definition = sm_id m, at_execution = su_execution w,
                            at_incarnation = su_incarnation w, at_id = su_attempt w,
                            at_revision = su_revision w, at_started = now E w,
                            at_from = su_state w, at_event = event\<rparr>;
                       change = attempt.extend a (change.fields [] (su_state w));
                       base = base\<lparr>re_change := change, re_attempt := at_id a,
                                   re_attemptKey := Identifier a\<rparr> in
                   case beginOperationLocked E ctx change PhasePrecondition w of (w, op) \<Rightarrow>
                     (w, issue_run E m ctx data op a change
                           (base\<lparr>re_startedAt := op_startedAt (su_ops w op),
                                 re_operation := op_id (su_ops w op), re_owner := Some op\<rparr>) k))))"

section \<open>Verify\<close>

text \<open>A row without a Verify action cannot be pending; calling its nil function panics.\<close>

definition verify_callback ::
    "('s, 'e, 'c, 't, 'v) compiled_row \<Rightarrow> 'c \<Rightarrow> ('s, 'e) change \<Rightarrow> 't \<Rightarrow> ('s, 'e, 'v) callback" where
  "verify_callback row ctx change data =
     (case co_verify row of
        None \<Rightarrow> (\<lambda>v. (v, Panic (PVal 0)))
      | Some verify \<Rightarrow> verify ctx change data)"

definition verify_run ::
    "('s, 'e, 'c, 'v) senv \<Rightarrow> ('s, 'e, 'c, 't, 'v) smachine \<Rightarrow> 'c \<Rightarrow> 't \<Rightarrow> nat \<Rightarrow>
      ('s, 'e, 'c, 't, 'v) compiled_row \<Rightarrow> ('s, 'e) change \<Rightarrow> ('s, 'e) sresult \<Rightarrow>
      (('s, 'e) sresult \<Rightarrow> ('s, 'e, 'c, 't, 'v) sprog) \<Rightarrow> ('s, 'e, 'c, 't, 'v) sprog" where
  "verify_run E m ctx data op row change base k =
     invoke_each E op change PhaseVerify [verify_callback row ctx change data]
       (\<lambda>cause. latchResult E m base op change PhaseVerify cause True k)
       (let base = base\<lparr>re_verified := True\<rparr> in
        runChecks E m op ctx base change PhaseInvariant (sm_invariants m) data True k
          (runChecks E m op ctx base change PhasePostcondition (sm_postconditions m) data True k
             (super_commit E m op base change True True k)))"

definition verifyDecision ::
    "('s, 'e, 'c, 'v) senv \<Rightarrow> ('s, 'e, 'c, 't, 'v) smachine \<Rightarrow> 'c option \<Rightarrow> attempt_id \<Rightarrow> 't \<Rightarrow>
      (('s, 'e) sresult \<Rightarrow> ('s, 'e, 'c, 't, 'v) sprog) \<Rightarrow> ('s, 'e, 'c, 't, 'v) sprog" where
  "verifyDecision E m parent key data k =
     (case parent of
        None \<Rightarrow> locked (\<lambda>w. case statusResult E m PhaseVerify (SSentinel ErrNilContext) w of
                              (w, result) \<Rightarrow> (w, k result))
      | Some ctx \<Rightarrow>
          locked (\<lambda>w.
            let base = baseResultLocked E m w in
            case su_mode w of
              ModeStopped \<Rightarrow> refused E base (SSentinel ErrNotStarted) k w
            | ModeReady \<Rightarrow> refused E base (SSentinel ErrNoPending) k w
            | ModeExecuting \<Rightarrow> refused E base (SSentinel ErrBusy) k w
            | ModeFaulted \<Rightarrow> refused_faulted E base k w
            | ModeAwaitingVerification \<Rightarrow>
                if admission_closed w then refused E base (SSentinel ErrBusy) k w
                else case su_pending w of
                  None \<Rightarrow> refused E base (SSentinel ErrNoPending) k w
                | Some p \<Rightarrow>
                    if Identifier (pe_change p) \<noteq> key then
                      refused E (base\<lparr>re_attempt := ai_sequence key, re_attemptKey := key\<rparr>)
                        (SSentinel ErrStaleAttempt) k w
                    else if \<not> now E w < pe_deadline p then
                      (case expireVerificationLocked E m p w of
                         (w, result, cancel) \<Rightarrow> (w, cancelling cancel (k result)))
                    else if countersExhaustedLocked w then
                      (let change = pe_change p in
                       case beginOperationLocked E ctx change PhaseVerify w of (w, op) \<Rightarrow>
                         (w, latchResult E m
                               (base\<lparr>re_operation := op_id (su_ops w op), re_owner := Some op\<rparr>) op
                               change PhaseVerify (SSentinel ErrCounterExhausted) True k))
                    else
                      (let change = pe_change p;
                           base = (resultFromChange E change)
                             \<lparr>re_stamp := re_stamp base, re_revision := su_revision w,
                               re_issued := True\<rparr> in
                       case beginOperationLocked E ctx change PhaseVerify (w\<lparr>su_timer := None\<rparr>) of
                         (w, op) \<Rightarrow>
                           (w, verify_run E m ctx data op (pe_transition p) change
                                 (base\<lparr>re_startedAt := op_startedAt (su_ops w op),
                                       re_operation := op_id (su_ops w op),
                                       re_owner := Some op\<rparr>) k))))"

section \<open>Trip and expiry\<close>

definition trip_target ::
    "('s, 'e, 'c, 'v) senv \<Rightarrow> ('s, 'e, 'c, 't, 'v) smachine \<Rightarrow> ('s, 'e, 'c, 't, 'v) sup \<Rightarrow>
      (('s, 'e) change \<times> sphase) option" where
  "trip_target E m w =
     (if su_mode w = ModeExecuting then
        (case su_operation w of
           None \<Rightarrow> None
         | Some o' \<Rightarrow> Some (op_change (su_ops w o'), op_phase (su_ops w o')))
      else
        (case su_pending w of
           Some p \<Rightarrow> if su_mode w = ModeAwaitingVerification then Some (pe_change p, PhaseVerify)
                     else Some (currentChangeLocked E m w, PhaseTrip)
         | None \<Rightarrow> Some (currentChangeLocked E m w, PhaseTrip)))"

definition super_Trip ::
    "('s, 'e, 'c, 'v) senv \<Rightarrow> ('s, 'e, 'c, 't, 'v) smachine \<Rightarrow> ('s, 'e) serr option \<Rightarrow>
      ('s, 'e, 'c, 't, 'v) sprog" where
  "super_Trip E m given =
     (let reason = (case given of None \<Rightarrow> SSentinel ErrTripped | Some e \<Rightarrow> e) in
      locked (\<lambda>w.
        case trip_target E m w of
          None \<Rightarrow> (w, Return NilDereference)
        | Some (change, phase) \<Rightarrow>
            (case latchLocked E m None change phase reason True w of
               (w, None, cancel, fresh) \<Rightarrow> (w, Return NilDereference)
             | (w, Some fault, cancel, fresh) \<Rightarrow>
                 (case stampLocked E w of (w, stamp) \<Rightarrow>
                    let result = (resultFromChange E change)
                          \<lparr>re_operation := (case su_operation w of
                                              Some o' \<Rightarrow> op_id (su_ops w o') | None \<Rightarrow> 0),
                           re_phase := f_phase fault, re_faulted := True,
                           re_uncertain := f_uncertain fault, re_err := Some reason,
                           re_stamp := stamp\<lparr>rs_durable := fresh\<rparr>, re_owner := su_operation w\<rparr> in
                    (w\<lparr>su_reporting := su_reporting w + 1\<rparr>,
                     cancelling cancel
                       (completeResult E result (\<lambda>result.
                          closeJournalAfter E m result
                            (recordResult E RecordTrip result
                              (locked (\<lambda>w. (reportingReturned w, Return (FaultOf fault))))))))))))"

definition verificationExpired ::
    "('s, 'e, 'c, 'v) senv \<Rightarrow> ('s, 'e, 'c, 't, 'v) smachine \<Rightarrow> u64 \<Rightarrow> u64 \<Rightarrow>
      ('s, 'e, 'c, 't, 'v) sprog" where
  "verificationExpired E m attempt version =
     locked (\<lambda>w.
       case su_pending w of
         None \<Rightarrow> (w, Return Ended)
       | Some p \<Rightarrow>
           if su_mode w \<noteq> ModeAwaitingVerification \<or> at_id (pe_change p) \<noteq> attempt \<or>
              pe_version p \<noteq> version then (w, Return Ended)
           else if now E w < pe_deadline p then
             (w\<lparr>su_timer := Some (attempt, version)\<rparr>, Return Ended)
           else
             (case expireVerificationLocked E m p w of
                (w, result, cancel) \<Rightarrow>
                  (w, cancelling cancel (super_finalize E m RecordVerificationExpired result))))"

section \<open>Recover and Adjudicate\<close>

definition restoreFault ::
    "('s, 'e, 'c, 'v) senv \<Rightarrow> nat \<Rightarrow> ('s, 'e) sfault \<Rightarrow> sphase \<Rightarrow> ('s, 'e) serr \<Rightarrow>
      ('s, 'e) sresult \<Rightarrow> (('s, 'e) sresult \<Rightarrow> ('s, 'e, 'c, 't, 'v) sprog) \<Rightarrow>
      ('s, 'e, 'c, 't, 'v) sprog" where
  "restoreFault E op original phase cause base k =
     locked (\<lambda>w. case restoreFault_region E op original base w of
       (w, base, cancel) \<Rightarrow>
         (w, cancelling cancel
               (k (base\<lparr>re_phase := phase, re_faulted := True, re_uncertain := f_uncertain original,
                        re_err := Some (SJoined [SFault original, cause])\<rparr>))))"

definition adjudicate_run ::
    "('s, 'e, 'c, 'v) senv \<Rightarrow> ('s, 'e, 'c, 't, 'v) smachine \<Rightarrow> 'c \<Rightarrow> 't \<Rightarrow> nat \<Rightarrow>
      ('s, 'e) sfault \<Rightarrow> adjudication \<Rightarrow> 's \<Rightarrow> sphase \<Rightarrow> ('s, 'e) change \<Rightarrow> ('s, 'e) ssnapshot \<Rightarrow>
      ('s, 'e) sresult \<Rightarrow> (('s, 'e) sresult \<Rightarrow> ('s, 'e, 'c, 't, 'v) sprog) \<Rightarrow>
      ('s, 'e, 'c, 't, 'v) sprog" where
  "adjudicate_run E m ctx data op original outcome target phase change proposed base k =
     invoke_each E op change phase
       (map (\<lambda>reconcile. reconcile ctx proposed data) (sm_reconcile m))
       (\<lambda>cause. restoreFault E op original phase cause base k)
       (if_ended op (\<lambda>err. restoreFault E op original phase err base k)
          (locked (\<lambda>w. case adjudicate_region E op original outcome target base w of
             (w, base, lost, cancel) \<Rightarrow>
               (w, case lost of
                     Some fault \<Rightarrow> k (faultResult base fault)
                   | None \<Rightarrow> cancelling cancel (k (base\<lparr>re_phase := phase\<rparr>))))))"

text \<open>The target of a Decision, or why it is refused.\<close>

definition decision_target ::
    "'s keyops \<Rightarrow> ('s, 'e, 'c, 't, 'v) smachine \<Rightarrow> ('s, 'e) sfault \<Rightarrow> 's decision \<Rightarrow> 's \<Rightarrow>
      ('s, 'e) serr + 's" where
  "decision_target K m original decision current =
     (case de_outcome decision of
        AdjudicateRetain \<Rightarrow> Inr current
      | AdjudicateAdopt \<Rightarrow>
          if f_transition original = [] \<or> f_issuedAt original = 0
          then Inl (SWrapf (SSentinel ErrInvalidDecision)) else Inr (f_to original)
      | AdjudicateOverride \<Rightarrow>
          if \<not> key_ok K (de_state decision) then Inl (SSentinel SErrInvalidKey)
          else if sm_stateIndex m (de_state decision) = None
          then Inl (SWrapf (SSentinel ErrInvalidDecision)) else Inr (de_state decision)
      | OtherAdjudication n \<Rightarrow> Inl (SWrapf (SSentinel ErrInvalidDecision)))"

definition adjudicateDecision ::
    "'s keyops \<Rightarrow> ('s, 'e, 'c, 'v) senv \<Rightarrow> ('s, 'e, 'c, 't, 'v) smachine \<Rightarrow> 'c option \<Rightarrow>
      's decision \<Rightarrow> 't \<Rightarrow> sphase \<Rightarrow>
      (('s, 'e) sresult \<Rightarrow> ('s, 'e, 'c, 't, 'v) sprog) \<Rightarrow> ('s, 'e, 'c, 't, 'v) sprog" where
  "adjudicateDecision K E m parent decision data phase k =
     (case parent of
        None \<Rightarrow> locked (\<lambda>w. case statusResult E m phase (SSentinel ErrNilContext) w of
                              (w, result) \<Rightarrow> (w, k result))
      | Some ctx \<Rightarrow>
          locked (\<lambda>w.
            let base = (baseResultLocked E m w)\<lparr>re_evidence := de_evidence decision,
                         re_adjudication := de_outcome decision\<rparr> in
            if su_mode w \<noteq> ModeFaulted then refused E base (SSentinel ErrNotFaulted) k w
            else case su_fault w of
              None \<Rightarrow> (w, Return NilDereference)
            | Some original \<Rightarrow>
                let faulted = (\<lambda>base. base\<lparr>re_faulted := True, re_uncertain := f_uncertain original\<rparr>) in
                if admission_closed w
                then refused E (faulted base) (SSentinel ErrCallbackRunning) k w
                else
                  (let adopt = (de_outcome decision = AdjudicateAdopt) in
                   case decision_target K m original decision (su_state w) of
                     Inl err \<Rightarrow> refused E (faulted base) err k w
                   | Inr target \<Rightarrow>
                       (let base = (if adopt then base\<lparr>re_event := f_event original,
                                                       re_transition := f_transition original\<rparr>
                                    else base) in
                        if countersExhaustedLocked w
                        then refused E (faulted base) (SSentinel ErrCounterExhausted) k w
                        else
                          (let base = base\<lparr>re_to := target\<rparr>;
                               change = (if adopt then f_change original
                                         else (currentChangeLocked E m w)\<lparr>ch_to := target\<rparr>);
                               base = (if adopt then base\<lparr>re_attempt := at_id change,
                                                          re_attemptKey := Identifier change\<rparr>
                                       else base);
                               base = base\<lparr>re_change := change\<rparr> in
                           case beginOperationLocked E ctx change phase w of (w, op) \<Rightarrow>
                             (w, adjudicate_run E m ctx data op original (de_outcome decision)
                                   target phase change
                                   ((snapshotLocked E m w)\<lparr>sn_state := target\<rparr>)
                                   (base\<lparr>re_startedAt := op_startedAt (su_ops w op),
                                         re_operation := op_id (su_ops w op),
                                         re_owner := Some op\<rparr>) k))))))"

section \<open>Public calls\<close>

definition super_Start ::
    "('s, 'e, 'c, 'v) senv \<Rightarrow> ('s, 'e, 'c, 't, 'v) smachine \<Rightarrow> 'c option \<Rightarrow> 't \<Rightarrow>
      ('s, 'e, 'c, 't, 'v) sprog" where
  "super_Start E m ctx data = startDecision E m ctx data (super_finalize E m RecordStart)"

definition super_Issue ::
    "'e keyops \<Rightarrow> ('s, 'e, 'c, 'v) senv \<Rightarrow> ('s, 'e, 'c, 't, 'v) smachine \<Rightarrow> 'c option \<Rightarrow> 'e \<Rightarrow> 't \<Rightarrow>
      ('s, 'e, 'c, 't, 'v) sprog" where
  "super_Issue L E m ctx event data = issueDecision L E m ctx event data (super_finalize E m RecordIssue)"

definition super_Verify ::
    "('s, 'e, 'c, 'v) senv \<Rightarrow> ('s, 'e, 'c, 't, 'v) smachine \<Rightarrow> 'c option \<Rightarrow> attempt_id \<Rightarrow> 't \<Rightarrow>
      ('s, 'e, 'c, 't, 'v) sprog" where
  "super_Verify E m ctx key data = verifyDecision E m ctx key data (super_finalize E m RecordVerify)"

definition super_Recover ::
    "'s keyops \<Rightarrow> ('s, 'e, 'c, 'v) senv \<Rightarrow> ('s, 'e, 'c, 't, 'v) smachine \<Rightarrow> 'c option \<Rightarrow> 't \<Rightarrow>
      ('s, 'e, 'c, 't, 'v) sprog" where
  "super_Recover K E m ctx data =
     adjudicateDecision K E m ctx
       \<lparr>de_outcome = AdjudicateRetain, de_state = se_zeroS E, de_evidence = []\<rparr> data PhaseRecover
       (super_finalize E m RecordRecover)"

definition super_Adjudicate ::
    "'s keyops \<Rightarrow> ('s, 'e, 'c, 'v) senv \<Rightarrow> ('s, 'e, 'c, 't, 'v) smachine \<Rightarrow> 'c option \<Rightarrow>
      's decision \<Rightarrow> 't \<Rightarrow> ('s, 'e, 'c, 't, 'v) sprog" where
  "super_Adjudicate K E m ctx decision data =
     adjudicateDecision K E m ctx decision data PhaseAdjudicate (super_finalize E m RecordAdjudicate)"

section \<open>Queries\<close>

record ('s, 'e) sup_status =
  st_mode :: mode
  st_snapshot :: "('s, 'e) ssnapshot"
  st_attempt :: u64
  st_restarts :: u64
  st_pending :: "('s, 'e) change option"
  st_fault :: "('s, 'e) sfault option"
  st_callbackRunning :: bool
  st_operationRunning :: bool
  st_recorderRunning :: bool
  st_journalRunning :: bool
  st_reportingRunning :: bool
  st_recordsExhausted :: bool
  st_operation :: u64
  st_active :: "('s, 'e) change"
  st_phase :: sphase
  st_startedAt :: time
  st_deadline :: time
  st_verificationDeadline :: time
  st_recordsDropped :: u64
  st_recorderFailures :: u64
  st_recorderError :: ident
  st_journalError :: ident

definition super_Snapshot ::
    "('s, 'e, 'c, 'v) senv \<Rightarrow> ('s, 'e, 'c, 't, 'v) smachine \<Rightarrow> ('s, 'e, 'c, 't, 'v) sup \<Rightarrow>
      ('s, 'e) ssnapshot" where
  "super_Snapshot E m w = snapshotLocked E m w"

definition super_Status ::
    "('s, 'e, 'c, 'v) senv \<Rightarrow> ('s, 'e, 'c, 't, 'v) smachine \<Rightarrow> ('s, 'e, 'c, 't, 'v) sup \<Rightarrow>
      ('s, 'e) sup_status" where
  "super_Status E m w =
     (let op = (case su_operation w of None \<Rightarrow> zero_operation E | Some o' \<Rightarrow> su_ops w o') in
      \<lparr>st_mode = su_mode w, st_snapshot = snapshotLocked E m w, st_attempt = su_attempt w,
       st_restarts = su_restarts w, st_pending = map_option pe_change (su_pending w),
       st_fault = su_fault w,
       st_callbackRunning =
         (su_operation w \<noteq> None \<and> op_callbacks op \<noteq> 0 \<or> su_recorderRunning w \<or> su_journalRunning w),
       st_operationRunning = (su_operation w \<noteq> None),
       st_recorderRunning = su_recorderRunning w, st_journalRunning = su_journalRunning w,
       st_reportingRunning = (su_reporting w \<noteq> 0),
       st_recordsExhausted = (su_nextRecord w = - 1), st_operation = op_id op,
       st_active = op_change op, st_phase = op_phase op, st_startedAt = op_startedAt op,
       st_deadline = op_deadline op,
       st_verificationDeadline = (case su_pending w of None \<Rightarrow> 0 | Some p \<Rightarrow> pe_deadline p),
       st_recordsDropped = su_droppedRecords w, st_recorderFailures = su_recorderFailures w,
       st_recorderError = su_recorderError w, st_journalError = su_journalError w\<rparr>)"

definition super_Records :: "('s, 'e, 'c, 't, 'v) sup \<Rightarrow> ('s, 'e) srecord list" where
  "super_Records w = su_records w"

section \<open>Executions\<close>

text \<open>What may be started at any time: a public call, and the callback of the armed timer.\<close>

inductive sup_call ::
    "'s keyops \<Rightarrow> 'e keyops \<Rightarrow> ('s, 'e, 'c, 'v) senv \<Rightarrow> ('s, 'e, 'c, 't, 'v) smachine \<Rightarrow>
      ('s, 'e, 'c, 't, 'v) sprog \<Rightarrow> ('s, 'e, 'c, 't, 'v) sup \<Rightarrow> bool" for K L E m where
  CallStart: "sup_call K L E m (super_Start E m ctx data) w"
| CallIssue: "sup_call K L E m (super_Issue L E m ctx event data) w"
| CallVerify: "sup_call K L E m (super_Verify E m ctx key data) w"
| CallTrip: "sup_call K L E m (super_Trip E m reason) w"
| CallRecover: "sup_call K L E m (super_Recover K E m ctx data) w"
| CallAdjudicate: "sup_call K L E m (super_Adjudicate K E m ctx decision data) w"
| TimerFires: "su_timer w = Some (a, v) \<Longrightarrow> sup_call K L E m (verificationExpired E m a v) w"

inductive sup_env :: "('s, 'e, 'c, 't, 'v) sup \<Rightarrow> ('s, 'e, 'c, 't, 'v) sup \<Rightarrow> bool" where
  AppMoves: "sup_env w (w\<lparr>su_app := v\<rparr>)"
| CtxEnds: "c < su_nextCtx w \<Longrightarrow> sup_env w (end_ctx c x w)"

abbreviation sup_step where
  "sup_step K L E m \<equiv> pool_step (sup_call K L E m) sup_env"

abbreviation sup_runs where
  "sup_runs K L E m \<equiv> pool_runs (sup_call K L E m) sup_env"

end
