(* ===== verification/Super_Record.thy ===== *)
theory Super_Record
  imports Super_State
begin

text \<open>
  \<^verbatim>\<open>supervised/record.go\<close>: what the bounded record history holds.

  Decisions are numbered under the lock, but their records reach the ring later and possibly out
  of order. \<open>newest\<close> is the specification: of all records published so far, in order of their
  numbers, the last \<open>cap\<close>. The lemmas show that one insertion of the code keeps the ring equal to
  it, so that the ring never depends on the order of publication.
\<close>

definition by_seq :: "('s, 'e) srecord list \<Rightarrow> bool" where
  "by_seq rs \<longleftrightarrow> sorted (map rc_seq rs) \<and> distinct (map rc_seq rs)"

definition put_record :: "('s, 'e) srecord \<Rightarrow> ('s, 'e) srecord list \<Rightarrow> ('s, 'e) srecord list" where
  "put_record r rs = takeWhile (\<lambda>x. rc_seq x < rc_seq r) rs @ r # dropWhile (\<lambda>x. rc_seq x < rc_seq r) rs"

definition newest :: "nat \<Rightarrow> ('s, 'e) srecord list \<Rightarrow> ('s, 'e) srecord list" where
  "newest cap rs = drop (length rs - cap) rs"

lemma search_seq_index: "fst (search_seq q rs) = length (takeWhile (\<lambda>x. rc_seq x < q) rs)"
  by (induction q rs rule: search_seq.induct) (auto split: prod.splits)

lemma search_seq_found: "snd (search_seq q rs) \<Longrightarrow> q \<in> rc_seq ` set rs"
  by (induction q rs rule: search_seq.induct) (auto split: prod.splits if_splits)

lemma set_put_record [simp]: "set (put_record r rs) = insert r (set rs)"
proof -
  let ?P = "\<lambda>x. rc_seq x < rc_seq r"
  have "set (takeWhile ?P rs) \<union> set (dropWhile ?P rs) = set (takeWhile ?P rs @ dropWhile ?P rs)"
    by (rule set_append [symmetric])
  also have "\<dots> = set rs" by (simp only: takeWhile_dropWhile_id)
  finally show ?thesis by (auto simp only: put_record_def set_append list.set)
qed

lemma length_put_record [simp]: "length (put_record r rs) = Suc (length rs)"
  by (simp add: put_record_def) (metis length_append takeWhile_dropWhile_id)

lemma by_seq_put_record:
  assumes "by_seq rs" "rc_seq r \<notin> rc_seq ` set rs"
  shows "by_seq (put_record r rs)"
  using assms
proof (induction rs)
  case (Cons x rs)
  then have IH: "by_seq (put_record r rs)" by (auto simp: by_seq_def)
  show ?case
  proof (cases "rc_seq x < rc_seq r")
    case True
    then have "put_record r (x # rs) = x # put_record r rs" by (simp add: put_record_def)
    with IH Cons.prems True show ?thesis by (auto simp: by_seq_def)
  next
    case False
    then have "put_record r (x # rs) = r # x # rs" by (simp add: put_record_def)
    with Cons.prems False show ?thesis by (auto simp: by_seq_def)
  qed
qed (simp add: by_seq_def put_record_def)

lemma put_record_take:
  "put_record r rs = take n rs @ r # drop n rs" if "n = length (takeWhile (\<lambda>x. rc_seq x < rc_seq r) rs)"
  unfolding that put_record_def dropWhile_eq_drop
  by (simp only: takeWhile_eq_take [symmetric])

text \<open>Where a record falls in the suffix of a sorted list, against where it falls in the list.\<close>

lemma takeWhile_suffix:
  assumes "sorted (map f rs)" "takeWhile (\<lambda>x. f x < (q :: u64)) (drop k rs) \<noteq> []"
  shows "length (takeWhile (\<lambda>x. f x < q) rs) = k + length (takeWhile (\<lambda>x. f x < q) (drop k rs))"
proof -
  have "f (hd (drop k rs)) < q" "drop k rs \<noteq> []"
    using assms(2) by (cases "drop k rs"; auto split: if_splits)+
  then have k: "k < length rs" "f (rs ! k) < q" by (simp_all add: hd_drop_conv_nth)
  have "\<forall>x \<in> set (take k rs). f x < q"
  proof
    fix x assume "x \<in> set (take k rs)"
    then obtain i where i: "i < k" "x = rs ! i"
      using k(1) by (auto simp: in_set_conv_nth)
    then have "f x \<le> f (rs ! k)"
      using assms(1) k(1) by (simp add: sorted_iff_nth_mono)
    with k(2) show "f x < q" by simp
  qed
  then have "takeWhile (\<lambda>x. f x < q) (take k rs @ drop k rs) =
      take k rs @ takeWhile (\<lambda>x. f x < q) (drop k rs)"
    by (intro takeWhile_append2) (rule bspec)
  then show ?thesis using k(1) by simp
qed

lemma takeWhile_before:
  assumes "takeWhile P (drop k rs) = []" "k < length rs"
  shows "length (takeWhile P rs) \<le> k"
proof -
  have nP: "\<not> P (rs ! k)"
    using assms by (simp add: takeWhile_eq_Nil_iff hd_drop_conv_nth)
  show ?thesis
  proof (rule ccontr)
    assume "\<not> length (takeWhile P rs) \<le> k"
    then have "k < length (takeWhile P rs)" by simp
    then have "takeWhile P rs ! k \<in> set (takeWhile P rs)" "takeWhile P rs ! k = rs ! k"
      by (rule nth_mem, rule takeWhile_nth)
    with nP show False by (auto dest: set_takeWhileD)
  qed
qed

text \<open>An insertion before the suffix, or inside it, as the suffix sees it.\<close>

lemma drop_inserted_before:
  assumes "p \<le> k" "p \<le> length rs"
  shows "drop (Suc k) (take p rs @ r # drop p rs) = drop k rs"
proof -
  obtain d where k: "k = d + p" using assms(1) by (metis add.commute le_Suc_ex)
  show ?thesis using assms(2) by (simp add: k)
qed

lemma drop_inserted_after:
  assumes "i \<noteq> 0" "k + i \<le> length rs"
  shows "drop (Suc k) (take (k + i) rs @ r # drop (k + i) rs) =
    take (i - 1) (tl (drop k rs)) @ [r] @ drop (i - 1) (tl (drop k rs))"
proof -
  obtain j where i: "i = Suc j" using assms(1) by (cases i) auto
  have "tl (drop k rs) = drop (Suc k) rs" by (simp add: drop_Suc tl_drop)
  then show ?thesis using assms(2) by (simp add: i add.commute drop_take)
qed

lemma append_record_newest:
  assumes "by_seq rs" "rc_seq r \<notin> rc_seq ` set rs" "0 < cap"
  shows "append_record cap r (newest cap rs, dropped) =
     (newest cap (put_record r rs),
      if length rs < cap then dropped else if dropped < - 1 then dropped + 1 else dropped)"
proof -
  let ?k = "length rs - cap" and ?P = "\<lambda>x. rc_seq x < rc_seq r"
  let ?ring = "drop ?k rs" and ?p = "length (takeWhile ?P rs)"
  let ?i = "length (takeWhile ?P ?ring)"
  have "rc_seq r \<notin> rc_seq ` set ?ring" using assms(2) by (auto dest: in_set_dropD)
  then have s: "search_seq (rc_seq r) ?ring = (?i, False)"
    using search_seq_found [of "rc_seq r" ?ring] search_seq_index [of "rc_seq r" ?ring]
    by (metis prod.collapse)
  have put: "put_record r rs = take ?p rs @ r # drop ?p rs" by (rule put_record_take) simp
  have plen: "?p \<le> length rs" by (rule length_takeWhile_le)
  show ?thesis
  proof (cases "length rs < cap")
    case True
    then show ?thesis using s put by (simp add: append_record_def newest_def)
  next
    case False
    then have full: "length ?ring = cap" and k: "?k < length rs" using assms(3) by auto
    have ring': "newest cap (put_record r rs) = drop (Suc ?k) (take ?p rs @ r # drop ?p rs)"
    proof -
      have "length (put_record r rs) - cap = Suc ?k" using False by (simp add: Suc_diff_le)
      then show ?thesis by (simp only: newest_def put)
    qed
    show ?thesis
    proof (cases "?i = 0")
      case True
      then have "?p \<le> ?k" using takeWhile_before [OF _ k] by simp
      then have "newest cap (put_record r rs) = ?ring"
        unfolding ring' using plen by (rule drop_inserted_before)
      with True False full s show ?thesis by (simp add: append_record_def newest_def)
    next
      case False': False
      then have p: "?p = ?k + ?i"
        using takeWhile_suffix [of rc_seq rs "rc_seq r" ?k] assms(1) by (simp add: by_seq_def)
      have "newest cap (put_record r rs) =
          take (?i - 1) (tl ?ring) @ [r] @ drop (?i - 1) (tl ?ring)"
        unfolding ring' p using False' plen p by (intro drop_inserted_after) simp_all
      with False' False full s show ?thesis by (simp add: append_record_def newest_def Let_def)
    qed
  qed
qed

text \<open>Publication of a list of records, in the order they arrive.\<close>

definition published :: "nat \<Rightarrow> ('s, 'e) srecord list \<Rightarrow> ('s, 'e) srecord list \<times> u64" where
  "published cap rs = fold (append_record cap) rs ([], 0)"

lemma by_seq_sort_key: "distinct (map rc_seq rs) \<Longrightarrow> by_seq (sort_key rc_seq rs)"
  by (simp add: by_seq_def distinct_map)

lemma by_seq_unique: "by_seq xs \<Longrightarrow> by_seq ys \<Longrightarrow> set xs = set ys \<Longrightarrow> xs = ys"
  unfolding by_seq_def
  by (rule map_sorted_distinct_set_unique [of rc_seq]) (auto simp: distinct_map)

lemma sort_key_snoc:
  assumes "distinct (map rc_seq (rs @ [r]))"
  shows "sort_key rc_seq (rs @ [r]) = put_record r (sort_key rc_seq rs)"
proof (rule by_seq_unique)
  show "by_seq (sort_key rc_seq (rs @ [r]))" using assms by (rule by_seq_sort_key)
  show "by_seq (put_record r (sort_key rc_seq rs))"
    using assms by (intro by_seq_put_record by_seq_sort_key) auto
qed simp

lemma published_snoc:
  assumes "distinct (map rc_seq (rs @ [r]))" "0 < cap"
    and "published cap rs = (newest cap (sort_key rc_seq rs), of_nat (length rs - cap))"
    and "Suc (length rs) < 2 ^ 64"
  shows "published cap (rs @ [r]) =
     (newest cap (sort_key rc_seq (rs @ [r])), of_nat (Suc (length rs) - cap))"
proof -
  have "unat (of_nat (length rs - cap) :: u64) = length rs - cap"
    using assms(4) by (simp add: unat_of_nat)
  moreover have "unat (- 1 :: u64) = 2 ^ 64 - 1"
    by (simp add: unsigned_minus_1_eq_mask mask_eq_exp_minus_1)
  ultimately have lt: "(of_nat (length rs - cap) :: u64) < - 1"
    using assms(4) by (simp only: word_less_nat_alt)
  have "published cap (rs @ [r]) = append_record cap r (published cap rs)"
    by (simp add: published_def)
  also have "\<dots> = (newest cap (put_record r (sort_key rc_seq rs)),
      if length rs < cap then of_nat (length rs - cap) else of_nat (length rs - cap) + 1)"
    using assms lt by (subst assms(3), subst append_record_newest) (auto intro: by_seq_sort_key)
  also have "put_record r (sort_key rc_seq rs) = sort_key rc_seq (rs @ [r])"
    using sort_key_snoc [OF assms(1)] by (rule sym)
  also have "(if length rs < cap then of_nat (length rs - cap) else of_nat (length rs - cap) + 1) =
      (of_nat (Suc (length rs) - cap) :: u64)"
    by (simp add: Suc_diff_le not_less)
  finally show ?thesis .
qed

text \<open>C9. In whatever order records with distinct numbers reach the ring of capacity \<open>cap\<close>, it
  holds the \<open>cap\<close> of them with the greatest numbers, in order, and every other one is counted as
  dropped.\<close>

theorem ring_holds_the_newest:
  assumes "distinct (map rc_seq rs)" "0 < cap" "length rs < 2 ^ 64"
  shows "fold (append_record cap) rs ([], 0) =
     (drop (length rs - cap) (sort_key rc_seq rs), of_nat (length rs - cap))"
proof -
  have "published cap rs = (newest cap (sort_key rc_seq rs), of_nat (length rs - cap))"
    using assms(1, 3)
  proof (induction rs rule: rev_induct)
    case Nil
    then show ?case by (simp add: published_def newest_def)
  next
    case (snoc r rs)
    then show ?case using published_snoc [of rs r cap] assms(2) by simp
  qed
  then show ?thesis by (simp add: published_def newest_def)
qed

definition sample_record :: "u64 \<Rightarrow> (nat, nat) srecord" where
  "sample_record q =
     \<lparr>rc_seq = q, rc_at = 0, rc_kind = RecordIssue, rc_execution = [], rc_incarnation = [],
      rc_restarts = 0, rc_operation = 0,
      rc_attempt = \<lparr>ai_execution = [], ai_incarnation = [], ai_sequence = 0\<rparr>, rc_revision = 0,
      rc_mode = ModeReady, rc_phase = PhaseNone,
      rc_change = \<lparr>at_definition = [], at_execution = [], at_incarnation = [], at_id = 0,
        at_revision = 0, at_started = 0, at_from = 0, at_event = 0, ch_transition = [], ch_to = 0\<rparr>,
      rc_selected = False, rc_issued = False, rc_verified = False, rc_committed = False,
      rc_faulted = False, rc_uncertain = False, rc_cause = [], rc_evidence = [],
      rc_adjudication = AdjudicateRetain, rc_startedAt = 0, rc_completedAt = 0\<rparr>"

lemma rc_seq_sample: "rc_seq (sample_record q) = q"
  by (simp add: sample_record_def)

lemma ring_holds_the_newest_witness:
  "fold (append_record 2) (map sample_record [3, 1, 2]) ([], 0) =
     (map sample_record [2, 3], 1)"
  using ring_holds_the_newest [of "map sample_record [3, 1, 2]" 2]
  by (simp add: rc_seq_sample word_le_nat_alt)

end
