(* ===== verification/Super_Tokens.thy ===== *)
theory Super_Tokens
  imports Super_Decisions Super_Record
begin

text \<open>
  The invariant of a Supervisor and its goroutines.

  A goroutine's tokens say what it is responsible for: \<open>Caller\<close> the public call that runs the
  operation, until its decision is made, with the fault it adjudicates and its stage;
  \<open>Settled\<close> the same call afterwards; \<open>Worker\<close> a goroutine that runs application code;
  \<open>Known\<close> and \<open>Stamped\<close> a pointer and a record number that have been given out. \<open>sup_inv\<close> relates
  the state to all tokens. \<open>sup_allowed\<close> is what any one piece may do to state, revision and fault.
\<close>

section \<open>Tokens\<close>

datatype work = CallbackOf nat | AdapterOf bool "nat option"

text \<open>How far a call has come: without an attempt, with one, with one whose external Issue is
  prepared, or with the pending change it verifies.\<close>

datatype ('s, 'e) stage =
    Plain
  | Attempting "('s, 'e) attempt"
  | Issuing "('s, 'e) attempt"
  | Verifying "('s, 'e) change"

datatype ('s, 'e) token =
    Caller nat "('s, 'e) sfault option" "('s, 'e) stage"
  | Settled nat
  | Worker nat work
  | Known nat
  | Stamped u64

fun is_caller :: "('s, 'e) token \<Rightarrow> bool" where
  "is_caller (Caller o' f s) = True"
| "is_caller (Settled o') = True"
| "is_caller t = False"

fun is_adapter :: "bool \<Rightarrow> ('s, 'e) token \<Rightarrow> bool" where
  "is_adapter j (Worker ch (AdapterOf j' own)) = (j' = j)"
| "is_adapter j t = False"

fun attached :: "nat \<Rightarrow> ('s, 'e) token \<Rightarrow> bool" where
  "attached o' (Worker ch (CallbackOf p)) = (p = o')"
| "attached o' (Worker ch (AdapterOf j own)) = (own = Some o')"
| "attached o' t = False"

fun works_at :: "nat \<Rightarrow> ('s, 'e) token \<Rightarrow> bool" where
  "works_at ch (Worker ch' k) = (ch' = ch)"
| "works_at ch t = False"

definition running :: "bool \<Rightarrow> ('s, 'e, 'c, 't, 'v) sup \<Rightarrow> bool" where
  "running j w = (if j then su_journalRunning w else su_recorderRunning w)"

text \<open>An attempt made in the committed state, by this execution.\<close>

definition current :: "('s, 'e, 'c, 't, 'v) sup \<Rightarrow> ('s, 'e, 'x) attempt_scheme \<Rightarrow> bool" where
  "current w a \<longleftrightarrow>
     at_execution a = su_execution w \<and> at_incarnation a \<noteq> [] \<and> at_id a \<noteq> 0 \<and>
     at_id a \<le> su_attempt w \<and> at_revision a = su_revision w \<and> at_from a = su_state w"

fun stage_ok :: "('s, 'e, 'c, 't, 'v) sup \<Rightarrow> nat \<Rightarrow> ('s, 'e) stage \<Rightarrow> bool" where
  "stage_ok w op Plain = (su_pending w = None \<and> op_issuedAt (su_ops w op) = 0)"
| "stage_ok w op (Attempting a) =
     (su_pending w = None \<and> op_issuedAt (su_ops w op) = 0 \<and> current w a)"
| "stage_ok w op (Issuing a) = (su_pending w = None \<and> current w a)"
| "stage_ok w op (Verifying c) =
     ((\<exists>p. su_pending w = Some p \<and> pe_change p = c) \<and> op_issuedAt (su_ops w op) = 0)"

fun token_ok :: "('s, 'e, 'c, 't, 'v) sup \<Rightarrow> ('s, 'e) token \<Rightarrow> bool" where
  "token_ok w (Caller o' f s) =
     (su_operation w = Some o' \<and> \<not> op_returned (su_ops w o') \<and>
      (op_revoked (su_ops w o') \<or>
       su_mode w = ModeExecuting \<and> su_fault w = f \<and> stage_ok w o' s \<and>
       (f \<noteq> None \<longrightarrow> su_revision w \<noteq> - 1)))"
| "token_ok w (Settled o') =
     (su_operation w = Some o' \<and> \<not> op_returned (su_ops w o') \<and> su_mode w \<noteq> ModeExecuting)"
| "token_ok w (Worker ch k) =
     (ch \<in> su_live w \<and>
      (case k of
         CallbackOf o' \<Rightarrow> su_operation w = Some o'
       | AdapterOf j own \<Rightarrow> running j w \<and> (\<forall>o'. own = Some o' \<longrightarrow> o' < su_nextOp w)))"
| "token_ok w (Known o') = (o' < su_nextOp w)"
| "token_ok w (Stamped q) = (q \<le> su_nextRecord w)"

section \<open>The invariant\<close>

text \<open>The pointers each mode reads are there.\<close>

definition mode_ok :: "('s, 'e, 'c, 't, 'v) sup \<Rightarrow> bool" where
  "mode_ok w =
     (case su_mode w of
        ModeStopped \<Rightarrow> su_fault w = None \<and> su_pending w = None
      | ModeReady \<Rightarrow> su_fault w = None \<and> su_pending w = None
      | ModeAwaitingVerification \<Rightarrow> su_fault w = None \<and> su_pending w \<noteq> None
      | ModeFaulted \<Rightarrow> su_fault w \<noteq> None \<and> su_pending w = None
      | ModeExecuting \<Rightarrow>
          (case su_operation w of
             None \<Rightarrow> False
           | Some o' \<Rightarrow> \<not> op_revoked (su_ops w o') \<and> \<not> op_returned (su_ops w o')))"

definition declared_ok :: "'s set \<Rightarrow> ('s, 'e, 'c, 't, 'v) sup \<Rightarrow> bool" where
  "declared_ok D w \<longleftrightarrow>
     su_state w \<in> D \<and>
     (\<forall>f. su_fault w = Some f \<and> f_transition f \<noteq> [] \<longrightarrow> ch_to (f_change f) \<in> D \<and> f_to f \<in> D) \<and>
     (\<forall>p. su_pending w = Some p \<longrightarrow> ch_to (pe_change p) \<in> D) \<and>
     (\<forall>o'. su_operation w = Some o' \<longrightarrow> ch_to (op_change (su_ops w o')) \<in> D)"

text \<open>What is in doubt is an external row of the committed state. \<open>R\<close> holds of the source, event,
  identifier and target of a row with an Issue action.\<close>

type_synonym ('s, 'e) routes = "'s \<Rightarrow> 'e \<Rightarrow> ident \<Rightarrow> 's \<Rightarrow> bool"

abbreviation routed :: "('s, 'e) routes \<Rightarrow> ('s, 'e) change \<Rightarrow> bool" where
  "routed R c \<equiv> R (at_from c) (at_event c) (ch_transition c) (ch_to c)"

definition fault_current ::
    "('s, 'e) routes \<Rightarrow> ('s, 'e, 'c, 't, 'v) sup \<Rightarrow> ('s, 'e) sfault \<Rightarrow> bool" where
  "fault_current R w f \<longleftrightarrow>
     f_execution f = su_execution w \<and> f_incarnation f \<noteq> [] \<and> f_attempt f \<noteq> 0 \<and>
     f_attempt f \<le> su_attempt w \<and> at_revision (f_change f) = su_revision w \<and>
     f_state f = su_state w \<and> R (f_state f) (f_event f) (f_transition f) (f_to f)"

definition doubt_ok :: "('s, 'e) routes \<Rightarrow> ('s, 'e, 'c, 't, 'v) sup \<Rightarrow> bool" where
  "doubt_ok R w \<longleftrightarrow>
     su_execution w \<noteq> [] \<and> su_incarnation w \<noteq> [] \<and>
     (\<forall>p. su_pending w = Some p \<longrightarrow> routed R (pe_change p) \<and> current w (pe_change p)) \<and>
     (\<forall>f. su_fault w = Some f \<and> f_issuedAt f \<noteq> 0 \<longrightarrow> fault_current R w f) \<and>
     (\<forall>o'. su_operation w = Some o' \<and> op_issuedAt (su_ops w o') \<noteq> 0 \<longrightarrow>
        su_mode w = ModeFaulted \<or>
        (su_mode w = ModeExecuting \<or> su_mode w = ModeAwaitingVerification) \<and> su_fault w = None \<and>
        routed R (op_change (su_ops w o')) \<and> current w (op_change (su_ops w o'))) \<and>
     (\<forall>p o'. su_pending w = Some p \<and> su_mode w = ModeExecuting \<and> su_operation w = Some o' \<longrightarrow>
        op_change (su_ops w o') = pe_change p)"

definition ring_ok :: "('s, 'e, 'c, 't, 'v) sup \<Rightarrow> bool" where
  "ring_ok w \<longleftrightarrow>
     by_seq (su_records w) \<and> length (su_records w) \<le> su_maxRecords w \<and>
     (\<forall>r \<in> set (su_records w). rc_seq r \<le> su_nextRecord w)"

definition heap_ok :: "('s, 'e, 'c, 't, 'v) sup \<Rightarrow> bool" where
  "heap_ok w \<longleftrightarrow>
     (\<forall>o'. su_operation w = Some o' \<longrightarrow> o' < su_nextOp w) \<and>
     (\<forall>ch \<in> su_live w. ch < su_nextChan w) \<and>
     su_journalBusy w = su_journalRunning w \<and> su_recorderBusy w = su_recorderRunning w"

definition counts_ok :: "('s, 'e, 'c, 't, 'v) sup \<Rightarrow> ('s, 'e) token multiset \<Rightarrow> bool" where
  "counts_ok w T \<longleftrightarrow>
     (\<forall>o'. op_callbacks (su_ops w o') = int (size (filter_mset (attached o') T))) \<and>
     size (filter_mset is_caller T) \<le> 1 \<and>
     (\<forall>j. size (filter_mset (is_adapter j) T) \<le> 1) \<and>
     (\<forall>ch. size (filter_mset (works_at ch) T) = (if ch \<in> su_live w then 1 else 0))"

definition sup_inv ::
    "'s set \<Rightarrow> ('s, 'e) routes \<Rightarrow> ('s, 'e, 'c, 't, 'v) sup \<Rightarrow> ('s, 'e) token multiset \<Rightarrow> bool" where
  "sup_inv D R w T \<longleftrightarrow>
     mode_ok w \<and> declared_ok D w \<and> doubt_ok R w \<and> ring_ok w \<and> heap_ok w \<and> counts_ok w T \<and>
     (\<forall>t \<in># T. token_ok w t)"

lemmas sup_inv_defs = sup_inv_def mode_ok_def declared_ok_def doubt_ok_def ring_ok_def heap_ok_def
  counts_ok_def

text \<open>An operation whose external Issue action may have run.\<close>

definition issuing :: "('s, 'e, 'c, 't, 'v) sup \<Rightarrow> bool" where
  "issuing w \<longleftrightarrow>
     su_mode w = ModeExecuting \<and>
     (\<exists>o'. su_operation w = Some o' \<and> op_issuedAt (su_ops w o') \<noteq> 0)"

definition sup_allowed :: "('s, 'e, 'c, 't, 'v) sup \<Rightarrow> ('s, 'e, 'c, 't, 'v) sup \<Rightarrow> bool" where
  "sup_allowed w w' \<longleftrightarrow>
     (su_state w' = su_state w \<and> su_revision w' = su_revision w \<or>
      su_mode w = ModeExecuting \<and> su_mode w' = ModeReady \<and> su_fault w' = None \<and>
      su_revision w' = su_revision w + 1 \<and> su_revision w \<noteq> - 1 \<and> su_pending w' = None \<and>
      \<not> issuing w \<and> (\<forall>p. su_pending w = Some p \<longrightarrow> su_state w' = ch_to (pe_change p))) \<and>
     (su_fault w' = su_fault w \<or> su_fault w = None \<and> su_mode w' = ModeFaulted \<or>
      su_mode w = ModeExecuting \<and> su_mode w' = ModeReady \<and> su_fault w' = None) \<and>
     (su_nextOp w' = su_nextOp w \<or>
      \<not> admission_closed w \<and> su_operation w' = Some (su_nextOp w)) \<and>
     su_nextRecord w \<le> su_nextRecord w' \<and>
     su_execution w' = su_execution w \<and> su_incarnation w' = su_incarnation w \<and>
     su_restarts w' = su_restarts w \<and> su_maxRecords w' = su_maxRecords w"

lemma sup_allowed_refl [simp]: "sup_allowed w w"
  by (simp add: sup_allowed_def)

interpretation sup: tokens "sup_inv D R" sup_allowed for D R .

section \<open>What the invariant does not see\<close>

definition same_view :: "('s, 'e, 'c, 't, 'v) sup \<Rightarrow> ('s, 'e, 'c, 't, 'v) sup \<Rightarrow> bool" where
  "same_view w w' \<longleftrightarrow>
     su_mode w' = su_mode w \<and> su_state w' = su_state w \<and> su_fault w' = su_fault w \<and>
     su_pending w' = su_pending w \<and> su_operation w' = su_operation w \<and>
     su_nextOp w' = su_nextOp w \<and> su_live w' = su_live w \<and> su_nextChan w' = su_nextChan w \<and>
     su_revision w' = su_revision w \<and> su_attempt w' = su_attempt w \<and>
     su_execution w' = su_execution w \<and> su_incarnation w' = su_incarnation w \<and>
     su_records w' = su_records w \<and> su_maxRecords w' = su_maxRecords w \<and>
     su_nextRecord w' = su_nextRecord w \<and>
     su_journalBusy w' = su_journalBusy w \<and> su_recorderBusy w' = su_recorderBusy w \<and>
     su_journalRunning w' = su_journalRunning w \<and> su_recorderRunning w' = su_recorderRunning w \<and>
     (\<forall>o'. op_callbacks (su_ops w' o') = op_callbacks (su_ops w o') \<and>
          op_returned (su_ops w' o') = op_returned (su_ops w o') \<and>
          op_revoked (su_ops w' o') = op_revoked (su_ops w o') \<and>
          op_issuedAt (su_ops w' o') = op_issuedAt (su_ops w o') \<and>
          op_change (su_ops w' o') = op_change (su_ops w o'))"

text \<open>The parts that read the attempt, the identity and the time of an issue.\<close>

lemma current_cong:
  "su_execution w' = su_execution w \<Longrightarrow> su_attempt w' = su_attempt w \<Longrightarrow>
     su_revision w' = su_revision w \<Longrightarrow> su_state w' = su_state w \<Longrightarrow> current w' a = current w a"
  by (simp add: current_def)

lemma stage_ok_cong:
  "su_execution w' = su_execution w \<Longrightarrow> su_attempt w' = su_attempt w \<Longrightarrow>
     su_revision w' = su_revision w \<Longrightarrow> su_state w' = su_state w \<Longrightarrow>
     su_pending w' = su_pending w \<Longrightarrow> op_issuedAt (su_ops w' op) = op_issuedAt (su_ops w op) \<Longrightarrow>
     stage_ok w' op s = stage_ok w op s"
  by (cases s) (simp_all add: current_def)

lemma token_ok_same_view: "same_view w w' \<Longrightarrow> token_ok w' t = token_ok w t"
  using stage_ok_cong [of w' w]
  by (cases t) (simp_all add: same_view_def running_def split: work.splits)

lemma doubt_ok_same_view: "same_view w w' \<Longrightarrow> doubt_ok R w' = doubt_ok R w"
  by (simp add: same_view_def doubt_ok_def fault_current_def current_def)

lemma sup_inv_same_view:
  assumes "same_view w w'"
  shows "sup_inv D R w' T = sup_inv D R w T"
proof -
  note v = assms [unfolded same_view_def]
  have "mode_ok w' = mode_ok w" using v by (simp add: mode_ok_def split: mode.split option.split)
  moreover have "declared_ok D w' = declared_ok D w" using v by (simp add: declared_ok_def)
  moreover have "doubt_ok R w' = doubt_ok R w" by (rule doubt_ok_same_view [OF assms])
  moreover have "ring_ok w' = ring_ok w" using v by (simp add: ring_ok_def)
  moreover have "heap_ok w' = heap_ok w" using v by (simp add: heap_ok_def)
  moreover have "counts_ok w' T = counts_ok w T" using v by (simp add: counts_ok_def)
  ultimately show ?thesis using token_ok_same_view [OF assms] by (simp add: sup_inv_def)
qed

lemma sup_inv_ignores [simp]:
  "sup_inv D R (w\<lparr>su_app := a\<rparr>) T = sup_inv D R w T"
  "sup_inv D R (w\<lparr>su_timer := tm\<rparr>) T = sup_inv D R w T"
  "sup_inv D R (w\<lparr>su_ctxs := cs\<rparr>) T = sup_inv D R w T"
  "sup_inv D R (w\<lparr>su_ctxs := cs, su_nextCtx := n\<rparr>) T = sup_inv D R w T"
  "sup_inv D R (w\<lparr>su_outcomes := os\<rparr>) T = sup_inv D R w T"
  "sup_inv D R (w\<lparr>su_failures := fs\<rparr>) T = sup_inv D R w T"
  "sup_inv D R (w\<lparr>su_reporting := i\<rparr>) T = sup_inv D R w T"
  "sup_inv D R (w\<lparr>su_droppedRecords := q\<rparr>) T = sup_inv D R w T"
  "sup_inv D R (w\<lparr>su_journalError := s\<rparr>) T = sup_inv D R w T"
  "sup_inv D R (w\<lparr>su_recorderError := s, su_recorderFailures := q\<rparr>) T = sup_inv D R w T"
  by (rule sup_inv_same_view; simp add: same_view_def)+

lemma sup_inv_ctx [simp]:
  "sup_inv D R (end_ctx c x w) T = sup_inv D R w T"
  "sup_inv D R (cancel_ctx c w) T = sup_inv D R w T"
  by (simp_all add: end_ctx_def cancel_ctx_def)

lemma sup_inv_reportingReturned [simp]: "sup_inv D R (reportingReturned w) T = sup_inv D R w T"
  by (simp add: reportingReturned_def)

text \<open>An update of an operation that leaves its counters and marks alone.\<close>

lemma ops_upd_op: "su_ops (upd_op o' f w) p = (if p = o' then f (su_ops w o') else su_ops w p)"
  by (simp add: upd_op_def)

lemma upd_op_selectors [simp]:
  "su_mode (upd_op o' f w) = su_mode w" "su_state (upd_op o' f w) = su_state w"
  "su_fault (upd_op o' f w) = su_fault w" "su_pending (upd_op o' f w) = su_pending w"
  "su_operation (upd_op o' f w) = su_operation w" "su_nextOp (upd_op o' f w) = su_nextOp w"
  "su_live (upd_op o' f w) = su_live w" "su_nextChan (upd_op o' f w) = su_nextChan w"
  "su_revision (upd_op o' f w) = su_revision w" "su_records (upd_op o' f w) = su_records w"
  "su_maxRecords (upd_op o' f w) = su_maxRecords w" "su_nextRecord (upd_op o' f w) = su_nextRecord w"
  "su_journalBusy (upd_op o' f w) = su_journalBusy w"
  "su_recorderBusy (upd_op o' f w) = su_recorderBusy w"
  "su_journalRunning (upd_op o' f w) = su_journalRunning w"
  "su_recorderRunning (upd_op o' f w) = su_recorderRunning w"
  "su_execution (upd_op o' f w) = su_execution w" "su_incarnation (upd_op o' f w) = su_incarnation w"
  "su_restarts (upd_op o' f w) = su_restarts w" "su_app (upd_op o' f w) = su_app w"
  "su_reporting (upd_op o' f w) = su_reporting w" "su_attempt (upd_op o' f w) = su_attempt w"
  "su_ctxs (upd_op o' f w) = su_ctxs w" "su_nextCtx (upd_op o' f w) = su_nextCtx w"
  "su_timer (upd_op o' f w) = su_timer w"
  by (simp_all add: upd_op_def)

lemma sup_inv_upd_op:
  assumes "\<And>p. op_callbacks (f p) = op_callbacks p" "\<And>p. op_returned (f p) = op_returned p"
    "\<And>p. op_revoked (f p) = op_revoked p" "\<And>p. op_issuedAt (f p) = op_issuedAt p"
    "\<And>p. op_change (f p) = op_change p"
  shows "sup_inv D R (upd_op o' f w) T = sup_inv D R w T"
  using assms by (intro sup_inv_same_view) (simp add: same_view_def ops_upd_op)

lemma sup_inv_take_cancel [simp]: "sup_inv D R (fst (take_cancel o' w)) T = sup_inv D R w T"
  by (simp add: take_cancel_def sup_inv_upd_op)

text \<open>A later attempt leaves the current ones current.\<close>

lemma sup_inv_attempt:
  fixes w :: "('s, 'e, 'c, 't, 'v) sup"
  assumes "sup_inv D R w T" "su_attempt w \<le> q"
  shows "sup_inv D R (w\<lparr>su_attempt := q\<rparr>) T"
proof -
  let ?w = "w\<lparr>su_attempt := q\<rparr>"
  have c: "current ?w a" if "current w a" for a :: "('s, 'e, 'x) attempt_scheme"
    using that assms(2) by (auto simp: current_def)
  have s: "stage_ok ?w op s" if "stage_ok w op s" for op and s :: "('s, 'e) stage"
    using that assms(2) by (cases s) (auto simp: current_def)
  have "token_ok ?w t" if "token_ok w t" for t
    using that s by (cases t) (auto simp: running_def split: work.splits)
  moreover have "doubt_ok R ?w"
    using assms unfolding sup_inv_def doubt_ok_def fault_current_def current_def by auto
  moreover have "mode_ok ?w = mode_ok w" by (simp add: mode_ok_def split: mode.split option.split)
  ultimately show ?thesis
    using assms(1) by (simp add: sup_inv_def declared_ok_def ring_ok_def heap_ok_def counts_ok_def)
qed

text \<open>An update of what an operation is doing, by the call that owns it.\<close>

fun fits :: "('s, 'e) routes \<Rightarrow> ('s, 'e) stage \<Rightarrow> ('s, 'e) change \<Rightarrow> bool" where
  "fits R Plain c = True"
| "fits R (Attempting a) c = True"
| "fits R (Issuing a) c = (routed R c \<and> attempt.truncate c = a)"
| "fits R (Verifying c') c = (c = c')"

lemma current_truncate [simp]: "current w (attempt.truncate c) = current w c"
  by (simp add: current_def attempt.defs)

lemma sup_inv_op_change:
  fixes w :: "('s, 'e, 'c, 't, 'v) sup"
  assumes "\<And>p. op_callbacks (f p) = op_callbacks p" "\<And>p. op_returned (f p) = op_returned p"
    "\<And>p. op_revoked (f p) = op_revoked p" "\<And>p. op_issuedAt (f p) = op_issuedAt p"
    "\<And>p. op_change (f p) = c" "ch_to c \<in> D"
    and I: "sup_inv D R w T" and caller: "Caller o' g s \<in># T" "fits R s c"
    and own: "\<not> op_revoked (su_ops w o')"
  shows "sup_inv D R (upd_op o' f w) T"
proof -
  let ?w = "upd_op o' f w"
  have views: "su_execution ?w = su_execution w" "su_attempt ?w = su_attempt w"
    "su_revision ?w = su_revision w" "su_state ?w = su_state w" by simp_all
  have stage: "su_operation w = Some o'" "su_mode w = ModeExecuting" "su_fault w = g" "stage_ok w o' s"
    using I caller(1) own by (auto simp: sup_inv_def)
  have "stage_ok ?w op s = stage_ok w op s" for op and s :: "('s, 'e) stage"
    by (rule stage_ok_cong) (simp_all add: ops_upd_op assms(4))
  then have "token_ok ?w t = token_ok w t" for t
    using assms(1-5) by (cases t) (simp_all add: ops_upd_op running_def split: work.splits)
  moreover have "mode_ok ?w = mode_ok w"
    using assms(1-5) by (simp add: mode_ok_def ops_upd_op split: mode.split option.split)
  moreover have "doubt_ok R ?w"
  proof -
    have d: "doubt_ok R w" using I by (simp add: sup_inv_def)
    have cur: "current ?w a = current w a" for a :: "('s, 'e, 'x) attempt_scheme"
      by (simp add: current_def)
    have "op_issuedAt (su_ops w o') \<noteq> 0 \<Longrightarrow> routed R c \<and> current w c \<and> su_fault w = None"
      using d stage caller(2) by (cases s) (auto simp: doubt_ok_def)
    moreover have "su_pending w = Some p \<Longrightarrow> c = pe_change p" for p
      using stage caller(2) by (cases s) auto
    ultimately show ?thesis
      using d stage(1, 2) assms(4, 5)
      by (auto simp: doubt_ok_def fault_current_def cur ops_upd_op)
  qed
  ultimately show ?thesis
    using assms(1-6) I by (simp add: sup_inv_def declared_ok_def ring_ok_def heap_ok_def counts_ok_def ops_upd_op)
qed

end
