(* ===== verification/Super_Regions.thy ===== *)
theory Super_Regions
  imports Super_Tokens
begin

text \<open>
  Every lock region keeps the invariant of \<open>Super_Tokens\<close> and trades its goroutine's tokens.

  The lemmas follow the code's operations: stamps and records, the start of an operation, the
  latching of a fault, the ends of an operation, the start and the end of a goroutine.
\<close>

section \<open>Reading the invariant\<close>

lemma sup_inv_token: "sup_inv D R w T \<Longrightarrow> t \<in># T \<Longrightarrow> token_ok w t"
  by (simp add: sup_inv_def)

lemma sup_inv_mono_known: "sup_inv D R w T \<Longrightarrow> o' < su_nextOp w \<Longrightarrow> sup_inv D R w (T + {#Known o'#})"
  by (simp add: sup_inv_def counts_ok_def)

lemma sup_inv_stamped: "sup_inv D R w T \<Longrightarrow> q \<le> su_nextRecord w \<Longrightarrow> sup_inv D R w (T + {#Stamped q#})"
  by (simp add: sup_inv_def counts_ok_def)

lemma sup_inv_drop_stamp: "sup_inv D R w (T + {#Stamped q#}) \<Longrightarrow> sup_inv D R w T"
  by (simp add: sup_inv_def counts_ok_def)

lemma sup_inv_operation: "sup_inv D R w T \<Longrightarrow> su_operation w = Some o' \<Longrightarrow> o' < su_nextOp w"
  by (simp add: sup_inv_def heap_ok_def)

lemma sup_inv_faulted:
  "sup_inv D R w T \<Longrightarrow> su_mode w = ModeFaulted \<Longrightarrow> \<exists>f. su_fault w = Some f \<and> su_pending w = None"
  by (auto simp: sup_inv_def mode_ok_def)

lemma sup_inv_executing:
  "sup_inv D R w T \<Longrightarrow> su_mode w = ModeExecuting \<Longrightarrow>
     \<exists>o'. su_operation w = Some o' \<and> \<not> op_revoked (su_ops w o') \<and> \<not> op_returned (su_ops w o')"
  by (auto simp: sup_inv_def mode_ok_def split: option.splits)

lemma sup_inv_idle:
  "sup_inv D R w T \<Longrightarrow> su_mode w = ModeStopped \<or> su_mode w = ModeReady \<Longrightarrow>
     su_fault w = None \<and> su_pending w = None"
  by (auto simp: sup_inv_def mode_ok_def)

lemma sup_inv_awaiting:
  "sup_inv D R w T \<Longrightarrow> su_mode w = ModeAwaitingVerification \<Longrightarrow>
     su_fault w = None \<and> su_pending w \<noteq> None"
  by (auto simp: sup_inv_def mode_ok_def)

text \<open>At most one public call runs an operation, and it runs the current one.\<close>

lemma multi_split: "t \<in># F \<Longrightarrow> \<exists>F'. F = F' + {#t#}"
  by (metis add_mset_add_single mset_add)

lemma other_tokens_not_caller:
  assumes "sup_inv D R w (F + {#t#})" "is_caller t" "s \<in># F"
  shows "\<not> is_caller s"
proof
  assume "is_caller s"
  obtain F' where "F = F' + {#s#}" using multi_split [OF assms(3)] by blast
  then show False using assms(1, 2) \<open>is_caller s\<close> by (simp add: sup_inv_def counts_ok_def)
qed

lemma caller_owns:
  assumes "sup_inv D R w (F + {#Caller o' f s#})"
  shows "su_operation w = Some o'" "\<not> op_returned (su_ops w o')"
    "ownsLocked o' w \<Longrightarrow> su_mode w = ModeExecuting \<and> su_fault w = f \<and>
       stage_ok w o' s \<and> (f \<noteq> None \<longrightarrow> su_revision w \<noteq> - 1)"
    "\<not> ownsLocked o' w \<Longrightarrow> su_mode w \<noteq> ModeExecuting"
  using sup_inv_token [OF assms, of "Caller o' f s"] sup_inv_executing [OF assms]
  by (auto simp: ownsLocked_def)

text \<open>A call whose operation is no longer executing has made its decision.\<close>

lemma settle:
  assumes "sup_inv D R w (F + {#Caller o' f s#})" "su_mode w \<noteq> ModeExecuting"
  shows "sup_inv D R w (F + {#Settled o'#})"
  using assms by (auto simp: sup_inv_def counts_ok_def)

text \<open>A call that has lost its operation may take any stage.\<close>

lemma lost_stage:
  assumes "sup_inv D R w (F + {#Caller o' f s#})" "su_mode w \<noteq> ModeExecuting"
  shows "sup_inv D R w (F + {#Caller o' f s'#})"
  using assms by (auto simp: sup_inv_def counts_ok_def)

text \<open>What is in doubt stays so while no operation begins and nothing is decided.\<close>

lemma doubt_ok_keeps:
  assumes "doubt_ok R w" "su_mode w' = su_mode w" "su_state w' = su_state w"
    "su_fault w' = su_fault w" "su_pending w' = su_pending w" "su_revision w' = su_revision w"
    "su_attempt w' = su_attempt w" "su_execution w' = su_execution w"
    "su_incarnation w' = su_incarnation w"
    "\<And>o'. su_operation w' = Some o' \<Longrightarrow> su_operation w = Some o'"
    "\<And>o'. op_issuedAt (su_ops w' o') = op_issuedAt (su_ops w o')"
    "\<And>o'. op_change (su_ops w' o') = op_change (su_ops w o')"
  shows "doubt_ok R w'"
  using assms by (auto simp: doubt_ok_def fault_current_def current_def)

section \<open>Stamps and records\<close>

lemma le_plus_one: "q \<le> q + 1" if "q \<noteq> - 1" for q :: u64
proof -
  have "q + 1 \<noteq> 0" using that by (metis add.inverse_inverse add.commute add_eq_0_iff)
  then show ?thesis by (simp add: word_le_nat_alt unatSuc add.commute [of q])
qed

lemma stampLocked_nextRecord:
  "stampLocked E w = (w', s) \<Longrightarrow>
     w' = w\<lparr>su_nextRecord := su_nextRecord w'\<rparr> \<and> su_nextRecord w \<le> su_nextRecord w' \<and>
     rs_seq s \<le> su_nextRecord w'"
  by (auto simp: stampLocked_def zero_stamp_def le_plus_one split: if_splits)

lemma stampLocked_view:
  assumes "stampLocked E w = (w', s)"
  shows "su_mode w' = su_mode w" "su_state w' = su_state w" "su_fault w' = su_fault w"
    "su_pending w' = su_pending w" "su_operation w' = su_operation w" "su_ops w' = su_ops w"
    "su_nextOp w' = su_nextOp w" "su_live w' = su_live w" "su_nextChan w' = su_nextChan w"
    "su_revision w' = su_revision w" "su_records w' = su_records w"
    "su_maxRecords w' = su_maxRecords w" "su_execution w' = su_execution w"
    "su_incarnation w' = su_incarnation w" "su_restarts w' = su_restarts w"
    "su_attempt w' = su_attempt w"
    "su_journalBusy w' = su_journalBusy w" "su_recorderBusy w' = su_recorderBusy w"
    "su_journalRunning w' = su_journalRunning w" "su_recorderRunning w' = su_recorderRunning w"
  by (subst conjunct1 [OF stampLocked_nextRecord [OF assms]], simp)+

lemma stampLocked_inv:
  assumes "sup_inv D R w T" "stampLocked E w = (w', s)"
  shows "sup_inv D R w' (T + {#Stamped (rs_seq s)#})"
proof -
  note n = stampLocked_nextRecord [OF assms(2)]
  have "stage_ok w' op s = stage_ok w op s" for op s
    by (rule stage_ok_cong) (simp_all add: stampLocked_view [OF assms(2)])
  then have "token_ok w' t" if "token_ok w t" for t
    using that n order_trans
    by (cases t) (auto simp: stampLocked_view [OF assms(2)] running_def split: work.splits)
  moreover have "mode_ok w' = mode_ok w"
    by (simp add: mode_ok_def stampLocked_view [OF assms(2)] split: mode.split option.split)
  moreover have "ring_ok w \<Longrightarrow> ring_ok w'"
    using n order_trans by (auto simp: ring_ok_def stampLocked_view [OF assms(2)])
  moreover have "doubt_ok R w'"
    by (rule doubt_ok_keeps [of R w]) (use assms(1) in \<open>simp_all add: sup_inv_def stampLocked_view [OF assms(2)]\<close>)
  ultimately show ?thesis
    using assms(1) n
    by (simp add: sup_inv_def declared_ok_def heap_ok_def counts_ok_def stampLocked_view [OF assms(2)])
qed

lemma stampLocked_allowed:
  assumes "sup_allowed w\<^sub>0 w" "stampLocked E w = (w', s)"
  shows "sup_allowed w\<^sub>0 w'"
  using assms(1) stampLocked_nextRecord [OF assms(2)] order_trans
  unfolding sup_allowed_def by (simp add: stampLocked_view [OF assms(2)]) blast

lemma search_seq_exact: "by_seq rs \<Longrightarrow> snd (search_seq q rs) = (q \<in> rc_seq ` set rs)"
  by (induction q rs rule: search_seq.induct)
     (force simp: by_seq_def split: prod.splits)+

lemma put_record_at: "fst (search_seq (rc_seq r) rs) = i \<Longrightarrow> put_record r rs = take i rs @ r # drop i rs"
  by (rule put_record_take) (simp add: search_seq_index)

lemma by_seq_tl: "by_seq rs \<Longrightarrow> by_seq (tl rs)"
  by (cases rs) (auto simp: by_seq_def)

lemma in_tl: "x \<in> set (tl xs) \<Longrightarrow> x \<in> set xs"
  by (cases xs) auto

lemma append_record_cases:
  assumes "by_seq rs" "length rs \<le> cap" "append_record cap r (rs, d) = (rs', d')"
  shows "rs' = rs \<or>
    (rc_seq r \<notin> rc_seq ` set rs \<and> length rs < cap \<and> rs' = put_record r rs) \<or>
    (rc_seq r \<notin> rc_seq ` set rs \<and> length rs = cap \<and> rs' = tl (put_record r rs))"
proof -
  obtain i e where s: "search_seq (rc_seq r) rs = (i, e)" by fastforce
  have e: "e = (rc_seq r \<in> rc_seq ` set rs)" using search_seq_exact [OF assms(1), of "rc_seq r"] s by simp
  have put: "put_record r rs = take i rs @ r # drop i rs" by (rule put_record_at) (simp add: s)
  show ?thesis
  proof (cases "e \<or> length rs < cap \<or> i = 0")
    case True
    then show ?thesis
      using assms(2, 3) s e put by (auto simp: append_record_def Let_def split: if_splits)
  next
    case False
    then have i: "i = Suc (i - 1)" and full: "length rs = cap" using assms(2) by auto
    have "rs \<noteq> []" using False s by (cases rs) auto
    then have "tl (put_record r rs) = take (i - 1) (tl rs) @ [r] @ drop (i - 1) (tl rs)"
      by (subst put, subst (1 2) i) (cases rs; simp)
    then show ?thesis
      using assms(3) s e False full by (auto simp: append_record_def Let_def split: if_splits)
  qed
qed

lemma appendRecordLocked_view:
  "appendRecordLocked r w =
     w\<lparr>su_records := su_records (appendRecordLocked r w),
       su_droppedRecords := su_droppedRecords (appendRecordLocked r w)\<rparr>"
  by (simp add: appendRecordLocked_def split: prod.split)

lemma sup_inv_records:
  "sup_inv D R (w\<lparr>su_records := rs, su_droppedRecords := d\<rparr>) T \<longleftrightarrow>
     ring_ok (w\<lparr>su_records := rs\<rparr>) \<and>
     mode_ok w \<and> declared_ok D w \<and> doubt_ok R w \<and> heap_ok w \<and> counts_ok w T \<and>
     (\<forall>t \<in># T. token_ok w t)"
proof -
  have "stage_ok (w\<lparr>su_records := rs, su_droppedRecords := d\<rparr>) op s = stage_ok w op s" for op s
    by (rule stage_ok_cong) simp_all
  then have "token_ok (w\<lparr>su_records := rs, su_droppedRecords := d\<rparr>) t = token_ok w t" for t
    by (cases t) (simp_all add: running_def split: work.splits)
  moreover have "mode_ok (w\<lparr>su_records := rs, su_droppedRecords := d\<rparr>) = mode_ok w"
    by (simp add: mode_ok_def split: mode.split option.split)
  moreover have "doubt_ok R (w\<lparr>su_records := rs, su_droppedRecords := d\<rparr>) = doubt_ok R w"
    by (simp add: doubt_ok_def fault_current_def current_def)
  ultimately show ?thesis
    by (auto simp: sup_inv_def ring_ok_def declared_ok_def heap_ok_def counts_ok_def)
qed

lemma appendRecordLocked_inv:
  assumes "sup_inv D R w T" "Stamped (rc_seq r) \<in># T"
  shows "sup_inv D R (appendRecordLocked r w) T"
proof -
  let ?rs = "su_records (appendRecordLocked r w)"
  have ring: "by_seq (su_records w)" "length (su_records w) \<le> su_maxRecords w"
    "\<forall>x \<in> set (su_records w). rc_seq x \<le> su_nextRecord w"
    using assms(1) by (auto simp: sup_inv_def ring_ok_def)
  have q: "rc_seq r \<le> su_nextRecord w" using sup_inv_token [OF assms] by simp
  obtain rs d where a:
    "append_record (su_maxRecords w) r (su_records w, su_droppedRecords w) = (rs, d)" by fastforce
  then have rs: "?rs = rs" by (simp add: appendRecordLocked_def)
  have "by_seq (put_record r (su_records w))" if "rc_seq r \<notin> rc_seq ` set (su_records w)"
    using ring(1) that by (rule by_seq_put_record)
  then have "by_seq rs \<and> length rs \<le> su_maxRecords w \<and> set rs \<subseteq> insert r (set (su_records w))"
    using append_record_cases [OF ring(1, 2) a] ring(1, 2)
    by (auto intro: by_seq_tl dest: in_tl)
  then have "ring_ok (w\<lparr>su_records := ?rs\<rparr>)" using ring(3) q by (auto simp: ring_ok_def rs)
  then show ?thesis
    using assms(1) by (subst appendRecordLocked_view) (simp only: sup_inv_records, simp add: sup_inv_def)
qed

lemma appendRecordLocked_allowed: "sup_allowed w\<^sub>0 w \<Longrightarrow> sup_allowed w\<^sub>0 (appendRecordLocked r w)"
  by (subst appendRecordLocked_view) (simp add: sup_allowed_def)

lemma sup_allowed_dropped: "sup_allowed w\<^sub>0 w \<Longrightarrow> sup_allowed w\<^sub>0 (w\<lparr>su_droppedRecords := d\<rparr>)"
  by (simp add: sup_allowed_def)

text \<open>What a result carries is known: its stamp has been given out and its owner allocated.\<close>

definition known_result :: "('s, 'e) token multiset \<Rightarrow> ('s, 'e) sresult \<Rightarrow> bool" where
  "known_result T r \<longleftrightarrow>
     Stamped (rs_seq (re_stamp r)) \<in># T \<and> (\<forall>o'. re_owner r = Some o' \<longrightarrow> Known o' \<in># T)"

lemma recordResultLocked_inv:
  assumes "sup_inv D R w (F + T)" "known_result T result"
    "recordResultLocked E kind result w = (w', r)"
  shows "sup_inv D R w' (F + T) \<and> sup_allowed w w'"
proof -
  let ?fresh = "\<not> rs_ok (re_stamp result) \<and> \<not> rs_exhausted (re_stamp result)"
  obtain w1 stamp where
    s: "(if ?fresh then stampLocked E w else (w, re_stamp result)) = (w1, stamp)" by fastforce
  have "sup_inv D R w (F + T + {#Stamped (rs_seq (re_stamp result))#})"
    using assms(1, 2) sup_inv_token [OF assms(1), of "Stamped (rs_seq (re_stamp result))"]
    by (intro sup_inv_stamped) (simp_all add: known_result_def)
  then have I: "sup_inv D R w1 (F + T + {#Stamped (rs_seq stamp)#})" and A: "sup_allowed w w1"
    using s stampLocked_inv [OF assms(1)] stampLocked_allowed [OF sup_allowed_refl]
    by (auto split: if_splits)
  show ?thesis
  proof (cases "rs_exhausted stamp")
    case True
    then have "w' = w1\<lparr>su_droppedRecords := su_droppedRecords w'\<rparr>"
      using assms(3) s by (auto simp: recordResultLocked_def Let_def)
    then show ?thesis
      using sup_inv_drop_stamp [OF I] A by (metis sup_inv_ignores(8) sup_allowed_dropped)
  next
    case False
    then obtain rec where "w' = appendRecordLocked rec w1" "rc_seq rec = rs_seq stamp"
      using assms(3) s by (auto simp: recordResultLocked_def Let_def)
    then show ?thesis
      using sup_inv_drop_stamp [OF appendRecordLocked_inv [OF I]] appendRecordLocked_allowed [OF A]
      by simp
  qed
qed

section \<open>The start of an operation\<close>

lemma none_in_filter: "filter_mset P M = {#} \<longleftrightarrow> (\<forall>x \<in># M. \<not> P x)"
  by (induction M) auto

lemma no_caller_when_idle:
  assumes "sup_inv D R w T" "su_operation w = None" "t \<in># T"
  shows "\<not> is_caller t" "\<not> attached (su_nextOp w) t" "\<forall>ch o'. t \<noteq> Worker ch (CallbackOf o')"
  using sup_inv_token [OF assms(1, 3)] assms(2)
  by (cases t; auto split: work.splits elim!: attached.elims)+

lemma begin_view:
  assumes "beginOperationLocked E parent change phase w = (w', op)"
  shows "op = su_nextOp w" "su_nextOp w' = Suc op" "su_operation w' = Some op"
    "su_mode w' = ModeExecuting" "su_state w' = su_state w" "su_fault w' = su_fault w"
    "su_pending w' = su_pending w" "su_live w' = su_live w" "su_nextChan w' = su_nextChan w"
    "su_revision w' = su_revision w" "su_records w' = su_records w"
    "su_maxRecords w' = su_maxRecords w" "su_nextRecord w' = su_nextRecord w"
    "su_execution w' = su_execution w"
    "su_incarnation w' = su_incarnation w" "su_restarts w' = su_restarts w"
    "su_journalBusy w' = su_journalBusy w" "su_recorderBusy w' = su_recorderBusy w"
    "su_journalRunning w' = su_journalRunning w" "su_recorderRunning w' = su_recorderRunning w"
    "su_attempt w' = su_attempt w" "op_issuedAt (su_ops w' op) = 0"
    "op_callbacks (su_ops w' op) = 0" "\<not> op_returned (su_ops w' op)"
    "\<not> op_revoked (su_ops w' op)" "op_change (su_ops w' op) = change"
    "\<And>o'. o' \<noteq> op \<Longrightarrow> su_ops w' o' = su_ops w o'"
  using assms by (auto simp: beginOperationLocked_def Let_def)

text \<open>The stage in which a call starts its operation.\<close>

fun starts_in :: "('s, 'e, 'c, 't, 'v) sup \<Rightarrow> ('s, 'e) change \<Rightarrow> ('s, 'e) stage \<Rightarrow> bool" where
  "starts_in w c Plain = (su_pending w = None)"
| "starts_in w c (Attempting a) = (su_pending w = None \<and> current w a)"
| "starts_in w c (Issuing a) = False"
| "starts_in w c (Verifying c') = (c = c' \<and> (\<exists>p. su_pending w = Some p \<and> pe_change p = c))"

lemma begin_inv:
  assumes "sup_inv D R w F" "su_operation w = None" "ch_to change \<in> D"
    "su_fault w \<noteq> None \<longrightarrow> su_revision w \<noteq> - 1" "starts_in w change s"
    "beginOperationLocked E parent change phase w = (w', op)"
  shows "sup_inv D R w' (F + {#Caller op (su_fault w) s, Known op#})"
proof -
  note ptr = begin_view(1) [OF assms(6)] and b = begin_view(2-) [OF assms(6)]
  note idle = no_caller_when_idle [OF assms(1, 2)]
  have tok: "token_ok w' t" if "t \<in># F" for t
    using sup_inv_token [OF assms(1) that] idle [OF that] ptr
    by (cases t) (auto simp: b running_def split: work.splits)
  have stage: "stage_ok w' op s" using assms(5) by (cases s) (auto simp: b current_def)
  have "filter_mset is_caller F = {#}" using idle(1) by (simp add: none_in_filter)
  moreover have "filter_mset (attached op) F = {#}"
    using idle(2) by (simp add: none_in_filter ptr)
  moreover have "op_callbacks (su_ops w' o') = int (size (filter_mset (attached o') F))" for o'
    using assms(1) b(22, 26) \<open>filter_mset (attached op) F = {#}\<close>
    by (cases "o' = op") (simp_all add: sup_inv_def counts_ok_def)
  ultimately have "counts_ok w' (F + {#Caller op (su_fault w) s, Known op#})"
    using assms(1) by (simp add: sup_inv_def counts_ok_def b(7))
  moreover have "doubt_ok R w'"
  proof -
    have "su_pending w = Some p \<Longrightarrow> change = pe_change p" for p using assms(5) by (cases s) auto
    then show ?thesis
      using assms(1) by (auto simp: sup_inv_def doubt_ok_def fault_current_def current_def b)
  qed
  moreover have "declared_ok D w'" "ring_ok w'" "heap_ok w'" "mode_ok w'"
    using assms(1-3) by (auto simp: sup_inv_def declared_ok_def ring_ok_def heap_ok_def mode_ok_def b)
  ultimately show ?thesis using tok stage assms(4) by (auto simp: sup_inv_def b)
qed

lemma begin_allowed:
  "beginOperationLocked E parent change phase w = (w', op) \<Longrightarrow> \<not> admission_closed w \<Longrightarrow>
     sup_allowed w w'"
  using begin_view [of E parent change phase w w' op] by (simp add: sup_allowed_def)

section \<open>Latching a fault\<close>

lemma latch_owned:
  "ownsLocked o' w \<Longrightarrow>
     latchLocked E m (Some o') change phase cause u w = latchLocked E m None change phase cause u w"
  by (simp add: latchLocked_def)

lemma latch_lost:
  "\<not> ownsLocked o' w \<Longrightarrow>
     latchLocked E m (Some o') change phase cause u w = (w, su_fault w, None, False)"
  by (simp add: latchLocked_def)

lemma latch_view:
  assumes "latchLocked E m None change phase cause u w = (w', fault, cancel, fresh)"
  shows "su_mode w' = ModeFaulted" "su_pending w' = None" "fault = su_fault w'"
    "su_fault w' = (case su_fault w of None \<Rightarrow> Some (new_fault E m change phase cause u w)
                                     | Some f \<Rightarrow> Some f)"
    "su_operation w' = su_operation w" "su_state w' = su_state w" "su_nextOp w' = su_nextOp w"
    "su_live w' = su_live w" "su_nextChan w' = su_nextChan w" "su_revision w' = su_revision w"
    "su_records w' = su_records w" "su_maxRecords w' = su_maxRecords w"
    "su_nextRecord w' = su_nextRecord w" "su_execution w' = su_execution w"
    "su_incarnation w' = su_incarnation w" "su_restarts w' = su_restarts w"
    "su_journalBusy w' = su_journalBusy w" "su_recorderBusy w' = su_recorderBusy w"
    "su_journalRunning w' = su_journalRunning w" "su_recorderRunning w' = su_recorderRunning w"
    "op_callbacks (su_ops w' o') = op_callbacks (su_ops w o')"
    "op_returned (su_ops w' o') = op_returned (su_ops w o')"
    "op_change (su_ops w' o') = op_change (su_ops w o')"
    "op_revoked (su_ops w' o') = (op_revoked (su_ops w o') \<or> su_operation w = Some o')"
    "su_attempt w' = su_attempt w" "op_issuedAt (su_ops w' o') = op_issuedAt (su_ops w o')"
  using assms
  by (auto simp: latchLocked_def take_cancel_def Let_def ops_upd_op split: option.splits if_splits)

lemma new_fault_fields [simp]:
  "f_change (new_fault E m change phase cause u w) = change"
  "f_to (new_fault E m change phase cause u w) = ch_to change"
  "f_transition (new_fault E m change phase cause u w) = ch_transition change"
  "f_phase (new_fault E m change phase cause u w) = phase"
  "f_execution (new_fault E m change phase cause u w) = su_execution w"
  "f_incarnation (new_fault E m change phase cause u w) = at_incarnation change"
  "f_attempt (new_fault E m change phase cause u w) = at_id change"
  "f_state (new_fault E m change phase cause u w) = su_state w"
  "f_event (new_fault E m change phase cause u w) = at_event change"
  "f_issuedAt (new_fault E m change phase cause u w) = fst (fault_times change w)"
  by (simp_all add: new_fault_def split: prod.split)

text \<open>A new fault is in doubt only about an external row of the committed state.\<close>

definition blames :: "('s, 'e) routes \<Rightarrow> ('s, 'e) change \<Rightarrow> ('s, 'e, 'c, 't, 'v) sup \<Rightarrow> bool" where
  "blames R c w \<longleftrightarrow>
     su_fault w = None \<and> fst (fault_times c w) \<noteq> 0 \<longrightarrow> routed R c \<and> current w c"

lemma latch_inv:
  assumes "sup_inv D R w T" "ch_to change \<in> D" "blames R change w"
    "latchLocked E m None change phase cause u w = (w', fault, cancel, fresh)"
  shows "sup_inv D R w' T"
proof -
  note v = latch_view [OF assms(4)]
  have "token_ok w' t" if "t \<in># T" for t
    using sup_inv_token [OF assms(1) that]
    by (cases t) (auto simp: v running_def split: work.splits)
  moreover have "declared_ok D w'"
    using assms(1, 2) by (auto simp: sup_inv_def declared_ok_def v split: option.splits)
  moreover have "doubt_ok R w'"
    using assms(1, 3)
    by (auto simp: sup_inv_def doubt_ok_def blames_def fault_current_def current_def v
        split: option.splits)
  moreover have "mode_ok w'" by (simp add: mode_ok_def v split: option.split)
  moreover have "counts_ok w' T" using assms(1) by (simp add: sup_inv_def counts_ok_def v)
  ultimately show ?thesis using assms(1) by (simp add: sup_inv_def ring_ok_def heap_ok_def v)
qed

text \<open>The times of a fault come from the pending change or from the running operation.\<close>

lemma caller_blames:
  assumes "sup_inv D R w (F + {#Caller op f s#})" "ownsLocked op w" "fits R s change"
  shows "blames R change w"
proof -
  note c = caller_owns [OF assms(1)]
  have st: "stage_ok w op s" using c(3) [OF assms(2)] by simp
  have d: "doubt_ok R w" using assms(1) by (simp add: sup_inv_def)
  have times: "fst (fault_times change w) \<noteq> 0 \<Longrightarrow> su_pending w \<noteq> None \<or> op_issuedAt (su_ops w op) \<noteq> 0"
    using c(1) by (auto simp: fault_times_def split: option.splits if_splits)
  show ?thesis
  proof (cases s)
    case (Issuing a)
    then show ?thesis
      using st assms(3) by (auto simp: blames_def)
  next
    case (Verifying c)
    then show ?thesis using st assms(3) d by (auto simp: blames_def doubt_ok_def)
  qed (use st times in \<open>auto simp: blames_def\<close>)
qed

lemma latch_allowed:
  "latchLocked E m None change phase cause u w = (w', fault, cancel, fresh) \<Longrightarrow> sup_allowed w w'"
  by (simp add: sup_allowed_def latch_view split: option.split)

lemma latch_caller:
  assumes "sup_inv D R w (F + {#Caller op f s#})" "ch_to change \<in> D" "fits R s change"
    "latchLocked E m (Some op) change phase cause u w = (w', fault, cancel, fresh)"
  shows "sup_inv D R w' (F + {#Settled op#}) \<and> sup_allowed w w'"
proof (cases "ownsLocked op w")
  case True
  then have l: "latchLocked E m None change phase cause u w = (w', fault, cancel, fresh)"
    using assms(4) by (simp add: latch_owned)
  note i = latch_inv [OF assms(1, 2) caller_blames [OF assms(1) True assms(3)] l]
  show ?thesis
    using settle [OF i] latch_view(1) [OF l] latch_allowed [OF l] by simp
next
  case False
  then show ?thesis
    using assms(4) settle [OF assms(1) caller_owns(4) [OF assms(1) False]] by (simp add: latch_lost)
qed

section \<open>The preparation of an external Issue\<close>

lemma issue_prepared:
  assumes "sup_inv D R w (F + {#Caller op None (Attempting a)#})" "ownsLocked op w" "ch_to change \<in> D"
    "fits R (Issuing a) change"
    "w' = upd_op op (\<lambda>p. p\<lparr>op_phase := ph, op_phaseAt := x, op_issuedAt := y, op_change := change\<rparr>) w"
  shows "sup_inv D R w' (F + {#Caller op None (Issuing a)#})"
proof -
  have own: "su_operation w = Some op" "su_mode w = ModeExecuting" "su_fault w = None"
      "su_pending w = None" "current w a" "current w change" "\<not> op_returned (su_ops w op)"
    using caller_owns [OF assms(1)] assms(2, 4) by auto
  have "token_ok w' t" if "t \<in># F" for t
    using sup_inv_token [OF assms(1), of t] other_tokens_not_caller [OF assms(1) _ that] that
    by (cases t) (auto simp: assms(5) running_def split: work.splits)
  moreover have "token_ok w' (Caller op None (Issuing a))"
    using own by (simp add: assms(5) ops_upd_op current_def)
  moreover have "doubt_ok R w'"
    using assms(1, 4) own
    by (auto simp: sup_inv_def doubt_ok_def assms(5) ops_upd_op current_def fault_current_def)
  moreover have "mode_ok w'"
    using assms(1) own by (simp add: sup_inv_def mode_ok_def assms(5) ops_upd_op)
  moreover have "declared_ok D w'" "counts_ok w' (F + {#Caller op None (Issuing a)#})"
    using assms(1, 3) by (auto simp: sup_inv_def declared_ok_def counts_ok_def assms(5) ops_upd_op)
  ultimately show ?thesis
    using assms(1) by (simp add: sup_inv_def ring_ok_def heap_ok_def assms(5))
qed

section \<open>The ends of an operation\<close>

definition same_rest :: "('s, 'e, 'c, 't, 'v) sup \<Rightarrow> ('s, 'e, 'c, 't, 'v) sup \<Rightarrow> bool" where
  "same_rest w w' \<longleftrightarrow>
     su_operation w' = su_operation w \<and> su_nextOp w' = su_nextOp w \<and> su_live w' = su_live w \<and>
     su_nextChan w' = su_nextChan w \<and> su_records w' = su_records w \<and>
     su_maxRecords w' = su_maxRecords w \<and> su_nextRecord w' = su_nextRecord w \<and>
     su_journalBusy w' = su_journalBusy w \<and> su_recorderBusy w' = su_recorderBusy w \<and>
     su_journalRunning w' = su_journalRunning w \<and> su_recorderRunning w' = su_recorderRunning w \<and>
     (\<forall>o'. op_callbacks (su_ops w' o') = op_callbacks (su_ops w o') \<and>
          op_returned (su_ops w' o') = op_returned (su_ops w o'))"

lemma caller_settles:
  assumes "sup_inv D R w (F + {#Caller op f s#})" "same_rest w w'" "mode_ok w'" "declared_ok D w'"
    "doubt_ok R w'" "su_mode w' \<noteq> ModeExecuting"
  shows "sup_inv D R w' (F + {#Settled op#})"
proof -
  note r = assms(2) [unfolded same_rest_def]
  have "token_ok w' t" if "t \<in># F" for t
    using sup_inv_token [OF assms(1), of t] other_tokens_not_caller [OF assms(1) _ that] that r
    by (cases t) (auto simp: running_def split: work.splits)
  moreover have "token_ok w' (Settled op)" using caller_owns(1, 2) [OF assms(1)] r assms(6) by simp
  moreover have "counts_ok w' (F + {#Settled op#})"
    using assms(1) r by (simp add: sup_inv_def counts_ok_def)
  moreover have "ring_ok w'" "heap_ok w'"
    using assms(1) r by (simp_all add: sup_inv_def ring_ok_def heap_ok_def)
  ultimately show ?thesis using assms(3-5) by (simp add: sup_inv_def)
qed

text \<open>The regions that end an operation: each either finds it lost, or settles it.\<close>

lemma lost_region:
  assumes "sup_inv D R w (F + {#Caller op f t#})" "\<not> ownsLocked op w \<or> su_mode w \<noteq> ModeExecuting"
    "stampLocked E w = (w', s)"
  shows "sup_inv D R w' (F + {#Settled op#} + {#Stamped (rs_seq s)#}) \<and> sup_allowed w w'"
proof -
  have "su_mode w \<noteq> ModeExecuting" using caller_owns(4) [OF assms(1)] assms(2) by blast
  then show ?thesis
    using stampLocked_inv [OF settle [OF assms(1)] assms(3)]
      stampLocked_allowed [OF sup_allowed_refl assms(3)] by simp
qed

lemma take_cancel_upd: "fst (take_cancel op w) = upd_op op (\<lambda>p. p\<lparr>op_cancel := False\<rparr>) w"
  by (simp add: take_cancel_def)

lemma declared_ok_ops:
  "declared_ok D w \<Longrightarrow> (\<And>o'. op_change (su_ops w' o') = op_change (su_ops w o')) \<Longrightarrow>
     su_operation w' = su_operation w \<Longrightarrow> su_state w' \<in> D \<Longrightarrow>
     su_fault w' = None \<or> su_fault w' = su_fault w \<Longrightarrow>
     (\<And>p. su_pending w' = Some p \<Longrightarrow> ch_to (pe_change p) \<in> D) \<Longrightarrow> declared_ok D w'"
  by (auto simp: declared_ok_def)

lemma finishReady_inv:
  assumes "sup_inv D R w (F + {#Caller op None t#})"
    "finishReady_region E op base w = (w', base', fault, cancel)"
    and plain: "t = Plain \<or> t = Attempting a"
  shows "sup_inv D R w' (F + {#Settled op#} + {#Stamped (rs_seq (re_stamp base'))#}) \<and>
    sup_allowed w w' \<and> re_owner base' = re_owner base"
proof (cases "ownsLocked op w \<and> su_mode w = ModeExecuting")
  case False
  then obtain s where s: "stampLocked E w = (w', s)" and base': "base' = base\<lparr>re_stamp := s\<rparr>"
    using assms(2) by (auto simp: finishReady_region_def split: prod.splits)
  show ?thesis using lost_region [OF assms(1) _ s] False by (simp add: base')
next
  case True
  let ?w = "(fst (take_cancel op w))\<lparr>su_mode := ModeReady\<rparr>"
  obtain s where s: "stampLocked E ?w = (w', s)" and
    base': "base' = base\<lparr>re_stamp := s\<lparr>rs_durable := True\<rparr>\<rparr>"
    using assms(2) True by (auto simp: finishReady_region_def split: prod.splits)
  have own: "su_fault w = None" "su_pending w = None" "op_issuedAt (su_ops w op) = 0"
      "su_operation w = Some op"
    using caller_owns [OF assms(1)] True plain by auto
  have D: "declared_ok D w" "doubt_ok R w" using assms(1) by (simp_all add: sup_inv_def)
  have "sup_inv D R ?w (F + {#Settled op#})"
  proof (rule caller_settles [OF assms(1)])
    show "same_rest w ?w" by (simp add: same_rest_def take_cancel_upd ops_upd_op)
    show "doubt_ok R ?w" using D(2) own by (simp add: doubt_ok_def take_cancel_upd ops_upd_op)
    show "declared_ok D ?w"
      using D own by (auto simp: declared_ok_def take_cancel_upd ops_upd_op)
  qed (simp_all add: mode_ok_def own take_cancel_upd)
  moreover have "sup_allowed w ?w" by (simp add: sup_allowed_def take_cancel_upd)
  ultimately show ?thesis
    using stampLocked_inv [OF _ s] stampLocked_allowed [OF _ s] by (simp add: base')
qed

lemma awaitVerification_inv:
  assumes "sup_inv D R w (F + {#Caller op None (Issuing a)#})" "ch_to change \<in> D"
    "fits R (Issuing a) change"
    "awaitVerification_region E op change row base w = (w', base', fault, cancel)"
  shows "sup_inv D R w' (F + {#Settled op#} + {#Stamped (rs_seq (re_stamp base'))#}) \<and>
    sup_allowed w w' \<and> re_owner base' = re_owner base"
proof (cases "ownsLocked op w \<and> su_mode w = ModeExecuting")
  case False
  then obtain s where s: "stampLocked E w = (w', s)" and base': "base' = base\<lparr>re_stamp := s\<rparr>"
    using assms(4) by (auto simp: awaitVerification_region_def split: prod.splits)
  show ?thesis using lost_region [OF assms(1) _ s] False by (simp add: base')
next
  case True
  obtain p q s where
    s: "stampLocked E ((fst (take_cancel op w))\<lparr>su_pending := Some p,
          su_mode := ModeAwaitingVerification, su_timer := Some q\<rparr>) = (w', s)"
      (is "stampLocked E ?w = _")
    and base': "base' = base\<lparr>re_stamp := s\<rparr>" and p: "pe_change p = change"
    using assms(4) True by (auto simp: awaitVerification_region_def split: prod.splits)
  have own: "su_fault w = None" "su_operation w = Some op" "current w change" "routed R change"
    using caller_owns [OF assms(1)] True assms(3) by auto
  have D: "declared_ok D w" "doubt_ok R w" using assms(1) by (simp_all add: sup_inv_def)
  have "sup_inv D R ?w (F + {#Settled op#})"
  proof (rule caller_settles [OF assms(1)])
    show "same_rest w ?w" by (simp add: same_rest_def take_cancel_upd ops_upd_op)
    have "op_issuedAt (su_ops w op) \<noteq> 0 \<longrightarrow>
        routed R (op_change (su_ops w op)) \<and> current w (op_change (su_ops w op))"
      using D(2) own True by (auto simp: doubt_ok_def)
    then show "doubt_ok R ?w"
      using D(2) own p by (auto simp: doubt_ok_def current_def take_cancel_upd ops_upd_op)
    show "declared_ok D ?w"
      using D own p assms(2) by (auto simp: declared_ok_def take_cancel_upd ops_upd_op)
  qed (simp_all add: mode_ok_def own take_cancel_upd)
  moreover have "sup_allowed w ?w" by (simp add: sup_allowed_def take_cancel_upd)
  ultimately show ?thesis
    using stampLocked_inv [OF _ s] stampLocked_allowed [OF _ s] by (simp add: base')
qed

lemma restoreFault_inv:
  assumes "sup_inv D R w (F + {#Caller op (Some f) Plain#})"
    "restoreFault_region E op f base w = (w', base', cancel)"
  shows "sup_inv D R w' (F + {#Settled op#} + {#Stamped (rs_seq (re_stamp base'))#}) \<and>
    sup_allowed w w' \<and> re_owner base' = re_owner base"
proof (cases "ownsLocked op w")
  case False
  then obtain s where s: "stampLocked E w = (w', s)" and base': "base' = base\<lparr>re_stamp := s\<rparr>"
    using assms(2) by (auto simp: restoreFault_region_def split: prod.splits)
  show ?thesis using lost_region [OF assms(1) _ s] False by (simp add: base')
next
  case True
  let ?w = "(upd_op op (\<lambda>p. p\<lparr>op_revoked := True\<rparr>) (fst (take_cancel op w)))
              \<lparr>su_fault := Some f, su_mode := ModeFaulted\<rparr>"
  obtain s where s: "stampLocked E ?w = (w', s)" and base': "base' = base\<lparr>re_stamp := s\<rparr>"
    using assms(2) True by (auto simp: restoreFault_region_def split: prod.splits)
  have own: "su_fault w = Some f" "su_pending w = None"
    using caller_owns(3) [OF assms(1)] True by auto
  have D: "declared_ok D w" "doubt_ok R w" using assms(1) by (simp_all add: sup_inv_def)
  have "sup_inv D R ?w (F + {#Settled op#})"
  proof (rule caller_settles [OF assms(1)])
    show "same_rest w ?w" by (simp add: same_rest_def take_cancel_upd ops_upd_op)
    show "doubt_ok R ?w"
      using D(2) own by (auto simp: doubt_ok_def fault_current_def take_cancel_upd ops_upd_op)
    show "declared_ok D ?w"
      using D own by (auto simp: declared_ok_def take_cancel_upd ops_upd_op)
  qed (simp_all add: mode_ok_def own take_cancel_upd)
  moreover have "sup_allowed w ?w" by (simp add: sup_allowed_def take_cancel_upd own)
  ultimately show ?thesis
    using stampLocked_inv [OF _ s] stampLocked_allowed [OF _ s] by (simp add: base')
qed

lemma commit_inv:
  assumes "sup_inv D R w (F + {#Caller op None t#})" "ch_to change \<in> D"
    "fits R t change" "\<And>a. t \<noteq> Issuing a"
    "commit_region E m op base change issued w = (w', base', out, cancel)"
  shows "sup_inv D R w' (F + {#Settled op#} + {#Stamped (rs_seq (re_stamp base'))#}) \<and>
    sup_allowed w w' \<and> re_owner base' = re_owner base"
proof (cases "ownsLocked op w \<and> su_mode w = ModeExecuting")
  case False
  then obtain s where s: "stampLocked E w = (w', s)" and base': "base' = base\<lparr>re_stamp := s\<rparr>"
    using assms(5) by (auto simp: commit_region_def split: prod.splits)
  show ?thesis using lost_region [OF assms(1) _ s] False by (simp add: base')
next
  case own: True
  show ?thesis
  proof (cases "su_revision w = - 1")
    case True
    then obtain w1 fault fresh s where
      l: "latchLocked E m (Some op) change PhaseCommit (SSentinel ErrCounterExhausted) issued w =
        (w1, fault, cancel, fresh)" and s: "stampLocked E w1 = (w', s)" and
      base': "base' = base\<lparr>re_stamp := s\<lparr>rs_durable := fresh\<rparr>\<rparr>"
      using assms(5) own by (auto simp: commit_region_def split: prod.splits)
    then show ?thesis
      using latch_caller [OF assms(1-3) l] stampLocked_inv [OF _ s] stampLocked_allowed [OF _ s]
      by auto
  next
    case False
    let ?w = "(fst (take_cancel op (w\<lparr>su_state := ch_to change,
                 su_revision := su_revision w + 1, su_pending := None\<rparr>)))\<lparr>su_mode := ModeReady\<rparr>"
    obtain s where s: "stampLocked E ?w = (w', s)" and
      base': "base' = base\<lparr>re_stamp := s\<lparr>rs_durable := True\<rparr>\<rparr>"
      using assms(5) own False by (auto simp: commit_region_def split: prod.splits)
    have f: "su_fault w = None" "op_issuedAt (su_ops w op) = 0" "su_operation w = Some op"
      using caller_owns [OF assms(1)] own assms(4) by (cases t; simp)+
    have p: "su_pending w = Some p \<Longrightarrow> ch_to change = ch_to (pe_change p)" for p
      using caller_owns(3) [OF assms(1)] own assms(3, 4) by (cases t) auto
    have D: "declared_ok D w" "doubt_ok R w" using assms(1) by (simp_all add: sup_inv_def)
    have "sup_inv D R ?w (F + {#Settled op#})"
    proof (rule caller_settles [OF assms(1)])
      show "same_rest w ?w" by (simp add: same_rest_def take_cancel_upd ops_upd_op)
      show "doubt_ok R ?w" using D(2) f by (simp add: doubt_ok_def take_cancel_upd ops_upd_op)
      show "declared_ok D ?w"
        using D f assms(2) by (auto simp: declared_ok_def take_cancel_upd ops_upd_op)
    qed (simp_all add: mode_ok_def f take_cancel_upd)
    moreover have "sup_allowed w ?w"
      using own False f p by (simp add: sup_allowed_def issuing_def take_cancel_upd)
    ultimately show ?thesis
      using stampLocked_inv [OF _ s] stampLocked_allowed [OF _ s] by (simp add: base')
  qed
qed

lemma adjudicate_inv:
  assumes "sup_inv D R w (F + {#Caller op (Some f) Plain#})" "target \<in> D"
    "adjudicate_region E op f outcome target base w = (w', base', lost, cancel)"
  shows "sup_inv D R w' (F + {#Settled op#} + {#Stamped (rs_seq (re_stamp base'))#}) \<and>
    sup_allowed w w' \<and> re_owner base' = re_owner base"
proof (cases "ownsLocked op w \<and> su_mode w = ModeExecuting")
  case False
  then obtain s where s: "stampLocked E w = (w', s)" and base': "base' = base\<lparr>re_stamp := s\<rparr>"
    using assms(3) by (auto simp: adjudicate_region_def split: prod.splits)
  show ?thesis using lost_region [OF assms(1) _ s] False by (simp add: base')
next
  case own: True
  have c: "su_fault w = Some f" "su_pending w = None" "su_revision w \<noteq> - 1"
      "op_issuedAt (su_ops w op) = 0" "su_operation w = Some op"
    using caller_owns [OF assms(1)] own by auto
  define st rv where "st = (if outcome \<noteq> AdjudicateRetain then target else su_state w)"
    and "rv = (if outcome \<noteq> AdjudicateRetain then su_revision w + 1 else su_revision w)"
  let ?w = "(fst (take_cancel op w))\<lparr>su_state := st, su_revision := rv, su_fault := None,
              su_mode := ModeReady\<rparr>"
  have eq: "(upd_op op g w)\<lparr>su_state := su_state w, su_revision := su_revision w,
       su_fault := None, su_mode := ModeReady\<rparr> =
    (upd_op op g w)\<lparr>su_fault := None, su_mode := ModeReady\<rparr>" for g
    by (simp add: upd_op_def)
  obtain s where s: "stampLocked E ?w = (w', s)" and
    base': "re_stamp base' = s\<lparr>rs_durable := True\<rparr>" "re_owner base' = re_owner base"
    using assms(3) own c
    by (auto simp: eq adjudicate_region_def Let_def st_def rv_def take_cancel_def split: prod.splits if_splits)
  have D: "declared_ok D w" "doubt_ok R w" using assms(1) by (simp_all add: sup_inv_def)
  have "sup_inv D R ?w (F + {#Settled op#})"
  proof (rule caller_settles [OF assms(1)])
    show "same_rest w ?w" by (simp add: same_rest_def take_cancel_upd ops_upd_op)
    show "doubt_ok R ?w" using D(2) c by (simp add: doubt_ok_def take_cancel_upd ops_upd_op)
    show "declared_ok D ?w"
      using D c assms(2) by (auto simp: declared_ok_def take_cancel_upd ops_upd_op st_def)
  qed (simp_all add: mode_ok_def c take_cancel_upd)
  moreover have "sup_allowed w ?w"
    using own c by (simp add: sup_allowed_def issuing_def take_cancel_upd st_def rv_def)
  ultimately show ?thesis
    using stampLocked_inv [OF _ s] stampLocked_allowed [OF _ s] by (simp add: base')
qed

section \<open>Goroutines\<close>

fun owner_of :: "work \<Rightarrow> nat option" where
  "owner_of (CallbackOf o') = Some o'"
| "owner_of (AdapterOf j own) = own"

lemma attached_Worker: "attached o' (Worker ch k) = (owner_of k = Some o')"
  by (cases k) auto

lemma add_callback_view [simp]:
  "su_mode (add_callback own w) = su_mode w" "su_state (add_callback own w) = su_state w"
  "su_fault (add_callback own w) = su_fault w" "su_pending (add_callback own w) = su_pending w"
  "su_operation (add_callback own w) = su_operation w" "su_nextOp (add_callback own w) = su_nextOp w"
  "su_live (add_callback own w) = su_live w" "su_nextChan (add_callback own w) = su_nextChan w"
  "su_revision (add_callback own w) = su_revision w" "su_records (add_callback own w) = su_records w"
  "su_maxRecords (add_callback own w) = su_maxRecords w"
  "su_nextRecord (add_callback own w) = su_nextRecord w"
  "su_journalBusy (add_callback own w) = su_journalBusy w"
  "su_recorderBusy (add_callback own w) = su_recorderBusy w"
  "su_journalRunning (add_callback own w) = su_journalRunning w"
  "su_recorderRunning (add_callback own w) = su_recorderRunning w"
  "su_execution (add_callback own w) = su_execution w"
  "su_incarnation (add_callback own w) = su_incarnation w"
  "su_restarts (add_callback own w) = su_restarts w" "su_attempt (add_callback own w) = su_attempt w"
  "op_issuedAt (su_ops (add_callback own w) o') = op_issuedAt (su_ops w o')"
  "op_returned (su_ops (add_callback own w) o') = op_returned (su_ops w o')"
  "op_revoked (su_ops (add_callback own w) o') = op_revoked (su_ops w o')"
  "op_change (su_ops (add_callback own w) o') = op_change (su_ops w o')"
  "op_callbacks (su_ops (add_callback own w) o') =
     op_callbacks (su_ops w o') + (if own = Some o' then 1 else 0)"
  by (auto simp: add_callback_def ops_upd_op split: option.split)

lemma running_starts:
  fixes w :: "('s, 'e, 'c, 't, 'v) sup"
  assumes "sup_inv D R w T" "w' = new_goroutine (set_running j True (add_callback own (set_gate j True w))) \<or>
    w' = new_goroutine (add_callback own w)"
  shows "doubt_ok R w'" "token_ok w t \<Longrightarrow> token_ok w' t"
proof -
  have v: "su_mode w' = su_mode w" "su_state w' = su_state w" "su_fault w' = su_fault w"
    "su_pending w' = su_pending w" "su_operation w' = su_operation w"
    "su_revision w' = su_revision w" "su_attempt w' = su_attempt w"
    "su_execution w' = su_execution w" "su_incarnation w' = su_incarnation w"
    "su_nextOp w' = su_nextOp w" "su_nextRecord w' = su_nextRecord w"
    "su_live w' = insert (su_nextChan w) (su_live w)"
    "op_returned (su_ops w' p) = op_returned (su_ops w p)"
    "op_revoked (su_ops w' p) = op_revoked (su_ops w p)"
    "op_issuedAt (su_ops w' p) = op_issuedAt (su_ops w p)"
    "op_change (su_ops w' p) = op_change (su_ops w p)" for p
    using assms(2) by (cases j; auto simp: new_goroutine_def set_running_def set_gate_def)+
  have r: "running i w \<Longrightarrow> running i w'" for i
    using assms(2)
    by (cases i; cases j; auto simp: new_goroutine_def set_running_def set_gate_def running_def)
  show "doubt_ok R w'"
    by (rule doubt_ok_keeps [of R w]) (use assms(1) in \<open>simp_all add: sup_inv_def v\<close>)
  have "stage_ok w' op s = stage_ok w op s" for op s
    by (rule stage_ok_cong) (simp_all add: v)
  then show "token_ok w t \<Longrightarrow> token_ok w' t"
    by (cases t) (auto simp: v r split: work.splits)
qed

lemma callback_starts:
  assumes "sup_inv D R w T" "su_operation w = Some op"
    "w' = new_goroutine (add_callback (Some op) w)"
  shows "sup_inv D R w' (T + {#Worker (su_nextChan w) (CallbackOf op)#})"
proof -
  have tok: "token_ok w' t" if "t \<in># T" for t
    using running_starts(2) [OF assms(1)] assms(3) sup_inv_token [OF assms(1) that] by blast
  have fresh: "su_nextChan w \<notin> su_live w" using assms(1) by (auto simp: sup_inv_def heap_ok_def)
  have "counts_ok w' (T + {#Worker (su_nextChan w) (CallbackOf op)#})"
    using assms(1) fresh unfolding sup_inv_def counts_ok_def
    by (auto simp: assms(3) new_goroutine_def)
  moreover have "mode_ok w' = mode_ok w"
    by (simp add: mode_ok_def assms(3) new_goroutine_def split: mode.split option.split)
  moreover have "heap_ok w'"
    using assms(1) by (auto simp: sup_inv_def heap_ok_def assms(3) new_goroutine_def less_Suc_eq)
  moreover have "declared_ok D w'" "ring_ok w'" "token_ok w' (Worker (su_nextChan w) (CallbackOf op))"
    using assms(1, 2)
    by (auto simp: sup_inv_def declared_ok_def ring_ok_def assms(3) new_goroutine_def)
  moreover have "doubt_ok R w'" using running_starts(1) [OF assms(1)] assms(3) by blast
  ultimately show ?thesis using assms(1) tok by (simp add: sup_inv_def)
qed

lemma adapter_starts:
  assumes "sup_inv D R w T" "\<not> gate_busy j w" "\<And>o'. own = Some o' \<Longrightarrow> Known o' \<in># T"
    "w' = new_goroutine (set_running j True (add_callback own (set_gate j True w)))"
  shows "sup_inv D R w' (T + {#Worker (su_nextChan w) (AdapterOf j own)#})"
proof -
  let ?t = "Worker (su_nextChan w) (AdapterOf j own)"
  note defs = assms(4) new_goroutine_def set_running_def set_gate_def
  have idle: "\<not> running j w"
    using assms(1, 2) by (auto simp: sup_inv_def heap_ok_def gate_busy_def running_def)
  have tok: "token_ok w' t" if "t \<in># T" for t
    using running_starts(2) [OF assms(1)] assms(4) sup_inv_token [OF assms(1) that] by blast
  have "token_ok w' ?t"
    using sup_inv_token [OF assms(1) assms(3)] by (auto simp: defs running_def)
  have none: "filter_mset (is_adapter j) T = {#}"
    unfolding none_in_filter
  proof
    fix t assume t: "t \<in># T"
    show "\<not> is_adapter j t"
    proof
      assume "is_adapter j t"
      then obtain ch own' where "t = Worker ch (AdapterOf j own')" by (auto elim: is_adapter.elims)
      then show False using sup_inv_token [OF assms(1) t] idle by simp
    qed
  qed
  have fresh: "su_nextChan w \<notin> su_live w" using assms(1) by (auto simp: sup_inv_def heap_ok_def)
  have "counts_ok w' (T + {#?t#})"
    using assms(1) fresh none unfolding sup_inv_def counts_ok_def
    by (auto simp: defs)
  moreover have "mode_ok w' = mode_ok w"
    by (simp add: mode_ok_def defs split: mode.split option.split)
  moreover have "heap_ok w'"
    using assms(1) by (auto simp: sup_inv_def heap_ok_def defs less_Suc_eq)
  moreover have "declared_ok D w'" "ring_ok w'"
    using assms(1) by (auto simp: sup_inv_def declared_ok_def ring_ok_def defs)
  moreover have "doubt_ok R w'" using running_starts(1) [OF assms(1)] assms(4) by blast
  ultimately show ?thesis
    using assms(1) tok \<open>token_ok w' ?t\<close> by (simp add: sup_inv_def)
qed

text \<open>The end of a goroutine: its operation is released when nothing else holds it.\<close>

lemma callbackReturned_view:
  "su_mode (callbackReturnedLocked own w) = su_mode w"
  "su_state (callbackReturnedLocked own w) = su_state w"
  "su_fault (callbackReturnedLocked own w) = su_fault w"
  "su_pending (callbackReturnedLocked own w) = su_pending w"
  "su_nextOp (callbackReturnedLocked own w) = su_nextOp w"
  "su_live (callbackReturnedLocked own w) = su_live w"
  "su_nextChan (callbackReturnedLocked own w) = su_nextChan w"
  "su_revision (callbackReturnedLocked own w) = su_revision w"
  "su_records (callbackReturnedLocked own w) = su_records w"
  "su_maxRecords (callbackReturnedLocked own w) = su_maxRecords w"
  "su_nextRecord (callbackReturnedLocked own w) = su_nextRecord w"
  "su_journalBusy (callbackReturnedLocked own w) = su_journalBusy w"
  "su_recorderBusy (callbackReturnedLocked own w) = su_recorderBusy w"
  "su_journalRunning (callbackReturnedLocked own w) = su_journalRunning w"
  "su_recorderRunning (callbackReturnedLocked own w) = su_recorderRunning w"
  "su_execution (callbackReturnedLocked own w) = su_execution w"
  "su_incarnation (callbackReturnedLocked own w) = su_incarnation w"
  "su_restarts (callbackReturnedLocked own w) = su_restarts w"
  "su_attempt (callbackReturnedLocked own w) = su_attempt w"
  "op_issuedAt (su_ops (callbackReturnedLocked own w) o') = op_issuedAt (su_ops w o')"
  "op_returned (su_ops (callbackReturnedLocked own w) o') = op_returned (su_ops w o')"
  "op_revoked (su_ops (callbackReturnedLocked own w) o') = op_revoked (su_ops w o')"
  "op_change (su_ops (callbackReturnedLocked own w) o') = op_change (su_ops w o')"
  "op_callbacks (su_ops (callbackReturnedLocked own w) o') =
     op_callbacks (su_ops w o') - (if own = Some o' then 1 else 0)"
  "su_operation (callbackReturnedLocked own w) =
     (case own of
        Some o' \<Rightarrow> if su_operation w = Some o' \<and> op_returned (su_ops w o') \<and>
                     op_callbacks (su_ops w o') = 1 then None else su_operation w
      | None \<Rightarrow> su_operation w)"
  by (auto simp: callbackReturnedLocked_def Let_def ops_upd_op split: option.split)

text \<open>The tokens that rely on the operation survive the end of a worker.\<close>

lemma worker_ends:
  assumes "sup_inv D R w (F + {#Worker ch k#})"
    and live: "su_live w' = su_live w - {ch}"
    and op: "su_operation w' = su_operation (callbackReturnedLocked (owner_of k) w)"
    and ops: "\<And>o'. op_callbacks (su_ops w' o') =
        op_callbacks (su_ops (callbackReturnedLocked (owner_of k) w) o')"
      "\<And>o'. op_returned (su_ops w' o') = op_returned (su_ops w o')"
      "\<And>o'. op_revoked (su_ops w' o') = op_revoked (su_ops w o')"
      "\<And>o'. op_change (su_ops w' o') = op_change (su_ops w o')"
      "\<And>o'. op_issuedAt (su_ops w' o') = op_issuedAt (su_ops w o')"
    and rest: "su_mode w' = su_mode w" "su_state w' = su_state w" "su_fault w' = su_fault w"
      "su_pending w' = su_pending w" "su_nextOp w' = su_nextOp w"
      "su_nextChan w' = su_nextChan w" "su_revision w' = su_revision w"
      "su_records w' = su_records w" "su_maxRecords w' = su_maxRecords w"
      "su_nextRecord w' = su_nextRecord w" "su_attempt w' = su_attempt w"
      "su_execution w' = su_execution w" "su_incarnation w' = su_incarnation w"
    and gates: "su_journalBusy w' = su_journalRunning w'" "su_recorderBusy w' = su_recorderRunning w'"
      "\<And>j. running j w' = (running j w \<and> \<not> is_adapter j (Worker ch k :: ('s, 'e) token))"
  shows "sup_inv D R (w' :: ('s, 'e, 'c, 't, 'v) sup) F"
proof -
  note c = callbackReturned_view
  have cnt: "counts_ok w (F + {#Worker ch k#})" using assms(1) by (simp add: sup_inv_def)
  have not_here: "\<not> works_at ch t" if t: "t \<in># F" for t
  proof
    assume "works_at ch t"
    moreover obtain F' where "F = F' + {#t#}" using multi_split [OF t] by blast
    moreover have "size (filter_mset (works_at ch) (F + {#Worker ch k#})) =
        (if ch \<in> su_live w then 1 else 0)"
      using cnt unfolding counts_ok_def by blast
    ultimately show False by (simp split: if_splits)
  qed
  have not_same: "\<not> is_adapter j t" if j: "is_adapter j (Worker ch k :: ('s, 'e) token)" and t: "t \<in># F" for j t
  proof
    assume "is_adapter j t"
    moreover obtain F' where "F = F' + {#t#}" using multi_split [OF t] by blast
    moreover have "size (filter_mset (is_adapter j) (F + {#Worker ch k#})) \<le> 1"
      using cnt unfolding counts_ok_def by blast
    ultimately show False using j by simp
  qed
  have keeps: "su_operation w' = Some o'"
    if "su_operation w = Some o'" "\<not> op_returned (su_ops w o') \<or> (\<exists>t \<in># F. attached o' t)" for o'
  proof -
    have "op_callbacks (su_ops w o') \<noteq> 1" if a: "owner_of k = Some o'" "attached o' t" and t: "t \<in># F" for t
    proof -
      obtain F' where "F = F' + {#t#}" using multi_split [OF t] by blast
      moreover have "op_callbacks (su_ops w o') =
          int (size (filter_mset (attached o') (F + {#Worker ch k#})))"
        using cnt unfolding counts_ok_def by blast
      ultimately show ?thesis using a by (simp add: attached_Worker)
    qed
    then show ?thesis using that by (auto simp: op c split: option.split)
  qed
  have tok: "token_ok w' t" if "t \<in># F" for t
  proof (cases t)
    case (Caller o' f s)
    have "stage_ok w' o' s = stage_ok w o' s" by (rule stage_ok_cong) (simp_all add: ops rest)
    then show ?thesis
      using Caller sup_inv_token [OF assms(1), of t] that keeps [of o'] by (auto simp: ops rest)
  next
    case (Settled o')
    then show ?thesis using sup_inv_token [OF assms(1), of t] that keeps [of o'] by (auto simp: ops rest)
  next
    case (Worker ch' k')
    then have "ch' \<in> su_live w'"
      using sup_inv_token [OF assms(1), of t] that not_here [OF that] by (simp add: live)
    moreover have "su_operation w' = Some o'" if "k' = CallbackOf o'" for o'
      using sup_inv_token [OF assms(1), of t] \<open>t \<in># F\<close> keeps [of o'] that Worker by fastforce
    moreover have "running j w'" if "k' = AdapterOf j own" for j own
      using sup_inv_token [OF assms(1), of t] \<open>t \<in># F\<close> not_same [of j t] that Worker
      by (auto simp: gates)
    ultimately show ?thesis
      using sup_inv_token [OF assms(1), of t] that Worker by (auto simp: rest split: work.splits)
  qed (use sup_inv_token [OF assms(1), of t] that in \<open>simp_all add: rest\<close>)
  have "size (filter_mset (is_adapter j) F) \<le> 1" for j
  proof -
    have "size (filter_mset (is_adapter j) F) \<le> size (filter_mset (is_adapter j) (F + {#Worker ch k#}))"
      by simp
    also have "\<dots> \<le> 1" using cnt unfolding counts_ok_def by blast
    finally show ?thesis .
  qed
  then have "counts_ok w' F"
    using cnt not_here unfolding counts_ok_def
    by (auto simp: ops c attached_Worker live none_in_filter split: if_splits)
  moreover have "mode_ok w'"
    using assms(1) keeps by (auto simp: sup_inv_def mode_ok_def ops rest split: mode.splits option.splits)
  moreover have "declared_ok D w'" "ring_ok w'" "heap_ok w'"
    using assms(1)
    by (auto simp: sup_inv_def declared_ok_def ring_ok_def heap_ok_def ops rest op live gates(1, 2) c
        split: option.splits if_splits)
  moreover have "doubt_ok R w'"
  proof (rule doubt_ok_keeps)
    show "doubt_ok R w" using assms(1) by (simp add: sup_inv_def)
    show "su_operation w = Some o'" if "su_operation w' = Some o'" for o'
      using that by (simp add: op c split: option.splits if_splits)
  qed (simp_all add: rest ops)
  ultimately show ?thesis using tok by (simp add: sup_inv_def)
qed

lemma send_outcome_inv:
  fixes w :: "('s, 'e, 'c, 't, 'v) sup"
  assumes "sup_inv D R w (F + {#Worker ch (CallbackOf op)#})"
  shows "sup_inv D R (send_outcome op ch out w) F \<and> sup_allowed w (send_outcome op ch out w)"
proof
  note defs = send_outcome_def callback_ended_def
  show "sup_inv D R (send_outcome op ch out w) F"
  proof (rule worker_ends [OF assms])
    show "su_journalBusy (send_outcome op ch out w) = su_journalRunning (send_outcome op ch out w)"
      "su_recorderBusy (send_outcome op ch out w) = su_recorderRunning (send_outcome op ch out w)"
      using assms by (simp_all add: defs callbackReturned_view sup_inv_def heap_ok_def)
    show "running j (send_outcome op ch out w) =
        (running j w \<and> \<not> is_adapter j (Worker ch (CallbackOf op) :: ('s, 'e) token))" for j
      by (simp add: defs callbackReturned_view running_def)
  qed (simp_all add: defs callbackReturned_view)
  show "sup_allowed w (send_outcome op ch out w)"
    by (simp add: defs callbackReturned_view sup_allowed_def)
qed

lemma adapter_ends:
  fixes w :: "('s, 'e, 'c, 't, 'v) sup"
  assumes "sup_inv D R w (F + {#Worker ch (AdapterOf j own)#})"
    "w' = callback_ended ch (set_gate j False (set_running j False (callbackReturnedLocked own w)))"
  shows "sup_inv D R w' F \<and> sup_allowed w w'"
proof
  note defs = assms(2) callback_ended_def set_gate_def set_running_def
  show "sup_inv D R w' F"
  proof (rule worker_ends [OF assms(1)])
    show "su_journalBusy w' = su_journalRunning w'" "su_recorderBusy w' = su_recorderRunning w'"
      using assms(1) by (simp_all add: defs callbackReturned_view sup_inv_def heap_ok_def)
    show "running i w' = (running i w \<and> \<not> is_adapter i (Worker ch (AdapterOf j own) :: ('s, 'e) token))"
      for i
      by (auto simp: defs callbackReturned_view running_def)
  qed (simp_all add: defs callbackReturned_view)
  show "sup_allowed w w'"
    by (simp add: defs callbackReturned_view sup_allowed_def)
qed

lemma operationReturned_inv:
  assumes "sup_inv D R w (F + {#Settled op#})"
  shows "sup_inv D R (operationReturned op w) F \<and> sup_allowed w (operationReturned op w)"
proof -
  let ?w = "operationReturned op w"
  have op: "su_operation w = Some op" "su_mode w \<noteq> ModeExecuting"
    using sup_inv_token [OF assms, of "Settled op"] by simp_all
  have ops: "op_callbacks (su_ops ?w o') = op_callbacks (su_ops w o')"
    "op_revoked (su_ops ?w o') = op_revoked (su_ops w o')"
    "op_change (su_ops ?w o') = op_change (su_ops w o')"
    "op_issuedAt (su_ops ?w o') = op_issuedAt (su_ops w o')" for o'
    by (simp_all add: operationReturned_def Let_def ops_upd_op)
  have view: "su_mode ?w = su_mode w" "su_state ?w = su_state w" "su_fault ?w = su_fault w"
    "su_pending ?w = su_pending w" "su_nextOp ?w = su_nextOp w" "su_live ?w = su_live w"
    "su_nextChan ?w = su_nextChan w" "su_revision ?w = su_revision w"
    "su_records ?w = su_records w" "su_maxRecords ?w = su_maxRecords w"
    "su_nextRecord ?w = su_nextRecord w" "su_journalBusy ?w = su_journalBusy w"
    "su_recorderBusy ?w = su_recorderBusy w" "su_journalRunning ?w = su_journalRunning w"
    "su_recorderRunning ?w = su_recorderRunning w" "su_execution ?w = su_execution w"
    "su_incarnation ?w = su_incarnation w" "su_restarts ?w = su_restarts w"
    "su_attempt ?w = su_attempt w"
    "su_operation ?w = (if op_callbacks (su_ops w op) = 0 then None else Some op)"
    by (simp_all add: operationReturned_def Let_def ops_upd_op op)
  have cnt: "op_callbacks (su_ops w op) = int (size (filter_mset (attached op) F))"
    using assms by (simp add: sup_inv_def counts_ok_def)
  have tok: "token_ok ?w t" if t: "t \<in># F" for t
  proof (cases t)
    case (Worker ch k)
    have "op_callbacks (su_ops w op) \<noteq> 0" if "k = CallbackOf o'" for o'
    proof -
      have "o' = op"
        using sup_inv_token [OF assms, of t] t Worker that op by simp
      moreover obtain F' where "F = F' + {#t#}" using multi_split [OF t] by blast
      ultimately show ?thesis using cnt Worker that by simp
    qed
    then show ?thesis
      using sup_inv_token [OF assms, of t] t Worker op
      by (auto simp: view running_def split: work.splits)
  qed (use other_tokens_not_caller [OF assms _ t] sup_inv_token [OF assms, of t] t
       in \<open>auto simp: view\<close>)
  have "filter_mset is_caller F = {#}"
    using other_tokens_not_caller [OF assms] by (simp add: none_in_filter)
  then have "size (filter_mset is_caller F) \<le> 1" by (simp only: size_empty le0)
  then have "counts_ok ?w F" using assms by (simp add: sup_inv_def counts_ok_def ops view)
  moreover have "mode_ok ?w"
    using assms op by (auto simp: sup_inv_def mode_ok_def view split: mode.splits)
  moreover have "declared_ok D ?w" "ring_ok ?w" "heap_ok ?w"
    using assms by (auto simp: sup_inv_def declared_ok_def ring_ok_def heap_ok_def ops view op split: if_splits)
  moreover have "doubt_ok R ?w"
    by (rule doubt_ok_keeps [of R w])
      (use assms in \<open>simp_all add: sup_inv_def view ops op split: if_splits\<close>)
  ultimately show ?thesis using tok by (simp add: sup_inv_def sup_allowed_def view)
qed

section \<open>Steps the rule of programs asks for\<close>

lemma sup_allowed_ignores [simp]:
  "sup_allowed w (w\<lparr>su_app := a\<rparr>)" "sup_allowed w (w\<lparr>su_failures := fs\<rparr>)"
  "sup_allowed w (w\<lparr>su_timer := tm\<rparr>)"
  "sup_allowed w (w\<lparr>su_ctxs := cs, su_nextCtx := n\<rparr>)"
  "sup_allowed w (w\<lparr>su_journalError := s\<rparr>)"
  "sup_allowed w (w\<lparr>su_recorderError := s, su_recorderFailures := q\<rparr>)"
  "sup_allowed w (cancel_ctx c w)" "sup_allowed w (end_ctx c x w)"
  "sup_allowed w (upd_op o' f w)" "sup_allowed w (reportingReturned w)"
  by (simp_all add: sup_allowed_def cancel_ctx_def end_ctx_def reportingReturned_def)

end
