(* ===== verification/Super_Programs.thy ===== *)
theory Super_Programs
  imports Super_Regions
begin

text \<open>
  Every goroutine of a Supervisor is a safe program: the rule \<open>tokens.ok\<close> for each driver.

  \<open>safe D R T p\<close> is the rule's judgement: holding the tokens \<open>T\<close>, the program \<open>p\<close> keeps the
  invariant with the declared states \<open>D\<close> and the external rows \<open>R\<close>, makes only allowed steps, and never reads through a nil pointer.
  The lemmas go up the call tree of the code, with the rest \<open>k\<close> of the caller as a hypothesis.
\<close>

definition no_panic :: "('s, 'e) call_result \<Rightarrow> bool" where
  "no_panic r \<longleftrightarrow> r \<noteq> NilDereference"

lemma no_panic_simps [simp]:
  "no_panic (ResultOf r)" "no_panic (FaultOf f)" "no_panic Ended" "\<not> no_panic NilDereference"
  by (simp_all add: no_panic_def)

abbreviation safe ::
    "'s set \<Rightarrow> ('s, 'e) routes \<Rightarrow> ('s, 'e) token multiset \<Rightarrow>
      ('s, 'e, 'c, 't, 'v) sprog \<Rightarrow> bool" where
  "safe D R \<equiv> tokens.ok (sup_inv D R) sup_allowed no_panic"

section \<open>Small pieces\<close>

lemma safe_Return [simp]: "no_panic r \<Longrightarrow> safe D R T (Return r)"
  by (rule sup.ok_Return)

lemma safe_frame: "safe D R T p \<Longrightarrow> safe D R (T + X) p"
  by (rule sup.ok_frame)

lemma safe_reading: "(\<And>w. safe D R T (f w)) \<Longrightarrow> safe D R T (locked (\<lambda>w. (w, f w)))"
  by (rule sup.ok_reading) simp_all

text \<open>A piece that changes only what the invariant does not see.\<close>

lemma safe_quiet:
  assumes "\<And>w. same_view w (g w)" "\<And>w. sup_allowed w (g w)" "\<And>w. safe D R T (f w)"
  shows "safe D R T (locked (\<lambda>w. (g w, f w)))"
  using assms sup_inv_same_view [OF assms(1)] by (intro sup.ok_locked exI [of _ T]) auto

lemma same_view_ctx [simp]: "same_view w (cancel_ctx c w)"
  by (simp add: same_view_def cancel_ctx_def end_ctx_def)

lemma safe_cancelling: "safe D R T k \<Longrightarrow> safe D R T (cancelling c k)"
  by (cases c) (auto simp: cancelling_def intro: safe_quiet)

lemma completed_fields [simp]:
  "re_stamp (completed t r) = re_stamp r" "re_owner (completed t r) = re_owner r"
  "re_reporting (completed t r) = re_reporting r"
  by (simp_all add: completed_def Let_def)

lemma known_completed [simp]: "known_result T (completed t r) = known_result T r"
  by (simp add: known_result_def)

lemma safe_completeResult: "(\<And>t. safe D R T (k (completed t r))) \<Longrightarrow> safe D R T (completeResult E r k)"
  unfolding completeResult_def by (rule safe_reading)

lemma safe_run_callback: "(\<And>out. safe D R T (k out)) \<Longrightarrow> safe D R T (run_callback act k)"
  unfolding run_callback_def
  by (rule sup.ok_locked) (auto split: prod.splits intro!: exI [of _ T])

lemma safe_with_timeout: "(\<And>c. safe D R T (k c)) \<Longrightarrow> safe D R T (with_timeout k)"
  unfolding with_timeout_def by (rule sup.ok_locked) (auto intro!: exI [of _ T])

section \<open>Adapters\<close>

lemma safe_deliver_finish:
  fixes D :: "'s set" and failure :: "('s, 'e) serr option"
  shows "safe D R {#Worker ch (AdapterOf j own)#}
    (deliver_finish own j ch failure :: ('s, 'e, 'c, 't, 'v) sprog)"
  unfolding deliver_finish_def
proof (rule sup.ok_locked)
  fix w :: "('s, 'e, 'c, 't, 'v) sup" and F w' and p :: "('s, 'e, 'c, 't, 'v) sprog"
  assume I: "sup_inv D R w (F + {#Worker ch (AdapterOf j own)#})" and p:
    "(callback_ended ch (set_gate j False (set_running j False (callbackReturnedLocked own w))),
      locked (\<lambda>w. (w\<lparr>su_failures := (su_failures w)(ch := Some failure)\<rparr>, Return Ended))) = (w', p)"
  have "safe D R {#} (locked (\<lambda>w. (w\<lparr>su_failures := (su_failures w)(ch := Some failure)\<rparr>,
      Return Ended)))"
    by (rule safe_quiet) (simp_all add: same_view_def)
  then show "\<exists>T'. sup_inv D R w' (F + T') \<and> sup_allowed w w' \<and> safe D R T' p"
    using adapter_ends [OF I refl] p by (intro exI [of _ "{#}"]) auto
qed

definition delivers :: "'s set \<Rightarrow> ('s, 'e) routes \<Rightarrow> ('s, 'e, 'c, 't, 'v) delivery \<Rightarrow> bool" where
  "delivers D R body \<longleftrightarrow> (\<forall>T finish. (\<forall>out. safe D R T (finish out)) \<longrightarrow> safe D R T (body finish))"

lemma delivers_callback: "delivers D R (run_callback act)"
  by (simp add: delivers_def safe_run_callback)

lemma safe_deliver_worker:
  assumes "delivers D R body"
  shows "safe D R {#Worker ch (AdapterOf j own)#} (deliver_worker ctx own j body ch)"
  unfolding deliver_worker_def
proof (rule safe_reading)
  fix w
  show "safe D R {#Worker ch (AdapterOf j own)#}
      (case su_ctxs w ctx of
         Some x \<Rightarrow> deliver_finish own j ch (Some (contextFailure x))
       | None \<Rightarrow> body (\<lambda>out. deliver_finish own j ch (delivery_failure out)))"
    using assms [unfolded delivers_def, rule_format, OF safe_deliver_finish]
    by (simp add: safe_deliver_finish split: option.split)
qed

lemma safe_deliver_wait: "(\<And>f. safe D R T (k f)) \<Longrightarrow> safe D R T (deliver_wait ctx ch k)"
  unfolding deliver_wait_def
  by (rule sup.ok_awaiting) (auto split: option.splits intro!: exI [of _ T])

lemma safe_deliverAdapter:
  assumes "delivers D R body" "\<And>f. safe D R T (k f)" "\<And>o'. own = Some o' \<Longrightarrow> Known o' \<in># T"
  shows "safe D R T (deliverAdapter ctx own j body k)"
  unfolding deliverAdapter_def
proof (rule safe_reading)
  fix w
  let ?spawn = "\<lambda>w. if gate_busy j w then (w, k (Some (SSentinel ErrDeliveryBusy)), [])
    else (let ch = su_nextChan w; w = set_running j True (add_callback own (set_gate j True w)) in
          (new_goroutine w, deliver_wait ctx ch k, [deliver_worker ctx own j body ch]))"
  have "safe D R T (forked ?spawn)"
  proof (rule sup.ok_forked)
    fix w F w' p new
    assume I: "sup_inv D R w (F + T)" and s: "?spawn w = (w', p, new)"
    show "\<exists>T' Ts. sup_inv D R w' (F + T' + sum_list Ts) \<and> sup_allowed w w' \<and> safe D R T' p \<and>
        list_all2 (safe D R) Ts new"
    proof (cases "gate_busy j w")
      case True
      then show ?thesis
        using I s assms(2) by (intro exI [of _ T] exI [of _ "[]"]) auto
    next
      case False
      let ?w = "new_goroutine (set_running j True (add_callback own (set_gate j True w)))"
      have ch: "su_nextChan (set_running j True (add_callback own (set_gate j True w))) = su_nextChan w"
        by (simp add: set_running_def set_gate_def)
      have "sup_inv D R ?w (F + T + {#Worker (su_nextChan w) (AdapterOf j own)#})"
        by (rule adapter_starts [OF I False _ refl]) (use assms(3) in auto)
      moreover have "sup_allowed w ?w"
        by (simp add: sup_allowed_def new_goroutine_def set_running_def set_gate_def)
      ultimately show ?thesis
        using s False assms(2) safe_deliver_worker [OF assms(1)]
        by (intro exI [of _ T] exI [of _ "[{#Worker (su_nextChan w) (AdapterOf j own)#}]"])
           (auto simp: Let_def intro: safe_deliver_wait)
    qed
  qed
  then show "safe D R T (case su_ctxs w ctx of Some x \<Rightarrow> k (Some (contextFailure x))
      | None \<Rightarrow> forked ?spawn)"
    using assms(2) by (simp split: option.split)
qed

section \<open>Records and the Journal\<close>

lemma safe_recordResult:
  assumes "known_result T r" "safe D R T k"
  shows "safe D R T (recordResult E kind r k)"
  unfolding recordResult_def
proof (rule sup.ok_locked)
  fix w F w' p
  let ?deliver = "\<lambda>rec. case se_recorder E of
      None \<Rightarrow> k
    | Some recorder \<Rightarrow>
        with_timeout (\<lambda>ctx. deliverAdapter ctx (re_owner r) False
          (run_callback (recorder (se_background E) rec))
          (\<lambda>failure. case failure of
             None \<Rightarrow> cancelling (Some ctx) k
           | Some f \<Rightarrow> locked (\<lambda>w.
               (w\<lparr>su_recorderError := se_text E f,
                  su_recorderFailures := if su_recorderFailures w < - 1
                    then su_recorderFailures w + 1 else su_recorderFailures w\<rparr>,
                cancelling (Some ctx) k))))"
  assume I: "sup_inv D R w (F + T)" and
    p: "(case recordResultLocked E kind r w of (w, None) \<Rightarrow> (w, k) | (w, Some rec) \<Rightarrow> (w, ?deliver rec)) = (w', p)"
  then obtain rec where l: "recordResultLocked E kind r w = (w', rec)"
    and p: "p = (case rec of None \<Rightarrow> k | Some rec \<Rightarrow> ?deliver rec)"
    by (auto split: prod.splits option.splits)
  have "safe D R T (?deliver rec)" for rec
  proof (cases "se_recorder E")
    case (Some recorder)
    have "safe D R T (case failure of
             None \<Rightarrow> cancelling (Some ctx) k
           | Some f \<Rightarrow> locked (\<lambda>w.
               (w\<lparr>su_recorderError := se_text E f,
                  su_recorderFailures := if su_recorderFailures w < - 1
                    then su_recorderFailures w + 1 else su_recorderFailures w\<rparr>,
                cancelling (Some ctx) k)))" for ctx failure
      using assms(2)
      by (auto split: option.split intro!: safe_cancelling safe_quiet simp: same_view_def)
    then show ?thesis
      using Some assms(1)
      by (auto simp: known_result_def intro!: safe_with_timeout safe_deliverAdapter delivers_callback)
  qed (simp add: assms(2))
  then show "\<exists>T'. sup_inv D R w' (F + T') \<and> sup_allowed w w' \<and> safe D R T' p"
    using recordResultLocked_inv [OF I assms(1) l] assms(2) p
    by (intro exI [of _ T]) (auto split: option.split)
qed

lemma delivers_snapshot:
  "delivers D R (\<lambda>finish. locked (\<lambda>w. (w, run_callback (act w) finish)))"
  by (auto simp: delivers_def intro!: safe_reading safe_run_callback)

lemma safe_closeJournal:
  fixes k :: "('s, 'e, 'c, 't, 'v) sprog"
  assumes "safe D R T k" "\<And>o'. own = Some o' \<Longrightarrow> Known o' \<in># T"
  shows "safe D R T (closeJournal E m own k)"
proof (cases "se_journal E")
  case (Some journal)
  let ?after = "\<lambda>ctx failure. locked (\<lambda>w.
      case failure of
        None \<Rightarrow> (w\<lparr>su_journalError := []\<rparr>, cancelling (Some ctx) k)
      | Some f \<Rightarrow>
          (let w = w\<lparr>su_journalError := se_text E f\<rparr>;
               base = (baseResultLocked E m w)
                 \<lparr>re_owner := own, re_err := Some (SJoined [SSentinel ErrJournal, f])\<rparr> in
           case stampLocked E w of (w, stamp) \<Rightarrow>
             (w, completeResult E (base\<lparr>re_stamp := stamp\<rparr>) (\<lambda>base.
                   recordResult E RecordJournalError base (cancelling (Some ctx) k)))))"
  have "safe D R T (?after ctx failure)" for ctx failure
  proof (cases failure)
    case None
    then show ?thesis using assms(1) by (auto intro!: safe_quiet safe_cancelling simp: same_view_def)
  next
    case [simp]: (Some f)
    show ?thesis
    proof (rule sup.ok_locked)
      fix w :: "('s, 'e, 'c, 't, 'v) sup" and F w' and p :: "('s, 'e, 'c, 't, 'v) sprog"
      let ?w = "w\<lparr>su_journalError := se_text E f\<rparr>"
      assume I: "sup_inv D R w (F + T)" and
        p: "(case failure of
              None \<Rightarrow> (w\<lparr>su_journalError := []\<rparr>, cancelling (Some ctx) k)
            | Some f \<Rightarrow>
                (let w = w\<lparr>su_journalError := se_text E f\<rparr>;
                     base = (baseResultLocked E m w)
                       \<lparr>re_owner := own, re_err := Some (SJoined [SSentinel ErrJournal, f])\<rparr> in
                 case stampLocked E w of (w, stamp) \<Rightarrow>
                   (w, completeResult E (base\<lparr>re_stamp := stamp\<rparr>) (\<lambda>base.
                         recordResult E RecordJournalError base (cancelling (Some ctx) k))))) = (w', p)"
      obtain stamp where st: "stampLocked E ?w = (w', stamp)" and
        p: "p = completeResult E ((baseResultLocked E m ?w)\<lparr>re_owner := own,
              re_err := Some (SJoined [SSentinel ErrJournal, f]), re_stamp := stamp\<rparr>)
              (\<lambda>base. recordResult E RecordJournalError base (cancelling (Some ctx) k))"
        using p by (auto simp: Let_def split: prod.splits)
      have "safe D R (T + {#Stamped (rs_seq stamp)#}) p"
        unfolding p
        by (intro safe_completeResult safe_recordResult safe_cancelling safe_frame [OF assms(1)])
           (use assms(2) in \<open>auto simp: known_result_def\<close>)
      moreover have "sup_inv D R w' (F + T + {#Stamped (rs_seq stamp)#})"
        by (rule stampLocked_inv [OF _ st]) (simp add: I)
      moreover have "sup_allowed w w'"
        by (rule stampLocked_allowed [OF _ st]) simp
      ultimately show "\<exists>T'. sup_inv D R w' (F + T') \<and> sup_allowed w w' \<and> safe D R T' p"
        by (intro exI [of _ "T + {#Stamped (rs_seq stamp)#}"]) (simp add: ac_simps)
    qed
  qed
  then show ?thesis
    unfolding closeJournal_def Some option.case
    using assms(2) by (intro safe_with_timeout safe_deliverAdapter delivers_snapshot) auto
qed (simp add: closeJournal_def assms(1))

section \<open>The end of a public call\<close>

text \<open>What a decision leaves for \<open>super_finalize\<close>: an owner that is settled, unless the result only
  borrows it for reporting.\<close>

definition finishing :: "('s, 'e) token multiset \<Rightarrow> ('s, 'e) sresult \<Rightarrow> bool" where
  "finishing T r \<longleftrightarrow>
     known_result T r \<and>
     (\<not> re_reporting r \<longrightarrow> (\<forall>op. re_owner r = Some op \<longrightarrow> (\<exists>X. T = X + {#Settled op#})))"

definition finalizes ::
    "'s set \<Rightarrow> ('s, 'e) routes \<Rightarrow> (('s, 'e) sresult \<Rightarrow> ('s, 'e, 'c, 't, 'v) sprog) \<Rightarrow> bool" where
  "finalizes D R k \<longleftrightarrow> (\<forall>T r. finishing T r \<longrightarrow> safe D R T (k r))"

lemma safe_closeJournalAfter:
  "known_result T r \<Longrightarrow> safe D R T k \<Longrightarrow> safe D R T (closeJournalAfter E m r k)"
  by (auto simp: closeJournalAfter_def known_result_def intro!: safe_closeJournal)

lemma same_view_reportingReturned [simp]: "same_view w (reportingReturned w)"
  by (simp add: same_view_def reportingReturned_def)

lemma safe_operationReturned:
  fixes k :: "('s, 'e, 'c, 't, 'v) sprog"
  assumes "safe D R T k"
  shows "safe D R (T + {#Settled op#}) (locked (\<lambda>w. (operationReturned op w, k)))"
proof (rule sup.ok_locked)
  fix w :: "('s, 'e, 'c, 't, 'v) sup" and F w' and p :: "('s, 'e, 'c, 't, 'v) sprog"
  assume "sup_inv D R w (F + (T + {#Settled op#}))" and p: "(operationReturned op w, k) = (w', p)"
  then have I: "sup_inv D R w ((F + T) + {#Settled op#})" by (simp add: ac_simps)
  show "\<exists>T'. sup_inv D R w' (F + T') \<and> sup_allowed w w' \<and> safe D R T' p"
    using operationReturned_inv [OF I] p assms by (intro exI [of _ T]) auto
qed

lemma finalizes_super_finalize:
  fixes m :: "('s, 'e, 'c, 't, 'v) smachine"
  shows "finalizes D R (super_finalize E m kind)"
  unfolding finalizes_def super_finalize_def Let_def
proof (intro allI impI safe_completeResult safe_closeJournalAfter safe_recordResult)
  fix T and r :: "('s, 'e) sresult" and t
  assume r: "finishing T r"
  then show "known_result T (completed t r)" "known_result T (completed t r)"
    by (simp_all add: finishing_def)
  let ?k = "Return (ResultOf ((completed t r)\<lparr>re_owner := None, re_reporting := False\<rparr>))
      :: ('s, 'e, 'c, 't, 'v) sprog"
  show "safe D R T (if re_reporting (completed t r) then locked (\<lambda>w. (reportingReturned w, ?k))
      else case re_owner (completed t r) of
             Some op \<Rightarrow> locked (\<lambda>w. (operationReturned op w, ?k)) | None \<Rightarrow> ?k)"
  proof (cases "re_reporting r")
    case True
    then show ?thesis by (simp add: safe_quiet)
  next
    case False
    have "safe D R T (locked (\<lambda>w. (operationReturned op w, ?k)))" if own: "re_owner r = Some op" for op
    proof -
      obtain X where "T = X + {#Settled op#}" using r False own by (auto simp: finishing_def)
      then show ?thesis using safe_operationReturned [of D R X ?k op] by simp
    qed
    with False show ?thesis by (simp split: option.split)
  qed
qed

text \<open>The three ways a decision ends.\<close>

lemma finalizes_refused:
  assumes "finalizes D R k" "re_owner r = None" "\<not> re_reporting r"
  shows "safe D R {#Stamped (rs_seq (re_stamp r))#} (k r)"
  using assms by (auto simp: finalizes_def finishing_def known_result_def)

lemma finalizes_settled:
  assumes "finalizes D R k" "re_owner r = Some op" "Known op \<in># X"
  shows "safe D R (X + {#Settled op#} + {#Stamped (rs_seq (re_stamp r))#}) (k r)"
proof -
  have "finishing (X + {#Settled op#} + {#Stamped (rs_seq (re_stamp r))#}) r"
    unfolding finishing_def known_result_def
    using assms(2, 3) by (auto intro!: exI [of _ "X + {#Stamped (rs_seq (re_stamp r))#}"])
  then show ?thesis using assms(1) by (simp add: finalizes_def)
qed

lemma finalizes_reporting:
  assumes "finalizes D R k" "re_reporting r" "known_result T r"
  shows "safe D R T (k r)"
  using assms by (auto simp: finalizes_def finishing_def)

lemma faultResult_fields [simp]:
  "re_stamp (faultResult base f) = re_stamp base" "re_owner (faultResult base f) = re_owner base"
  "re_reporting (faultResult base f) = re_reporting base"
  by (simp_all add: faultResult_def split: option.split)

lemma safe_latchResult:
  fixes k :: "('s, 'e) sresult \<Rightarrow> ('s, 'e, 'c, 't, 'v) sprog"
  assumes "finalizes D R k" "re_owner base = Some op" "Known op \<in># X" "ch_to change \<in> D"
    "fits R t change"
  shows "safe D R (X + {#Caller op f t#}) (latchResult E m base op change phase cause u k)"
  unfolding latchResult_def
proof (rule sup.ok_locked)
  fix w :: "('s, 'e, 'c, 't, 'v) sup" and F w' and p :: "('s, 'e, 'c, 't, 'v) sprog"
  assume I: "sup_inv D R w (F + (X + {#Caller op f t#}))" and
    p: "(case latchLocked E m (Some op) change phase cause u w of
         (w, fault, cancel, fresh) \<Rightarrow>
           (case stampLocked E w of (w, stamp) \<Rightarrow>
              (w, cancelling cancel
                    (k (faultResult (base\<lparr>re_stamp := stamp\<lparr>rs_durable := fresh\<rparr>\<rparr>) fault))))) = (w', p)"
  then obtain w1 fault cancel fresh stamp where
    l: "latchLocked E m (Some op) change phase cause u w = (w1, fault, cancel, fresh)" and
    s: "stampLocked E w1 = (w', stamp)" and
    p: "p = cancelling cancel
              (k (faultResult (base\<lparr>re_stamp := stamp\<lparr>rs_durable := fresh\<rparr>\<rparr>) fault))"
    by (auto split: prod.splits)
  let ?r = "faultResult (base\<lparr>re_stamp := stamp\<lparr>rs_durable := fresh\<rparr>\<rparr>) fault"
  have "sup_inv D R w ((F + X) + {#Caller op f t#})" using I by (simp add: ac_simps)
  from latch_caller [OF this assms(4, 5) l]
  have w1: "sup_inv D R w1 ((F + X) + {#Settled op#})" "sup_allowed w w1" by simp_all
  have "safe D R (X + {#Settled op#} + {#Stamped (rs_seq stamp)#}) p"
    unfolding p using finalizes_settled [OF assms(1), of ?r op X] assms(2, 3)
    by (intro safe_cancelling) simp
  then show "\<exists>T'. sup_inv D R w' (F + T') \<and> sup_allowed w w' \<and> safe D R T' p"
    using stampLocked_inv [OF w1(1) s] stampLocked_allowed [OF w1(2) s]
    by (intro exI [of _ "X + {#Settled op#} + {#Stamped (rs_seq stamp)#}"])
       (simp add: ac_simps add_mset_commute)
qed

section \<open>Callbacks\<close>

lemma safe_invoke_publish:
  "safe D R {#Worker ch (CallbackOf op)#}
     (invoke_publish E op change phase ch out :: ('s, 'e, 'c, 't, 'v) sprog)"
proof -
  have sent: "safe D R {#Worker ch (CallbackOf op)#}
      (locked (\<lambda>w. (send_outcome op ch out w, Return Ended)) :: ('s, 'e, 'c, 't, 'v) sprog)"
  proof (rule sup.ok_locked)
    fix w :: "('s, 'e, 'c, 't, 'v) sup" and F w' and p :: "('s, 'e, 'c, 't, 'v) sprog"
    assume I: "sup_inv D R w (F + {#Worker ch (CallbackOf op)#})" and
      p: "(send_outcome op ch out w, Return Ended) = (w', p)"
    show "\<exists>T'. sup_inv D R w' (F + T') \<and> sup_allowed w w' \<and> safe D R T' p"
      using send_outcome_inv [OF I] p by (intro exI [of _ "{#}"]) auto
  qed
  show ?thesis
    unfolding invoke_publish_def
  proof (rule sup.ok_locked)
    fix w :: "('s, 'e, 'c, 't, 'v) sup" and F w' and p :: "('s, 'e, 'c, 't, 'v) sprog"
    let ?late = "(resultFromChange E change)
                \<lparr>re_operation := op_id (su_ops w op), re_owner := Some op, re_phase := phase,
                  re_faulted := (su_mode w = ModeFaulted),
                  re_uncertain :=
                    (phase = PhaseIssue \<or> phase = PhaseVerify \<or> phase = PhasePostcondition),
                  re_err := cb_err out\<rparr>"
    let ?rest = "\<lambda>stamp. completeResult E (?late\<lparr>re_stamp := stamp\<rparr>) (\<lambda>late.
                  recordResult E RecordSecondaryCause late
                    (locked (\<lambda>w. (send_outcome op ch out w, Return Ended))))"
    assume I: "sup_inv D R w (F + {#Worker ch (CallbackOf op)#})" and
      p: "(if \<not> (op_abandoned (su_ops w op) \<and> cb_err out \<noteq> None)
           then (send_outcome op ch out w, Return Ended)
           else (let late = ?late in
                 case stampLocked E w of (w, stamp) \<Rightarrow>
                   (w, completeResult E (late\<lparr>re_stamp := stamp\<rparr>) (\<lambda>late.
                         recordResult E RecordSecondaryCause late
                           (locked (\<lambda>w. (send_outcome op ch out w, Return Ended))))))) = (w', p)"
    show "\<exists>T'. sup_inv D R w' (F + T') \<and> sup_allowed w w' \<and> safe D R T' p"
    proof (cases "op_abandoned (su_ops w op) \<and> cb_err out \<noteq> None")
      case False
      then show ?thesis
        using send_outcome_inv [OF I] p by (intro exI [of _ "{#}"]) (auto split: if_splits)
    next
      case True
      then obtain stamp where s: "stampLocked E w = (w', stamp)" and p: "p = ?rest stamp"
        using p by (auto simp: Let_def split: prod.splits if_splits)
      let ?T = "{#Worker ch (CallbackOf op)#} + {#Known op#} + {#Stamped (rs_seq stamp)#}"
      have "op < su_nextOp w"
        using sup_inv_operation [OF I] sup_inv_token [OF I, of "Worker ch (CallbackOf op)"] by simp
      then have "sup_inv D R w (F + {#Worker ch (CallbackOf op)#} + {#Known op#})"
        using I by (rule sup_inv_mono_known [rotated])
      from stampLocked_inv [OF this s] have "sup_inv D R w' (F + ?T)" by (simp add: ac_simps)
      moreover have "safe D R ?T p"
        unfolding p
        by (intro safe_completeResult safe_recordResult safe_frame sent)
           (simp add: known_result_def)
      ultimately show ?thesis
        using stampLocked_allowed [OF sup_allowed_refl s] by (intro exI [of _ ?T]) simp
    qed
  qed
qed

lemma safe_invoke_worker:
  "safe D R {#Worker ch (CallbackOf op)#}
     (invoke_worker E op change phase callback ch :: ('s, 'e, 'c, 't, 'v) sprog)"
  unfolding invoke_worker_def by (intro safe_run_callback safe_invoke_publish)

lemma safe_invoke_wait:
  fixes k :: "('s, 'e) callback_outcome \<Rightarrow> ('s, 'e, 'c, 't, 'v) sprog"
  assumes "\<And>out. safe D R T (k out)"
  shows "safe D R T (invoke_wait op ch k)"
  unfolding invoke_wait_def
proof (rule sup.ok_awaiting)
  fix w :: "('s, 'e, 'c, 't, 'v) sup" and F w' and p :: "('s, 'e, 'c, 't, 'v) sprog"
  assume I: "sup_inv D R w (F + T)" and
    p: "(case su_outcomes w ch of
         Some out \<Rightarrow> Some (w, locked (\<lambda>w. (w, k (timed_out (su_ctxs w (op_ctx (su_ops w op))) out))))
       | None \<Rightarrow>
           (case su_ctxs w (op_ctx (su_ops w op)) of
              Some x \<Rightarrow>
                Some (upd_op op (\<lambda>p. p\<lparr>op_abandoned := True\<rparr>) w,
                      k \<lparr>cb_err = Some (contextFailure x), cb_completed = False\<rparr>)
            | None \<Rightarrow> None)) = Some (w', p)"
  have "sup_inv D R w' (F + T)"
    using I p sup_inv_upd_op [of "\<lambda>p. p\<lparr>op_abandoned := True\<rparr>" D R op w "F + T"]
    by (auto split: option.splits)
  moreover have "sup_allowed w w'" using p by (auto split: option.splits)
  moreover have "safe D R T p" using p assms by (auto split: option.splits intro!: safe_reading)
  ultimately show "\<exists>T'. sup_inv D R w' (F + T') \<and> sup_allowed w w' \<and> safe D R T' p" by blast
qed

lemma safe_invoke:
  fixes k :: "('s, 'e) callback_outcome \<Rightarrow> ('s, 'e, 'c, 't, 'v) sprog"
  assumes "\<And>out. safe D R T (k out)" "ch_to change \<in> D" "Caller op f t \<in># T" "fits R t change"
  shows "safe D R T (invoke E op change phase callback k)"
  unfolding invoke_def
proof (rule safe_reading)
  fix w :: "('s, 'e, 'c, 't, 'v) sup"
  let ?spawn = "\<lambda>w. if \<not> ownsLocked op w \<or> su_mode w \<noteq> ModeExecuting
      then (w, k \<lparr>cb_err = Some (lost_ownership w), cb_completed = False\<rparr>, [])
      else (let ch = su_nextChan w;
                w = upd_op op (\<lambda>p. p\<lparr>op_change := change, op_phase := phase,
                      op_phaseAt := now E w, op_callbacks := op_callbacks p + 1\<rparr>) w in
            (new_goroutine w, invoke_wait op ch k, [invoke_worker E op change phase callback ch]))"
  have "safe D R T (forked ?spawn)"
  proof (rule sup.ok_forked)
    fix w :: "('s, 'e, 'c, 't, 'v) sup" and F w' and p :: "('s, 'e, 'c, 't, 'v) sprog" and new
    assume I: "sup_inv D R w (F + T)" and s: "?spawn w = (w', p, new)"
    show "\<exists>T' Ts. sup_inv D R w' (F + T' + sum_list Ts) \<and> sup_allowed w w' \<and> safe D R T' p \<and>
        list_all2 (safe D R) Ts new"
    proof (cases "\<not> ownsLocked op w \<or> su_mode w \<noteq> ModeExecuting")
      case True
      then show ?thesis using I s assms(1) by (intro exI [of _ T] exI [of _ "[]"]) auto
    next
      case False
      let ?ch = "su_nextChan w"
      let ?w1 = "upd_op op (\<lambda>p. p\<lparr>op_change := change, op_phase := phase, op_phaseAt := now E w\<rparr>) w"
      let ?w2 = "new_goroutine (add_callback (Some op) ?w1)"
      have w2: "?w2 = new_goroutine (upd_op op (\<lambda>p. p\<lparr>op_change := change, op_phase := phase,
                      op_phaseAt := now E w, op_callbacks := op_callbacks p + 1\<rparr>) w)"
        by (simp add: add_callback_def upd_op_def)
      have "sup_inv D R ?w1 (F + T)"
        by (rule sup_inv_op_change [where c = change and g = f and s = t])
          (use I assms(2-4) False in \<open>simp_all add: ownsLocked_def\<close>)
      moreover have "su_operation ?w1 = Some op" using False by (simp add: ownsLocked_def)
      ultimately have "sup_inv D R ?w2 (F + T + {#Worker ?ch (CallbackOf op)#})"
        using callback_starts [of D R ?w1 "F + T" op ?w2] by simp
      moreover have "sup_allowed w ?w2" by (simp add: sup_allowed_def new_goroutine_def)
      moreover have "w' = ?w2" "p = invoke_wait op ?ch k"
        "new = [invoke_worker E op change phase callback ?ch]"
        using s False w2 by (auto simp: Let_def)
      ultimately show ?thesis
        using assms(1)
        by (intro exI [of _ T] exI [of _ "[{#Worker ?ch (CallbackOf op)#}]"])
           (auto intro: safe_invoke_wait safe_invoke_worker)
    qed
  qed
  then show "safe D R T (case su_ctxs w (op_ctx (su_ops w op)) of
       Some x \<Rightarrow> k \<lparr>cb_err = Some (contextFailure x), cb_completed = False\<rparr>
     | None \<Rightarrow> forked ?spawn)"
    using assms(1) by (simp split: option.split)
qed

lemma safe_invoke_each:
  assumes "\<And>e. safe D R T (fail e)" "safe D R T k" "ch_to change \<in> D" "Caller op f t \<in># T"
    "fits R t change"
  shows "safe D R T (invoke_each E op change phase callbacks fail k)"
  using assms
  by (induction callbacks) (auto split: option.split intro!: safe_invoke)

lemma safe_if_ended:
  assumes "\<And>e. safe D R T (ended e)" "safe D R T k"
  shows "safe D R T (if_ended op ended k)"
  unfolding if_ended_def using assms by (intro safe_reading) (simp split: option.split)

lemma safe_runChecks:
  assumes "finalizes D R stop" "re_owner base = Some op" "Known op \<in># X" "ch_to change \<in> D"
    "fits R t change" "safe D R (X + {#Caller op f t#}) k"
  shows "safe D R (X + {#Caller op f t#})
    (runChecks E m op ctx base change phase checks data u stop k)"
  unfolding runChecks_def
  by (intro safe_invoke_each [where f = f and t = t] safe_latchResult) (use assms in simp_all)

section \<open>The ends of a decision\<close>

text \<open>A region that settles the operation and stamps the result, then the rest of the decision.\<close>

lemma safe_settling:
  fixes g :: "('s, 'e, 'c, 't, 'v) sup \<Rightarrow> ('s, 'e, 'c, 't, 'v) sup \<times> ('s, 'e, 'c, 't, 'v) sprog"
  assumes "\<And>w F w' p. sup_inv D R w (F + {#Caller op f t#}) \<Longrightarrow> g w = (w', p) \<Longrightarrow>
    \<exists>r :: ('s, 'e) sresult. sup_inv D R w' (F + {#Settled op#} + {#Stamped (rs_seq (re_stamp r))#}) \<and> sup_allowed w w' \<and>
      re_owner r = Some op \<and> safe D R (X + {#Settled op#} + {#Stamped (rs_seq (re_stamp r))#}) p"
  shows "safe D R (X + {#Caller op f t#}) (locked g)"
proof (rule sup.ok_locked)
  fix w :: "('s, 'e, 'c, 't, 'v) sup" and F w' and p :: "('s, 'e, 'c, 't, 'v) sprog"
  assume "sup_inv D R w (F + (X + {#Caller op f t#}))" and g: "g w = (w', p)"
  then have "sup_inv D R w ((F + X) + {#Caller op f t#})" by (simp add: ac_simps)
  from assms [OF this g] obtain r :: "('s, 'e) sresult" where
    "sup_inv D R w' ((F + X) + {#Settled op#} + {#Stamped (rs_seq (re_stamp r))#})"
    "sup_allowed w w'" "safe D R (X + {#Settled op#} + {#Stamped (rs_seq (re_stamp r))#}) p"
    by blast
  then show "\<exists>T'. sup_inv D R w' (F + T') \<and> sup_allowed w w' \<and> safe D R T' p"
    by (intro exI [of _ "X + {#Settled op#} + {#Stamped (rs_seq (re_stamp r))#}"])
       (simp add: ac_simps add_mset_commute)
qed

lemma safe_finishReady:
  fixes k :: "('s, 'e) sresult \<Rightarrow> ('s, 'e) sfault option \<Rightarrow> ('s, 'e, 'c, 't, 'v) sprog"
  assumes "re_owner base = Some op"
    "\<And>r fault. re_owner r = Some op \<Longrightarrow>
       safe D R (X + {#Settled op#} + {#Stamped (rs_seq (re_stamp r))#}) (k r fault)"
    and plain: "t = Plain \<or> t = Attempting a"
  shows "safe D R (X + {#Caller op None t#}) (finishReady E op base k)"
  unfolding finishReady_def
proof (rule safe_settling)
  fix w :: "('s, 'e, 'c, 't, 'v) sup" and F w' and p :: "('s, 'e, 'c, 't, 'v) sprog"
  assume I: "sup_inv D R w (F + {#Caller op None t#})" and
    "(case finishReady_region E op base w of
       (w, base, fault, cancel) \<Rightarrow> (w, cancelling cancel (k base fault))) = (w', p)"
  then obtain r fault cancel where f: "finishReady_region E op base w = (w', r, fault, cancel)"
    and p: "p = cancelling cancel (k r fault)" by (auto split: prod.splits)
  show "\<exists>r :: ('s, 'e) sresult. sup_inv D R w' (F + {#Settled op#} + {#Stamped (rs_seq (re_stamp r))#}) \<and> sup_allowed w w' \<and>
      re_owner r = Some op \<and> safe D R (X + {#Settled op#} + {#Stamped (rs_seq (re_stamp r))#}) p"
    using finishReady_inv [OF I f plain] assms(1, 2)
    by (intro exI [of _ r]) (simp add: p safe_cancelling)
qed

lemma safe_awaitVerification:
  fixes k :: "('s, 'e) sresult \<Rightarrow> ('s, 'e) sfault option \<Rightarrow> ('s, 'e, 'c, 't, 'v) sprog"
  assumes "re_owner base = Some op" "ch_to change \<in> D" "fits R (Issuing a) change"
    "\<And>r fault. re_owner r = Some op \<Longrightarrow>
       safe D R (X + {#Settled op#} + {#Stamped (rs_seq (re_stamp r))#}) (k r fault)"
  shows "safe D R (X + {#Caller op None (Issuing a)#}) (awaitVerification E op change row base k)"
  unfolding awaitVerification_def
proof (rule safe_settling)
  fix w :: "('s, 'e, 'c, 't, 'v) sup" and F w' and p :: "('s, 'e, 'c, 't, 'v) sprog"
  assume I: "sup_inv D R w (F + {#Caller op None (Issuing a)#})" and
    "(case awaitVerification_region E op change row base w of
       (w, base, fault, cancel) \<Rightarrow> (w, cancelling cancel (k base fault))) = (w', p)"
  then obtain r fault cancel where
    f: "awaitVerification_region E op change row base w = (w', r, fault, cancel)"
    and p: "p = cancelling cancel (k r fault)" by (auto split: prod.splits)
  show "\<exists>r :: ('s, 'e) sresult. sup_inv D R w' (F + {#Settled op#} + {#Stamped (rs_seq (re_stamp r))#}) \<and> sup_allowed w w' \<and>
      re_owner r = Some op \<and> safe D R (X + {#Settled op#} + {#Stamped (rs_seq (re_stamp r))#}) p"
    using awaitVerification_inv [OF I assms(2, 3) f] assms(1, 4)
    by (intro exI [of _ r]) (simp add: p safe_cancelling)
qed

lemma safe_super_commit:
  fixes k :: "('s, 'e) sresult \<Rightarrow> ('s, 'e, 'c, 't, 'v) sprog"
  assumes "finalizes D R k" "re_owner base = Some op" "Known op \<in># X" "ch_to change \<in> D"
    "fits R t change" "\<And>a. t \<noteq> Issuing a"
  shows "safe D R (X + {#Caller op None t#}) (super_commit E m op base change issued verified k)"
  unfolding super_commit_def
proof (intro safe_if_ended safe_latchResult safe_settling assms)
  fix w :: "('s, 'e, 'c, 't, 'v) sup" and F w' and p :: "('s, 'e, 'c, 't, 'v) sprog"
  assume I: "sup_inv D R w (F + {#Caller op None t#})" and
    "(case commit_region E m op base change issued w of
          (w, base, outcome, cancel) \<Rightarrow>
            (w, cancelling cancel
                  (case outcome of
                     Inl fault \<Rightarrow> k (faultResult base fault)
                   | Inr revision \<Rightarrow>
                       k (base\<lparr>re_phase := PhaseCommit, re_revision := revision,
                               re_issued := issued, re_verified := verified,
                               re_committed := True\<rparr>)))) = (w', p)"
  then obtain r out cancel where
    f: "commit_region E m op base change issued w = (w', r, out, cancel)" and
    p: "p = cancelling cancel
                  (case out of
                     Inl fault \<Rightarrow> k (faultResult r fault)
                   | Inr revision \<Rightarrow>
                       k (r\<lparr>re_phase := PhaseCommit, re_revision := revision,
                               re_issued := issued, re_verified := verified,
                               re_committed := True\<rparr>))"
    by (auto split: prod.splits)
  have r: "sup_inv D R w' (F + {#Settled op#} + {#Stamped (rs_seq (re_stamp r))#})"
    "sup_allowed w w'" "re_owner r = Some op"
    using commit_inv [OF I assms(4-6) f] assms(2) by simp_all
  have "safe D R (X + {#Settled op#} + {#Stamped (rs_seq (re_stamp r))#}) p"
    unfolding p
    using finalizes_settled [OF assms(1) _ assms(3), of "faultResult r fault" for fault]
      finalizes_settled [OF assms(1) _ assms(3), of "r\<lparr>re_phase := PhaseCommit,
         re_revision := revision, re_issued := issued, re_verified := verified,
         re_committed := True\<rparr>" for revision] r(3)
    by (auto split: sum.split intro!: safe_cancelling)
  with r show "\<exists>r :: ('s, 'e) sresult. sup_inv D R w' (F + {#Settled op#} + {#Stamped (rs_seq (re_stamp r))#}) \<and>
      sup_allowed w w' \<and> re_owner r = Some op \<and>
      safe D R (X + {#Settled op#} + {#Stamped (rs_seq (re_stamp r))#}) p" by blast
qed

section \<open>The decisions\<close>

text \<open>The states a machine's rows lead to are declared.\<close>

definition external_row :: "('s, 'e, 'c, 't, 'v) smachine \<Rightarrow> ('s, 'e) routes" where
  "external_row m s e i s' =
     list_ex (\<lambda>r. co_id r = i \<and> co_to r = s' \<and> co_issue r \<noteq> None) (slice (sm_rows m) (s, e))"

definition rows_declared :: "'s set \<Rightarrow> ('s, 'e) routes \<Rightarrow> ('s, 'e, 'c, 't, 'v) smachine \<Rightarrow> bool" where
  "rows_declared D R m \<longleftrightarrow>
     D = dom (sm_stateIndex m) \<and> R = external_row m \<and>
     (\<forall>key. \<forall>row \<in> set (slice (sm_rows m) key). co_to row \<in> D)"

lemma candidate_fields [simp]:
  "ch_to (candidate_change a row) = co_to row" "ch_transition (candidate_change a row) = co_id row"
  "at_from (candidate_change a row) = at_from a" "at_event (candidate_change a row) = at_event a"
  "attempt.truncate (candidate_change a row) = a"
  by (simp_all add: candidate_change_def attempt.defs change.defs)

lemma candidate_routed:
  "rows_declared D R m \<Longrightarrow> row \<in> set (slice (sm_rows m) (at_from a, at_event a)) \<Longrightarrow>
     co_issue row \<noteq> None \<Longrightarrow> routed R (candidate_change a row)"
  by (auto simp: rows_declared_def external_row_def list_ex_iff)


lemma safe_prepareIssue:
  fixes k :: "('s, 'e) serr option \<Rightarrow> ('s, 'e, 'c, 't, 'v) sprog"
  assumes "\<And>failure. safe D R (X + {#Caller op None (Issuing a)#}) (k failure)" "ch_to change \<in> D"
    "Known op \<in># X" "fits R (Issuing a) change"
  shows "safe D R (X + {#Caller op None (Attempting a)#}) (prepareIssue E m op ctx change k)"
  unfolding prepareIssue_def
proof (rule sup.ok_locked)
  fix w :: "('s, 'e, 'c, 't, 'v) sup" and F w' and p :: "('s, 'e, 'c, 't, 'v) sprog"
  let ?w1 = "upd_op op (\<lambda>p. p\<lparr>op_phase := PhaseIssue, op_phaseAt := now E w,
                                   op_issuedAt := now E w, op_change := change\<rparr>) w"
  let ?body = "\<lambda>journal finish. locked (\<lambda>w.
                    (w, if \<not> ownsLocked op w \<or> su_mode w \<noteq> ModeExecuting
                        then finish (Ret (Some (lost_ownership w)))
                        else run_callback (journal ctx (snapshotLocked E m w)) finish))"
  assume I': "sup_inv D R w (F + (X + {#Caller op None (Attempting a)#}))" and
    p: "(if \<not> ownsLocked op w \<or> su_mode w \<noteq> ModeExecuting then (w, k (Some (lost_ownership w)))
       else
         (let w = ?w1 in
          (w,
           case se_journal E of
             None \<Rightarrow> k None
           | Some journal \<Rightarrow>
               deliverAdapter (op_ctx (su_ops w op)) (Some op) True (?body journal)
                 (\<lambda>failure. k (map_option (\<lambda>f. SJoined [SSentinel ErrJournal, f]) failure))))) = (w', p)"
  have body: "delivers D R (?body journal)" for journal
    by (auto simp: delivers_def intro!: safe_reading safe_run_callback)
  have I: "sup_inv D R w ((F + X) + {#Caller op None (Attempting a)#})" using I' by (simp add: ac_simps)
  have "sup_inv D R w' ((F + X) + {#Caller op None (Issuing a)#})"
  proof (cases "ownsLocked op w \<and> su_mode w = ModeExecuting")
    case True
    then show ?thesis using issue_prepared [OF I _ assms(2, 4)] p by (auto simp: Let_def)
  next
    case False
    then have "su_mode w \<noteq> ModeExecuting" using caller_owns(4) [OF I] by blast
    then show ?thesis using lost_stage [OF I] False p by auto
  qed
  moreover have "safe D R (X + {#Caller op None (Issuing a)#}) p"
    using p assms(1, 3) body
    by (auto simp: Let_def split: if_splits option.splits intro!: safe_deliverAdapter)
  moreover have "sup_allowed w w'" using p by (auto simp: Let_def split: if_splits)
  ultimately show "\<exists>T'. sup_inv D R w' (F + T') \<and> sup_allowed w w' \<and> safe D R T' p"
    by (intro exI [of _ "X + {#Caller op None (Issuing a)#}"]) (simp add: ac_simps)
qed

lemma safe_settled_result:
  assumes "finalizes D R k" "re_owner r = Some op" "Known op \<in># X" "re_stamp r = re_stamp r'"
  shows "safe D R (X + {#Settled op#} + {#Stamped (rs_seq (re_stamp r'))#}) (k r)"
  using finalizes_settled [OF assms(1-3)] assms(4) by simp

text \<open>The same rules in the form the simplifier leaves the tokens in.\<close>

lemmas settled_result = safe_settled_result [simplified]
lemmas latch_result = safe_latchResult [simplified]
lemmas prepare_issue = safe_prepareIssue [simplified]

lemma safe_try_candidates:
  assumes "finalizes D R stop" "re_owner base = Some op" "Known op \<in># X"
    "\<forall>row \<in> set rows. co_to row \<in> D" "\<And>c. fits R t c"
    "\<And>row. row \<in> set rows \<Longrightarrow> safe D R (X + {#Caller op f t#}) (found row)"
    "\<And>reasons. safe D R (X + {#Caller op f t#}) (none reasons)"
  shows "safe D R (X + {#Caller op f t#})
    (try_candidates E m op ctx data a base rows reasons stop found none)"
  using assms(4, 6)
proof (induction rows arbitrary: reasons)
  case (Cons row rows)
  show ?case
  proof (cases "co_guard row")
    case (Some guard)
    show ?thesis
      unfolding try_candidates.simps Some option.case Let_def
      using Cons assms(1-3, 5)
      by (intro safe_invoke [where f = f and t = t]) (auto split: option.split intro!: latch_result)
  qed (use Cons.prems in simp)
qed (use assms(7) in simp)

lemma safe_issue_selected:
  assumes "finalizes D R k" "re_owner base = Some op" "Known op \<in># X" "ch_to change \<in> D"
    "attempt.truncate change = a" "co_issue row \<noteq> None \<Longrightarrow> routed R change"
  shows "safe D R (X + {#Caller op None (Attempting a)#}) (issue_selected E m op ctx data change row base k)"
proof -
  have commit: "safe D R (X + {#Caller op None (Attempting a)#})
      (runChecks E m op ctx base change PhasePostcondition (sm_postconditions m) data False k
         (super_commit E m op base change False False k))"
    by (intro safe_runChecks safe_super_commit) (use assms(1-4) in simp_all)
  have await: "safe D R (X + {#Caller op None (Issuing a)#})
      (awaitVerification E op change row (base\<lparr>re_issued := True, re_phase := PhaseIssue\<rparr>)
         (\<lambda>base fault. case fault of Some f \<Rightarrow> k (faultResult base (Some f)) | None \<Rightarrow> k base))"
    if "co_issue row \<noteq> None"
    using assms that by (intro safe_awaitVerification) (auto split: option.split intro: settled_result)
  have issue: "safe D R (X + {#Caller op None (Issuing a)#})
      (case failure of
         Some err \<Rightarrow> latchResult E m base op change PhaseIssue err False k
       | None \<Rightarrow>
           invoke E op change PhaseIssue (act ctx change data) (\<lambda>out.
             case cb_err out of
               Some err \<Rightarrow> latchResult E m base op change PhaseIssue err True k
             | None \<Rightarrow>
                 (let base = base\<lparr>re_issued := True, re_phase := PhaseIssue\<rparr> in
                  if_ended op
                    (\<lambda>err. latchResult E m base op change PhaseIssue err True k)
                    (awaitVerification E op change row base (\<lambda>base fault.
                       case fault of
                         Some f \<Rightarrow> k (faultResult base (Some f))
                       | None \<Rightarrow> k base)))))" if "co_issue row \<noteq> None" for failure act
    using assms await that
    by (auto simp: Let_def split: option.split
        intro!: latch_result safe_invoke [where f = None and t = "Issuing a"] safe_if_ended)
  show ?thesis
    unfolding issue_selected_def
    using assms commit issue
    by (intro safe_runChecks) (auto split: option.split intro!: prepare_issue)
qed

lemma row_declared:
  "rows_declared D R m \<Longrightarrow> row \<in> set (slice (sm_rows m) key) \<Longrightarrow> co_to row \<in> D"
  unfolding rows_declared_def by blast

lemma safe_issue_run:
  assumes "finalizes D R k" "re_owner base = Some op" "Known op \<in># X" "ch_to change \<in> D"
    "rows_declared D R m"
  shows "safe D R (X + {#Caller op None (Attempting a)#}) (issue_run E m ctx data op a change base k)"
  unfolding issue_run_def Let_def
proof (intro safe_invoke_each [where f = None and t = "Attempting a"] safe_latchResult
      safe_try_candidates safe_issue_selected safe_if_ended safe_finishReady)
  fix r :: "('a, 'b) sresult" and fault reasons
  assume "re_owner r = Some op"
  then show "safe D R (X + {#Settled op#} + {#Stamped (rs_seq (re_stamp r))#})
     (case fault of
        Some f \<Rightarrow> k (faultResult r (Some f))
      | None \<Rightarrow> k (r\<lparr>re_phase := PhaseSelection,
                     re_err := Some (SRefusal (at_from a) (at_event a)
                                      (SSentinel SErrNotPermitted # reasons))\<rparr>))"
    using assms(1, 3) by (auto split: option.split intro!: settled_result)
qed (use assms candidate_routed [OF assms(5)] row_declared [OF assms(5)] in auto)

lemma safe_start_run:
  assumes "finalizes D R k" "re_owner base = Some op" "Known op \<in># X" "ch_to change \<in> D"
  shows "safe D R (X + {#Caller op None Plain#}) (start_run E m ctx data op change snap base k)"
  unfolding start_run_def
proof (intro safe_invoke_each [where f = None and t = Plain] safe_latchResult safe_if_ended safe_finishReady)
  fix r :: "('a, 'b) sresult" and fault
  assume "re_owner r = Some op"
  then show "safe D R (X + {#Settled op#} + {#Stamped (rs_seq (re_stamp r))#})
     (case fault of
        Some f \<Rightarrow> k (faultResult r (Some f))
      | None \<Rightarrow> k (r\<lparr>re_phase := PhaseStart\<rparr>))"
    using assms(1, 3) by (auto split: option.split intro!: settled_result)
qed (use assms in auto)

lemma safe_verify_run:
  assumes "finalizes D R k" "re_owner base = Some op" "Known op \<in># X" "ch_to change \<in> D"
  shows "safe D R (X + {#Caller op None (Verifying change)#}) (verify_run E m ctx data op row change base k)"
  unfolding verify_run_def Let_def
  by (intro safe_invoke_each [where f = None and t = "Verifying change"] safe_latchResult safe_runChecks safe_super_commit)
    (use assms in auto)

lemma safe_restoreFault:
  fixes k :: "('s, 'e) sresult \<Rightarrow> ('s, 'e, 'c, 't, 'v) sprog"
  assumes "finalizes D R k" "re_owner base = Some op" "Known op \<in># X"
  shows "safe D R (X + {#Caller op (Some f) Plain#}) (restoreFault E op f phase cause base k)"
  unfolding restoreFault_def
proof (rule safe_settling)
  fix w :: "('s, 'e, 'c, 't, 'v) sup" and F w' and p :: "('s, 'e, 'c, 't, 'v) sprog"
  assume I: "sup_inv D R w (F + {#Caller op (Some f) Plain#})" and
    "(case restoreFault_region E op f base w of
       (w, base, cancel) \<Rightarrow>
         (w, cancelling cancel
               (k (base\<lparr>re_phase := phase, re_faulted := True, re_uncertain := f_uncertain f,
                        re_err := Some (SJoined [SFault f, cause])\<rparr>)))) = (w', p)"
  then obtain r cancel where f: "restoreFault_region E op f base w = (w', r, cancel)"
    and p: "p = cancelling cancel
               (k (r\<lparr>re_phase := phase, re_faulted := True, re_uncertain := f_uncertain f,
                     re_err := Some (SJoined [SFault f, cause])\<rparr>))" by (auto split: prod.splits)
  show "\<exists>r :: ('s, 'e) sresult. sup_inv D R w' (F + {#Settled op#} + {#Stamped (rs_seq (re_stamp r))#}) \<and>
      sup_allowed w w' \<and> re_owner r = Some op \<and>
      safe D R (X + {#Settled op#} + {#Stamped (rs_seq (re_stamp r))#}) p"
    using restoreFault_inv [OF I f] assms
    by (intro exI [of _ r]) (simp add: p safe_cancelling settled_result)
qed

lemma safe_adjudicate_run:
  fixes k :: "('s, 'e) sresult \<Rightarrow> ('s, 'e, 'c, 't, 'v) sprog"
  assumes "finalizes D R k" "re_owner base = Some op" "Known op \<in># X" "ch_to change \<in> D"
    "target \<in> D"
  shows "safe D R (X + {#Caller op (Some f) Plain#})
    (adjudicate_run E m ctx data op f outcome target phase change proposed base k)"
  unfolding adjudicate_run_def
proof (intro safe_invoke_each [where f = "Some f" and t = Plain] safe_if_ended safe_restoreFault
      safe_settling)
  fix w :: "('s, 'e, 'c, 't, 'v) sup" and F w' and p :: "('s, 'e, 'c, 't, 'v) sprog"
  assume I: "sup_inv D R w (F + {#Caller op (Some f) Plain#})" and
    "(case adjudicate_region E op f outcome target base w of
             (w, base, lost, cancel) \<Rightarrow>
               (w, case lost of
                     Some fault \<Rightarrow> k (faultResult base fault)
                   | None \<Rightarrow> cancelling cancel (k (base\<lparr>re_phase := phase\<rparr>)))) = (w', p)"
  then obtain r lost cancel where a: "adjudicate_region E op f outcome target base w = (w', r, lost, cancel)"
    and p: "p = (case lost of
                     Some fault \<Rightarrow> k (faultResult r fault)
                   | None \<Rightarrow> cancelling cancel (k (r\<lparr>re_phase := phase\<rparr>)))"
    by (auto split: prod.splits)
  show "\<exists>r :: ('s, 'e) sresult. sup_inv D R w' (F + {#Settled op#} + {#Stamped (rs_seq (re_stamp r))#}) \<and>
      sup_allowed w w' \<and> re_owner r = Some op \<and>
      safe D R (X + {#Settled op#} + {#Stamped (rs_seq (re_stamp r))#}) p"
    using adjudicate_inv [OF I assms(5) a] assms(1-3)
    by (intro exI [of _ r]) (auto simp: p intro!: safe_cancelling settled_result split: option.split)
qed (use assms in auto)

section \<open>Admission\<close>

lemma base_fields [simp]:
  "re_owner (baseResultLocked E m w) = None" "\<not> re_reporting (baseResultLocked E m w)"
  "re_owner (resultFromChange E c) = None" "\<not> re_reporting (resultFromChange E c)"
  by (simp_all add: baseResultLocked_def resultFromChange_def zero_result_def)

lemma current_to [simp]: "ch_to (currentChangeLocked E m w) = su_state w"
  by (simp add: currentChangeLocked_def)

lemma state_declared: "sup_inv D R w T \<Longrightarrow> su_state w \<in> D"
  by (simp add: sup_inv_def declared_ok_def)

definition ends_in ::
    "'s set \<Rightarrow> ('s, 'e) routes \<Rightarrow> ('s, 'e, 'c, 't, 'v) sup \<Rightarrow> ('s, 'e) token multiset \<Rightarrow>
      ('s, 'e, 'c, 't, 'v) sup \<times> ('s, 'e, 'c, 't, 'v) sprog \<Rightarrow> bool" where
  "ends_in D R w F wp \<longleftrightarrow>
     (\<exists>T'. sup_inv D R (fst wp) (F + T') \<and> sup_allowed w (fst wp) \<and> safe D R T' (snd wp))"

lemma safe_admission:
  assumes "\<And>w F. sup_inv D R w F \<Longrightarrow> ends_in D R w F (g w)"
  shows "safe D R {#} (locked g)"
proof (rule sup.ok_locked)
  fix w F w' p
  assume "sup_inv D R w (F + {#})" "g w = (w', p)"
  then show "\<exists>T'. sup_inv D R w' (F + T') \<and> sup_allowed w w' \<and> safe D R T' p"
    using assms [of w F] by (simp add: ends_in_def)
qed

lemma ends_refused:
  assumes "sup_inv D R w F" "finalizes D R k" "re_owner base = None" "\<not> re_reporting base"
  shows "ends_in D R w F (refused E base err k w)"
proof -
  obtain w' s where s: "stampLocked E w = (w', s)" by fastforce
  have "safe D R {#Stamped (rs_seq s)#} (k (base\<lparr>re_err := Some err, re_stamp := s\<rparr>))"
    using finalizes_refused [OF assms(2), of "base\<lparr>re_err := Some err, re_stamp := s\<rparr>"] assms(3, 4)
    by simp
  then show ?thesis
    using stampLocked_inv [OF assms(1) s] stampLocked_allowed [OF sup_allowed_refl s]
    unfolding ends_in_def refused_def s prod.case fst_conv snd_conv by blast
qed

lemma ends_refused_faulted:
  assumes "sup_inv D R w F" "su_mode w = ModeFaulted" "finalizes D R k" "re_owner base = None"
    "\<not> re_reporting base"
  shows "ends_in D R w F (refused_faulted E base k w)"
  using sup_inv_faulted [OF assms(1, 2)] assms(1, 3-5)
  by (auto simp: refused_faulted_def intro!: ends_refused)

lemma ends_status:
  assumes "sup_inv D R w F" "finalizes D R k" "\<And>r. re_owner (h r) = re_owner r"
    "\<And>r. re_reporting (h r) = re_reporting r" "\<And>r. re_stamp (h r) = re_stamp r"
  shows "ends_in D R w F (case statusResult E m phase err w of (w, result) \<Rightarrow> (w, k (h result)))"
proof -
  obtain w' r where r: "statusResult E m phase err w = (w', r)" by fastforce
  then have s: "stampLocked E w = (w', re_stamp r)" "re_owner r = None" "\<not> re_reporting r"
    by (auto simp: statusResult_def Let_def split: prod.splits option.splits if_splits)
  have "safe D R {#Stamped (rs_seq (re_stamp r))#} (k (h r))"
    using finalizes_refused [OF assms(2), of "h r"] assms(3-5) s(2, 3) by simp
  then show ?thesis
    using stampLocked_inv [OF assms(1) s(1)] stampLocked_allowed [OF sup_allowed_refl s(1)]
    unfolding ends_in_def r prod.case fst_conv snd_conv by blast
qed

lemma ends_begun:
  assumes "sup_inv D R w F" "\<not> admission_closed w" "ch_to change \<in> D"
    "su_fault w \<noteq> None \<longrightarrow> su_revision w \<noteq> - 1" "starts_in w change t"
    "\<And>w' op. beginOperationLocked E ctx change phase w = (w', op) \<Longrightarrow>
       fst (q w' op) = w' \<and>
       safe D R ({#Known op#} + {#Caller op (su_fault w) t#}) (snd (q w' op))"
  shows "ends_in D R w F (case beginOperationLocked E ctx change phase w of (w', op) \<Rightarrow> q w' op)"
proof -
  obtain w' op where b: "beginOperationLocked E ctx change phase w = (w', op)" by fastforce
  have "su_operation w = None" using assms(2) by (simp add: admission_closed_def)
  then have "sup_inv D R w' (F + ({#Known op#} + {#Caller op (su_fault w) t#}))"
    using begin_inv [OF assms(1) _ assms(3-5) b] by (simp add: add_mset_commute)
  then show ?thesis
    using assms(6) [OF b] begin_allowed [OF b assms(2)] unfolding ends_in_def b prod.case by metis
qed

lemma ends_in_same_view:
  "same_view w w1 \<Longrightarrow> sup_allowed w w1 \<Longrightarrow> (\<And>w'. sup_allowed w1 w' = sup_allowed w w') \<Longrightarrow>
     ends_in D R w1 F g \<Longrightarrow> ends_in D R w F g"
  by (simp add: ends_in_def)

lemma known_Known: "Known op \<in># {#Known op#}"
  by simp

text \<open>An operation just begun knows its pointer and nothing else.\<close>

lemmas begun_latch = safe_latchResult [where X = "{#Known op#}" for op, simplified]
lemmas begun_start = safe_start_run [where X = "{#Known op#}" for op, simplified]
lemmas begun_issue = safe_issue_run [where X = "{#Known op#}" for op, simplified]
lemmas begun_verify = safe_verify_run [where X = "{#Known op#}" for op, simplified]
lemmas begun_adjudicate = safe_adjudicate_run [where X = "{#Known op#}" for op, simplified]

lemma safe_startDecision:
  assumes "finalizes D R k"
  shows "safe D R {#} (startDecision E m parent data k)"
proof (cases parent)
  case None
  show ?thesis
    unfolding startDecision_def None option.case
    by (rule safe_admission, rule ends_status [where h = "\<lambda>r. r"]) (simp_all add: assms)
next
  case (Some ctx)
  show ?thesis
    unfolding startDecision_def Some option.case
  proof (rule safe_admission, goal_cases)
    case (1 w F)
    note D = state_declared [OF 1]
    show ?case
    proof (cases "su_mode w")
      case ModeStopped
      have idle: "su_fault w = None" "su_pending w = None" using sup_inv_idle [OF 1] ModeStopped by auto
      show ?thesis
      proof (cases "admission_closed w")
        case True
        then show ?thesis using ModeStopped by (simp add: ends_refused [OF 1 assms])
      next
        case False
        then show ?thesis
          using ModeStopped
          by (simp add: Let_def)
             (rule ends_begun [OF 1, where t = Plain], simp_all add: D idle,
              intro conjI impI begun_latch begun_start; simp add: assms D)
      qed
    qed (simp_all add: ends_refused [OF 1 assms] ends_refused_faulted [OF 1 _ assms])
  qed
qed

lemma same_view_updates [simp]:
  "same_view w w" "same_view w (w\<lparr>su_timer := tm\<rparr>)"
  "same_view w (w\<lparr>su_reporting := i\<rparr>)"
  "sup_allowed (w\<lparr>su_attempt := q\<rparr>) w' = sup_allowed w w'"
  "sup_allowed (w\<lparr>su_timer := tm\<rparr>) w' = sup_allowed w w'"
  "sup_allowed w (w\<lparr>su_attempt := q\<rparr>)"
  "admission_closed (w\<lparr>su_attempt := q\<rparr>) = admission_closed w"
  "admission_closed (w\<lparr>su_timer := tm\<rparr>) = admission_closed w"
  by (simp_all add: same_view_def sup_allowed_def issuing_def admission_closed_def)

lemma issued_to [simp]: "ch_to (attempt.extend a (change.fields t s)) = s"
  by (simp add: attempt.defs change.defs)

lemma ends_in_attempt: "ends_in D R (w\<lparr>su_attempt := q\<rparr>) F g \<Longrightarrow> ends_in D R w F g"
  by (simp add: ends_in_def)

lemma first_attempt:
  assumes "sup_inv D R w F" "su_attempt w \<noteq> - 1"
    "a = \<lparr>at_definition = d, at_execution = su_execution w, at_incarnation = su_incarnation w,
          at_id = su_attempt w + 1, at_revision = su_revision w, at_started = x,
          at_from = su_state w, at_event = e\<rparr>"
  shows "current (w\<lparr>su_attempt := su_attempt w + 1\<rparr>) a"
proof -
  have "su_attempt w + 1 \<noteq> 0" using assms(2) by (metis add.inverse_inverse add.commute add_eq_0_iff)
  then show ?thesis using assms(1) by (simp add: assms(3) current_def sup_inv_def doubt_ok_def)
qed

lemma safe_issueDecision:
  assumes "finalizes D R k" "rows_declared D R m"
  shows "safe D R {#} (issueDecision L E m parent event data k)"
proof (cases parent)
  case None
  show ?thesis
    unfolding issueDecision_def None option.case
    by (rule safe_admission, rule ends_status [where h = "\<lambda>r. r\<lparr>re_event := event\<rparr>"])
       (simp_all add: assms)
next
  case (Some ctx)
  show ?thesis
    unfolding issueDecision_def Some option.case
  proof (rule safe_admission, goal_cases)
    case (1 w F)
    note D = state_declared [OF 1]
    note refused = ends_refused [OF 1 assms(1)]
    show ?case
    proof (cases "su_mode w")
      case ModeReady
      have idle: "su_fault w = None" "su_pending w = None" using sup_inv_idle [OF 1] ModeReady by auto
      show ?thesis
      proof (cases "admission_closed w \<or> \<not> key_ok L event \<or> event \<notin> sm_eventSet m")
        case True
        then show ?thesis using ModeReady by (auto simp: refused Let_def)
      next
        case open': False
        show ?thesis
        proof (cases "su_attempt w = - 1 \<or> countersExhaustedLocked w")
          case True
          then show ?thesis
            using ModeReady open'
            by (simp add: Let_def)
               (rule ends_begun [OF 1, where t = Plain], simp_all add: D idle begun_latch assms(1))
        next
          case False
          let ?w = "w\<lparr>su_attempt := su_attempt w + 1\<rparr>"
          let ?a = "\<lparr>at_definition = sm_id m, at_execution = su_execution w,
              at_incarnation = su_incarnation w, at_id = su_attempt w + 1,
              at_revision = su_revision w, at_started = now E ?w, at_from = su_state w,
              at_event = event\<rparr>"
          have "sup_inv D R ?w F" by (rule sup_inv_attempt [OF 1 le_plus_one]) (use False in simp)
          moreover have "current ?w ?a" by (rule first_attempt [OF 1 _ refl]) (use False in simp)
          ultimately show ?thesis
            using ModeReady open' False
            by (simp add: Let_def)
               (rule ends_in_attempt [where q = "su_attempt w + 1"],
                rule ends_begun [where t = "Attempting ?a"], simp_all add: D idle begun_issue assms)
        qed
      qed
    qed (simp_all add: Let_def refused ends_refused_faulted [OF 1 _ assms(1)])
  qed
qed

text \<open>An expiry latches, stamps, and borrows the running operation for its report.\<close>

lemma expire_inv:
  assumes "sup_inv D R w F" "ch_to (pe_change p) \<in> D" "blames R (pe_change p) w"
    "expireVerificationLocked E m p w = (w', r, cancel)"
  shows "\<exists>T. sup_inv D R w' (F + T) \<and> sup_allowed w w' \<and> known_result T r \<and> re_reporting r"
proof -
  obtain w1 fault fresh w2 stamp where
    l: "latchLocked E m None (pe_change p) PhaseVerify (SSentinel ErrVerificationTimeout) True w =
      (w1, fault, cancel, fresh)" and
    s: "stampLocked E w1 = (w2, stamp)" and
    w': "w' = w2\<lparr>su_reporting := su_reporting w2 + 1\<rparr>" and
    r: "re_stamp r = stamp\<lparr>rs_durable := fresh\<rparr>" "re_owner r = su_operation w2" "re_reporting r"
    using assms(4) by (auto simp: expireVerificationLocked_def Let_def split: prod.splits)
  let ?S = "{#Stamped (rs_seq stamp)#}"
  have i2: "sup_inv D R w2 (F + ?S)" by (rule stampLocked_inv [OF latch_inv [OF assms(1-3) l] s])
  have a: "sup_allowed w w'"
    using stampLocked_allowed [OF latch_allowed [OF l] s] by (simp add: w' sup_allowed_def)
  show ?thesis
  proof (cases "su_operation w2")
    case None
    then show ?thesis
      using i2 a r by (intro exI [of _ ?S]) (simp add: w' known_result_def)
  next
    case (Some op)
    then have "sup_inv D R w2 (F + ?S + {#Known op#})"
      by (intro sup_inv_mono_known i2 sup_inv_operation [OF i2])
    then show ?thesis
      using a r Some by (intro exI [of _ "?S + {#Known op#}"]) (simp add: w' known_result_def add_mset_commute)
  qed
qed

lemma pending_declared: "sup_inv D R w T \<Longrightarrow> su_pending w = Some p \<Longrightarrow> ch_to (pe_change p) \<in> D"
  by (auto simp: sup_inv_def declared_ok_def)

lemma pending_blames: "sup_inv D R w T \<Longrightarrow> su_pending w = Some p \<Longrightarrow> blames R (pe_change p) w"
  by (auto simp: sup_inv_def doubt_ok_def blames_def)

lemma ends_expired:
  assumes "sup_inv D R w F" "su_pending w = Some p" "finalizes D R k"
  shows "ends_in D R w F (case expireVerificationLocked E m p w of
     (w, result, cancel) \<Rightarrow> (w, cancelling cancel (k result)))"
proof -
  obtain w' r cancel where e: "expireVerificationLocked E m p w = (w', r, cancel)"
    by (metis prod_cases3)
  show ?thesis
    using expire_inv [OF assms(1) pending_declared [OF assms(1, 2)] pending_blames [OF assms(1, 2)] e]
    by (auto simp: ends_in_def e intro!: safe_cancelling finalizes_reporting [OF assms(3)])
qed

lemma safe_verifyDecision:
  assumes "finalizes D R k"
  shows "safe D R {#} (verifyDecision E m parent key data k)"
proof (cases parent)
  case None
  show ?thesis
    unfolding verifyDecision_def None option.case
    by (rule safe_admission, rule ends_status [where h = "\<lambda>r. r"]) (simp_all add: assms)
next
  case (Some ctx)
  show ?thesis
    unfolding verifyDecision_def Some option.case
  proof (rule safe_admission, goal_cases)
    case (1 w F)
    note refused = ends_refused [OF 1 assms]
    show ?case
    proof (cases "su_mode w")
      case ModeAwaitingVerification
      have f: "su_fault w = None" using sup_inv_awaiting [OF 1] ModeAwaitingVerification by auto
      show ?thesis
      proof (cases "admission_closed w \<or> su_pending w = None")
        case True
        then show ?thesis using ModeAwaitingVerification by (auto simp: refused Let_def)
      next
        case open': False
        then obtain p where p: "su_pending w = Some p" by auto
        note D = pending_declared [OF 1 p]
        have op: "\<not> admission_closed w" using open' by simp
        have begun: "ends_in D R w F
            (case beginOperationLocked E ctx (pe_change p) PhaseVerify w of (w', op) \<Rightarrow>
               (w', latchResult E m (base w' op) op (pe_change p) PhaseVerify
                      (SSentinel ErrCounterExhausted) True k))"
          if "\<And>w' op. re_owner (base w' op) = Some op" for base
          by (rule ends_begun [OF 1, where t = "Verifying (pe_change p)"])
            (simp_all add: op p D f begun_latch assms that)
        have "sup_inv D R (w\<lparr>su_timer := None\<rparr>) F" using 1 by simp
        then have run: "ends_in D R w F
            (case beginOperationLocked E ctx (pe_change p) PhaseVerify (w\<lparr>su_timer := None\<rparr>) of
               (w', op) \<Rightarrow>
                 (w', verify_run E m ctx data op (pe_transition p) (pe_change p) (base w' op) k))"
          if "\<And>w' op. re_owner (base w' op) = Some op" for base
          by (rule ends_in_same_view [where ?w1.0 = "w\<lparr>su_timer := None\<rparr>", rotated 3,
                OF ends_begun [where t = "Verifying (pe_change p)"]])
             (simp_all add: op p D f begun_verify assms that)
        show ?thesis
          using ModeAwaitingVerification open' p ends_expired [OF 1 p assms] begun run
          by (simp add: Let_def refused)
      qed
    qed (simp_all add: Let_def refused ends_refused_faulted [OF 1 _ assms])
  qed
qed

lemma safe_verificationExpired:
  "safe D R {#} (verificationExpired E m attempt version :: ('s, 'e, 'c, 't, 'v) sprog)"
  unfolding verificationExpired_def
proof (rule safe_admission, goal_cases)
  case (1 w F)
  have ended: "ends_in D R w F (w', Return Ended)" if "same_view w w'" "sup_allowed w w'" for w'
    using 1 sup_inv_same_view [OF that(1)] that(2)
    by (auto simp: ends_in_def intro!: exI [of _ "{#}"])
  show ?case
    by (auto split: option.split intro!: ended ends_expired [OF 1] finalizes_super_finalize)
qed

text \<open>What Trip blames: the running operation, the pending change, or nothing external.\<close>

lemma trip_target_declared:
  assumes "sup_inv D R w F"
  shows "\<exists>change phase. trip_target E m w = Some (change, phase) \<and> ch_to change \<in> D"
  using sup_inv_executing [OF assms] pending_declared [OF assms] state_declared [OF assms] assms
  by (auto simp: trip_target_def sup_inv_def declared_ok_def split: option.split)

lemma fault_times_cases:
  assumes "fst (fault_times c w) \<noteq> 0"
  obtains p where "su_pending w = Some p" "Identifier (pe_change p) = Identifier c"
  | o' where "su_operation w = Some o'" "op_issuedAt (su_ops w o') \<noteq> 0"
  using assms by (auto simp: fault_times_def split: option.splits if_splits)

lemma trip_target_blames:
  assumes I: "sup_inv D R w F" and t: "trip_target E m w = Some (change, phase)"
  shows "blames R change w"
  unfolding blames_def
proof
  assume a: "su_fault w = None \<and> fst (fault_times change w) \<noteq> 0"
  have d: "doubt_ok R w" and mode: "mode_ok w" using I by (simp_all add: sup_inv_def)
  show "routed R change \<and> current w change"
  proof (cases "su_mode w = ModeExecuting")
    case True
    then obtain o' where o': "su_operation w = Some o'" "change = op_change (su_ops w o')"
      using t by (auto simp: trip_target_def split: option.splits)
    show ?thesis
      by (rule fault_times_cases [OF conjunct2 [OF a]])
        (use d True o' in \<open>auto simp: doubt_ok_def\<close>)
  next
    case False
    then show ?thesis
    proof (cases "su_pending w")
      case None
      then have "op_issuedAt (su_ops w o') = 0" if "su_operation w = Some o'" for o'
        using d a mode that False by (cases "su_mode w") (auto simp: doubt_ok_def mode_ok_def)
      then show ?thesis using fault_times_cases [OF conjunct2 [OF a]] None by fastforce
    next
      case (Some p)
      then have "change = pe_change p"
        using mode t False by (cases "su_mode w") (auto simp: mode_ok_def trip_target_def)
      then show ?thesis using d Some by (auto simp: doubt_ok_def)
    qed
  qed
qed

lemma safe_super_Trip:
  fixes D :: "'s set" and m :: "('s, 'e, 'c, 't, 'v) smachine"
  shows "safe D R {#} (super_Trip E m reason)"
  unfolding super_Trip_def Let_def
proof (rule safe_admission, goal_cases)
  case (1 w F)
  define cause where "cause = (case reason of None \<Rightarrow> SSentinel ErrTripped | Some e \<Rightarrow> e)"
  obtain change phase where t: "trip_target E m w = Some (change, phase)" "ch_to change \<in> D"
    using trip_target_declared [OF 1] by blast
  note blamed = trip_target_blames [OF 1 t(1)]
  obtain w1 fault cancel fresh where
    l: "latchLocked E m None change phase cause True w = (w1, fault, cancel, fresh)"
    by (metis prod_cases4)
  obtain f where f: "fault = Some f" using latch_view(3, 4) [OF l] by (auto split: option.splits)
  obtain w2 stamp where s: "stampLocked E w1 = (w2, stamp)" by fastforce
  have i2: "sup_inv D R w2 (F + {#Stamped (rs_seq stamp)#})"
    by (rule stampLocked_inv [OF latch_inv [OF 1 t(2) blamed l] s])
  define T :: "('s, 'e) token multiset" where "T = {#Stamped (rs_seq stamp)#} +
    (case su_operation w2 of None \<Rightarrow> {#} | Some op \<Rightarrow> {#Known op#})"
  have "sup_inv D R w2 (F + T)"
    using i2 sup_inv_mono_known [OF i2 sup_inv_operation [OF i2]]
    by (auto simp: T_def add_mset_commute split: option.split)
  moreover have "safe D R T (cancelling cancel (completeResult E r (\<lambda>result.
      closeJournalAfter E m result (recordResult E RecordTrip result
        (locked (\<lambda>w. (reportingReturned w, Return (FaultOf f))))))) :: ('s, 'e, 'c, 't, 'v) sprog)"
    if "rs_seq (re_stamp r) = rs_seq stamp" "re_owner r = su_operation w2" for r
  proof (intro safe_cancelling safe_completeResult safe_closeJournalAfter safe_recordResult)
    show "known_result T (completed t r)" "known_result T (completed t r)" for t
      using that by (simp_all add: known_result_def T_def)
  qed (simp add: safe_quiet)
  moreover have "sup_allowed w (w2\<lparr>su_reporting := i\<rparr>)" for i
    using stampLocked_allowed [OF latch_allowed [OF l] s] by (simp add: sup_allowed_def)
  ultimately show ?case
    using l unfolding cause_def
    by (auto simp: ends_in_def t(1) f s intro!: exI [of _ T])
qed

lemma decision_target_declared:
  assumes "decision_target K m f decision s = Inr target" "rows_declared D R m" "s \<in> D"
    "f_transition f \<noteq> [] \<Longrightarrow> f_to f \<in> D"
  shows "target \<in> D"
  using assms by (auto simp: decision_target_def rows_declared_def split: adjudication.splits if_splits)

lemma safe_adjudicateDecision:
  assumes "finalizes D R k" "rows_declared D R m"
  shows "safe D R {#} (adjudicateDecision K E m parent decision data phase k)"
proof (cases parent)
  case None
  show ?thesis
    unfolding adjudicateDecision_def None option.case
    by (rule safe_admission, rule ends_status [where h = "\<lambda>r. r"]) (simp_all add: assms)
next
  case (Some ctx)
  show ?thesis
    unfolding adjudicateDecision_def Some option.case
  proof (rule safe_admission, goal_cases)
    case (1 w F)
    note refused = ends_refused [OF 1 assms(1)]
    show ?case
    proof (cases "su_mode w = ModeFaulted")
      case False
      then show ?thesis by (simp add: Let_def refused)
    next
      case mode: True
      then obtain f where f: "su_fault w = Some f" "su_pending w = None"
        using sup_inv_faulted [OF 1] by blast
      have to: "f_transition f \<noteq> [] \<Longrightarrow> ch_to (f_change f) \<in> D \<and> f_to f \<in> D"
        using 1 f(1) by (auto simp: sup_inv_def declared_ok_def)
      show ?thesis
      proof (cases "admission_closed w \<or> countersExhaustedLocked w \<or>
          (\<exists>err. decision_target K m f decision (su_state w) = Inl err)")
        case True
        then show ?thesis
          using mode f by (cases "decision_target K m f decision (su_state w)") (auto simp: Let_def refused)
      next
        case open': False
        then obtain target where target: "decision_target K m f decision (su_state w) = Inr target"
          by (cases "decision_target K m f decision (su_state w)") auto
        have T: "target \<in> D"
          using decision_target_declared [OF target assms(2) state_declared [OF 1]] to by blast
        have op: "\<not> admission_closed w" "su_revision w \<noteq> - 1"
          using open' by (auto simp: countersExhaustedLocked_def)
        have adopted: "ch_to (f_change f) \<in> D" if "de_outcome decision = AdjudicateAdopt"
          using target that to by (auto simp: decision_target_def split: if_splits)
        have run: "ends_in D R w F
            (case beginOperationLocked E ctx change phase w of (w', op) \<Rightarrow>
               (w', adjudicate_run E m ctx data op f outcome target phase change (snap w') (base w' op) k))"
          if "ch_to change \<in> D" "\<And>w' op. re_owner (base w' op) = Some op" for base change outcome snap
          by (rule ends_begun [OF 1, where t = Plain])
            (simp_all add: op f begun_adjudicate assms(1) that T)
        show ?thesis
          using mode f open' target adopted T by (auto simp: Let_def intro!: run)
      qed
    qed
  qed
qed

section \<open>Every call\<close>

theorem sup_call_safe:
  assumes "sup_call K L E m p w" "rows_declared D R m"
  shows "safe D R {#} p"
  using assms
  by (induction rule: sup_call.induct)
     (auto simp: super_Start_def super_Issue_def super_Verify_def super_Recover_def
        super_Adjudicate_def
      intro!: safe_startDecision safe_issueDecision safe_verifyDecision safe_super_Trip
        safe_adjudicateDecision safe_verificationExpired finalizes_super_finalize)

lemma sup_env_inv: "sup_env w w' \<Longrightarrow> sup_inv D R w T \<Longrightarrow> sup_inv D R w' T \<and> sup_allowed w w'"
  by (induction rule: sup_env.induct) auto

end
