(* ===== verification/Super_System.thy ===== *)
theory Super_System
  imports Super_Programs
begin

text \<open>
  A Supervisor under any number of concurrent calls: its properties.

  \<open>sup_initial\<close> is a Supervisor as New or Restore leaves it, for a machine that Compile accepted.
  An execution interleaves the pieces of all calls, the callbacks and adapters they start, the
  verification timer, the ends of contexts and what the application does to its world. The
  properties follow from the invariant of \<open>Super_Tokens\<close> by the soundness of \<open>tokens\<close>.
\<close>

section \<open>Where an execution starts\<close>

definition sup_initial ::
    "'s keyops \<Rightarrow> 'e keyops \<Rightarrow> ('s, 'e, 'c, 'v) senv \<Rightarrow> ('s, 'e, 'c, 't, 'v) smachine \<Rightarrow>
      ('s, 'e, 'c, 't, 'v) sup \<Rightarrow> bool" where
  "sup_initial K L E m w \<longleftrightarrow>
     (\<exists>identity app. newSupervisor E m identity app = Inr w) \<or>
     (\<exists>snap identity app. restoreSupervisor K L E m snap identity app = Inr w)"

definition sup_reachable ::
    "'s keyops \<Rightarrow> 'e keyops \<Rightarrow> ('s, 'e, 'c, 'v) senv \<Rightarrow> ('s, 'e, 'c, 't, 'v) smachine \<Rightarrow>
      ('s, 'e, 'c, 't, 'v) sup \<times> ('s, 'e, 'c, 't, 'v) sprog list \<Rightarrow> bool" where
  "sup_reachable K L E m c \<longleftrightarrow> (\<exists>w. sup_initial K L E m w \<and> sup_runs K L E m (w, []) c)"

text \<open>Every constructor gives a start of its Supervisor in the environment it configured.\<close>

lemma configured_parts:
  "zero_operation (configure o' E) = zero_operation E"
  "zero_operation (E\<lparr>se_limits := l\<rparr>) = zero_operation E"
  "zero_operation (E\<lparr>se_now := c\<rparr>) = zero_operation E"
  "restored_fault (configure o' E) = restored_fault E"
  "restored_fault (E\<lparr>se_limits := l\<rparr>) = restored_fault E"
  "restored_fault (E\<lparr>se_now := c\<rparr>) = restored_fault E"
  "restore_refusal K L (configure o' E) = restore_refusal K L (E\<lparr>se_limits := so_limits o'\<rparr>)"
  "restore_refusal K L (E\<lparr>se_now := c\<rparr>) = restore_refusal K L E"
  by (simp_all add: zero_operation_def zero_change_def restored_fault_def restore_refusal_def
      configure_def fun_eq_iff cong: option.case_cong)

lemma configure_limits: "se_limits (configure o' E) = so_limits o'"
  by (simp add: configure_def)

lemma construction_environment:
  "newSupervisor (configure o' E) m x app = newSupervisor (E\<lparr>se_limits := so_limits o'\<rparr>) m x app"
  "restoreSupervisor K L (configure o' E) m snap x app =
     restoreSupervisor K L (E\<lparr>se_limits := so_limits o'\<rparr>) m snap x app"
  "newSupervisor (E\<lparr>se_now := c\<rparr>) m x app = newSupervisor E m x app"
  "restoreSupervisor K L (E\<lparr>se_now := c\<rparr>) m snap x app = restoreSupervisor K L E m snap x app"
  by (simp_all add: newSupervisor_def restoreSupervisor_def configured_parts configure_limits
      cong: option.case_cong sum.case_cong)

lemma constructors_initial:
  "super_New E (Some m) x app = Inr w \<Longrightarrow> sup_initial K L E m w"
  "super_NewWithClock E (Some m) clock x app = Inr (E', w) \<Longrightarrow> sup_initial K L E' m w"
  "super_NewWithOptions E (Some m) o' x app = Inr (E', w) \<Longrightarrow> sup_initial K L E' m w"
  "super_Restore K L E (Some m) snap x app = Inr w \<Longrightarrow> sup_initial K L E m w"
  "super_RestoreWithClock K L E (Some m) snap clock x app = Inr (E', w) \<Longrightarrow> sup_initial K L E' m w"
  "super_RestoreWithOptions K L E (Some m) snap o' x app = Inr (E', w) \<Longrightarrow> sup_initial K L E' m w"
  unfolding sup_initial_def
  by (auto simp: super_New_def super_NewWithClock_def super_NewWithOptions_def super_Restore_def
      super_RestoreWithClock_def super_RestoreWithOptions_def construction_environment
      split: if_splits sum.splits option.splits)

lemma compiled_declared:
  assumes "compile_super K L d = Inr m"
  shows "rows_declared (dom (sm_stateIndex m)) (external_row m) m" "sm_initial m \<in> dom (sm_stateIndex m)"
proof -
  have g: "good_super d" "m = machine_of d" using compile_super_cases [of K L d] assms by simp_all
  have dom: "dom (sm_stateIndex m) = st_name ` set (sd_states d)"
    unfolding g(2) machine_of_def by (force simp: dom_map_of_conv_image_fst)
  have "co_to row \<in> dom (sm_stateIndex m)" if "row \<in> set (slice (sm_rows m) key)" for key row
  proof -
    have "row \<in> set (super_rows (sd_transitions d) key)"
      using that by (auto simp: g(2) machine_of_def slice_def nonempty_def split: option.splits if_splits)
    then obtain t where "t \<in> set (sd_transitions d)" "row = compiled_of t"
      by (auto simp: super_rows_def)
    then show ?thesis
      using g(1) by (auto simp: dom good_super_def transition_ok_def compiled_of_def)
  qed
  then show "rows_declared (dom (sm_stateIndex m)) (external_row m) m" by (simp add: rows_declared_def)
  show "sm_initial m \<in> dom (sm_stateIndex m)"
    using g(1) by (simp add: dom good_super_def) (simp add: g(2) machine_of_def)
qed

lemma identity_given: "newExecutionID random = Inr i \<Longrightarrow> i \<noteq> []"
  by (auto simp: newExecutionID_def hex_encode_def split: sum.splits)

lemma new_inv:
  assumes "newSupervisor E m identity app = Inr w" "sm_initial m \<in> D"
  shows "sup_inv D R w {#}"
  using assms by (auto simp: newSupervisor_def sup_inv_defs zero_operation_def by_seq_def identity_given
      split: option.splits sum.splits)

lemma restored_fault_declared:
  assumes "restore_refusal K L E m snap = None" "rows_declared D R m"
    "restored_fault E m snap = Some f" "f_transition f \<noteq> []"
  shows "ch_to (f_change f) \<in> D \<and> f_to f \<in> D"
proof (cases "sn_pending snap")
  case None
  then show ?thesis using assms(3, 4) by (auto simp: restored_fault_def Let_def split: if_splits)
next
  case (Some p)
  then have "list_ex (\<lambda>r. co_id r = ps_transition p \<and> co_to r = ps_to p \<and> co_issue r \<noteq> None)
      (slice (sm_rows m) (ps_from p, ps_event p))"
    using assms(1) by (auto simp: restore_refusal_def split: option.splits if_splits)
  then have "ps_to p \<in> D" using assms(2) by (force simp: list_ex_iff rows_declared_def)
  then show ?thesis
    using assms(3) Some by (auto simp: restored_fault_def Let_def split: if_splits)
qed

lemma restored_fault_current:
  assumes "restore_refusal K L E m snap = None" "restored_fault E m snap = Some f" "f_issuedAt f \<noteq> 0"
    "su_execution w = sn_execution snap" "su_attempt w = sn_attempt snap"
    "su_revision w = sn_revision snap" "su_state w = sn_state snap"
  shows "fault_current (external_row m) w f"
proof (cases "sn_pending snap")
  case None
  then show ?thesis using assms(2, 3) by (auto simp: restored_fault_def Let_def split: if_splits)
next
  case (Some p)
  then have "external_row m (ps_from p) (ps_event p) (ps_transition p) (ps_to p)"
    "ai_execution (ps_attempt p) = sn_execution snap" "ai_incarnation (ps_attempt p) \<noteq> []"
    "ai_sequence (ps_attempt p) \<noteq> 0" "ai_sequence (ps_attempt p) \<le> sn_attempt snap"
    "ps_revision p = sn_revision snap" "ps_from p = sn_state snap"
    using assms(1) by (auto simp: restore_refusal_def external_row_def split: option.splits if_splits)
  then show ?thesis
    using assms(2, 4-7) Some by (auto simp: fault_current_def restored_fault_def Let_def split: if_splits)
qed

lemma restored_inv:
  assumes "restoreSupervisor K L E m snap identity app = Inr w" "rows_declared D R m"
  shows "sup_inv D R w {#}"
proof -
  have ok: "restore_refusal K L E m snap = None"
    using assms(1) by (simp add: restoreSupervisor_def split: option.splits)
  have st: "sn_state snap \<in> D"
    using ok assms(2) by (auto simp: restore_refusal_def rows_declared_def split: option.splits if_splits)
  have none: "restored_fault E m snap = None \<longleftrightarrow> \<not> sn_inDoubt snap \<and> \<not> sn_faulted snap"
    by (simp add: restored_fault_def Let_def)
  have w: "su_operation w = None" "su_pending w = None" "su_state w = sn_state snap"
    "su_mode w = (if sn_inDoubt snap \<or> sn_faulted snap then ModeFaulted else ModeStopped)"
    "su_fault w = restored_fault E m snap" "su_live w = {}" "su_records w = []"
    "su_ops w = (\<lambda>_. zero_operation E)" "\<not> su_journalBusy w" "\<not> su_journalRunning w"
    "\<not> su_recorderBusy w" "\<not> su_recorderRunning w" "su_execution w = sn_execution snap"
    "su_attempt w = sn_attempt snap" "su_revision w = sn_revision snap" "su_incarnation w \<noteq> []"
    using assms(1) ok by (auto simp: restoreSupervisor_def identity_given split: sum.splits)
  have R: "R = external_row m" using assms(2) by (simp add: rows_declared_def)
  have "sn_execution snap \<noteq> []"
    using ok by (auto simp: restore_refusal_def split: option.splits if_splits)
  then have "doubt_ok R w"
    using restored_fault_current [OF ok, where w = w] by (auto simp: doubt_ok_def w R)
  moreover have "mode_ok w" by (simp add: mode_ok_def w none)
  moreover have "declared_ok D w"
    unfolding declared_ok_def w using st restored_fault_declared [OF ok assms(2)] by auto
  moreover have "ring_ok w" "heap_ok w" by (simp_all add: ring_ok_def heap_ok_def by_seq_def w)
  moreover have "counts_ok w {#}" by (simp add: counts_ok_def w zero_operation_def)
  ultimately show ?thesis by (simp add: sup_inv_def)
qed

lemma initial_inv:
  assumes "compile_super K L d = Inr m" "sup_initial K L E m w"
  shows "sup_inv (dom (sm_stateIndex m)) (external_row m) w {#}"
  using assms(2) unfolding sup_initial_def
proof (elim disjE exE)
  fix identity app
  assume "newSupervisor E m identity app = Inr w"
  then show ?thesis by (rule new_inv [OF _ compiled_declared(2) [OF assms(1)]])
next
  fix snap identity app
  assume "restoreSupervisor K L E m snap identity app = Inr w"
  then show ?thesis by (rule restored_inv [OF _ compiled_declared(1) [OF assms(1)]])
qed

section \<open>What holds at every moment\<close>

lemma initial_pool:
  assumes "compile_super K L d = Inr m" "sup_initial K L E m w"
  shows "sup.pool_ok (dom (sm_stateIndex m)) (external_row m) no_panic (w, [])"
  using initial_inv [OF assms] by (auto simp: sup.pool_ok_def)

lemma call_brings_tokens:
  assumes "compile_super K L d = Inr m" "sup_call K L E m p w"
    "sup_inv (dom (sm_stateIndex m)) (external_row m) w T"
  shows "\<exists>T'. sup_inv (dom (sm_stateIndex m)) (external_row m) w (T + T') \<and>
    safe (dom (sm_stateIndex m)) (external_row m) T' p"
  using assms(3) sup_call_safe [OF assms(2) compiled_declared(1) [OF assms(1)]]
  by (intro exI [of _ "{#}"]) simp

lemma reachable_pool:
  assumes "compile_super K L d = Inr m" "sup_reachable K L E m c"
  shows "sup.pool_ok (dom (sm_stateIndex m)) (external_row m) no_panic c"
proof -
  obtain w where w: "sup_initial K L E m w" "sup_runs K L E m (w, []) c"
    using assms(2) by (auto simp: sup_reachable_def)
  show ?thesis
    using sup.pool_ok_runs [OF w(2) initial_pool [OF assms(1) w(1)]]
      call_brings_tokens [OF assms(1)] sup_env_inv
    by (metis sup_allowed_refl)
qed

lemma reachable_inv:
  assumes "compile_super K L d = Inr m" "sup_reachable K L E m (w, ps)"
  shows "\<exists>T. sup_inv (dom (sm_stateIndex m)) (external_row m) w T"
  using sup.pool_ok_invariant [OF reachable_pool [OF assms]] .

lemma step_allowed:
  assumes "compile_super K L d = Inr m" "sup_reachable K L E m (w, ps)"
    "sup_step K L E m (w, ps) (w', ps')"
  shows "sup_allowed w w'"
  using sup.pool_ok_step [OF assms(3) reachable_pool [OF assms(1, 2)]]
    call_brings_tokens [OF assms(1)] sup_env_inv
  by (metis fst_conv sup_allowed_refl)

lemma reachable_step:
  "sup_reachable K L E m c \<Longrightarrow> sup_step K L E m c c' \<Longrightarrow> sup_reachable K L E m c'"
  unfolding sup_reachable_def by (blast intro: pool_snoc)

section \<open>Properties\<close>

text \<open>C3. Whatever calls, callbacks, timers and cancellations interleave, a Supervisor never reads
  through a nil pointer; its mode always matches what is stored (a fault exactly when it is
  faulted or adjudicating, a pending change exactly when it awaits or runs a verification, a live
  operation while it executes); its state is a declared one; and its history holds at most its
  capacity of records, in strictly increasing order of numbers already given out.\<close>

theorem supervisor_stays_consistent:
  assumes "compile_super K L d = Inr m" "sup_reachable K L E m (w, ps)"
  shows "Return NilDereference \<notin> set ps \<and>
    (case su_mode w of
       ModeStopped \<Rightarrow> su_fault w = None \<and> su_pending w = None
     | ModeReady \<Rightarrow> su_fault w = None \<and> su_pending w = None
     | ModeAwaitingVerification \<Rightarrow> su_fault w = None \<and> su_pending w \<noteq> None
     | ModeFaulted \<Rightarrow> su_fault w \<noteq> None \<and> su_pending w = None
     | ModeExecuting \<Rightarrow>
         \<exists>op. su_operation w = Some op \<and> \<not> op_revoked (su_ops w op) \<and> \<not> op_returned (su_ops w op)) \<and>
    sm_stateIndex m (su_state w) \<noteq> None \<and>
    length (su_records w) \<le> su_maxRecords w \<and> sorted (map rc_seq (su_records w)) \<and>
    distinct (map rc_seq (su_records w)) \<and> (\<forall>r \<in> set (su_records w). rc_seq r \<le> su_nextRecord w)"
proof -
  obtain T where I: "sup_inv (dom (sm_stateIndex m)) (external_row m) w T" using reachable_inv [OF assms] by blast
  have "Return NilDereference \<notin> set ps"
    using sup.pool_ok_results [OF reachable_pool [OF assms]] by fastforce
  moreover have "mode_ok w" "ring_ok w" "su_state w \<in> dom (sm_stateIndex m)"
    using I by (simp_all add: sup_inv_def declared_ok_def)
  ultimately show ?thesis
    by (auto simp: mode_ok_def ring_ok_def by_seq_def split: mode.splits option.splits)
qed

text \<open>C2. Operations exclude each other: an operation begins only when no goroutine of an earlier
  one still runs application code, be it a callback that outlived its timeout, a Journal or a
  Recorder; and while any such goroutine lives, one of the marks that close admission is set.\<close>

theorem operations_exclude_each_other:
  assumes "compile_super K L d = Inr m" "sup_reachable K L E m (w, ps)"
    "sup_step K L E m (w, ps) (w', ps')"
  shows "(su_nextOp w' \<noteq> su_nextOp w \<longrightarrow> su_live w = {} \<and> su_operation w = None) \<and>
    (su_live w \<noteq> {} \<longrightarrow>
       su_operation w \<noteq> None \<or> su_recorderRunning w \<or> su_journalRunning w)"
proof -
  obtain T where I: "sup_inv (dom (sm_stateIndex m)) (external_row m) w T" using reachable_inv [OF assms(1, 2)] by blast
  have live: "su_operation w \<noteq> None \<or> su_recorderRunning w \<or> su_journalRunning w" if ch: "ch \<in> su_live w" for ch
  proof -
    have "size (filter_mset (works_at ch) T) = 1" using I ch by (simp add: sup_inv_def counts_ok_def)
    then have "filter_mset (works_at ch) T \<noteq> {#}" by (metis size_empty zero_neq_one)
    then obtain t where t: "t \<in># T" "works_at ch t" unfolding none_in_filter by blast
    then show ?thesis
      using sup_inv_token [OF I t(1)] by (cases t) (auto simp: running_def split: work.splits if_splits)
  qed
  have "\<not> admission_closed w" if "su_nextOp w' \<noteq> su_nextOp w"
    using step_allowed [OF assms] that by (simp add: sup_allowed_def)
  then show ?thesis using live by (auto simp: admission_closed_def)
qed

lemma allowed_run:
  assumes "compile_super K L d = Inr m" "sup_reachable K L E m c" "sup_runs K L E m c c'"
  shows "sup_reachable K L E m c'"
  using assms(2, 3) by (auto simp: sup_reachable_def intro: pool_runs_trans)


section \<open>A concrete Supervisor\<close>

definition demo_env :: "(nat, nat, unit, unit) senv" where
  "demo_env =
     \<lparr>se_zeroS = 0, se_zeroE = 0,
      se_limits = \<lparr>OperationTimeout = 1, VerificationTimeout = 1, MaxRecords = 2\<rparr>,
      se_now = (\<lambda>_. 1), se_text = (\<lambda>_. []), se_err = (\<lambda>_ _. None), se_background = (),
      se_journal = None, se_recorder = None\<rparr>"

abbreviation demo_super :: "(nat, nat, unit, nat, unit) smachine" where
  "demo_super \<equiv> machine_of sup_demo"

definition demo_new :: "(nat, nat, unit, nat, unit) sup" where
  "demo_new = (case newSupervisor demo_env demo_super (Inr 1) () of Inr w \<Rightarrow> w)"

text \<open>A Supervisor restored from a snapshot taken while it was faulted.\<close>

definition demo_snapshot :: "(nat, nat) ssnapshot" where
  "demo_snapshot =
     \<lparr>sn_version = 2, sn_definition = [100], sn_execution = [1], sn_incarnation = [1],
      sn_restarts = 0, sn_state = 0, sn_revision = 3, sn_attempt = 1, sn_records = 4,
      sn_pending = None, sn_inDoubt = False, sn_faulted = True, sn_uncertain = False,
      sn_faultPhase = PhaseGuard, sn_cause = [9], sn_recordedAt = 1\<rparr>"

definition demo_restored :: "(nat, nat, unit, nat, unit) sup" where
  "demo_restored =
     (case restoreSupervisor demo_keys demo_keys demo_env demo_super demo_snapshot (Inr 2) () of
        Inr w \<Rightarrow> w)"

lemma demo_new_reachable: "sup_reachable demo_keys demo_keys demo_env demo_super (demo_new, [])"
proof -
  have "newSupervisor demo_env demo_super (Inr 1) () = Inr demo_new"
    by (simp add: demo_new_def newSupervisor_def newExecutionID_def demo_env_def validateLimits_def)
  then show ?thesis
    unfolding sup_reachable_def sup_initial_def by (blast intro: pool_refl)
qed

lemma demo_restored_reachable:
  "sup_reachable demo_keys demo_keys demo_env demo_super (demo_restored, [])"
proof -
  have "restoreSupervisor demo_keys demo_keys demo_env demo_super demo_snapshot (Inr 2) () =
      Inr demo_restored"
    by (simp add: demo_restored_def newExecutionID_def restoreSupervisor_def restore_refusal_def demo_env_def
        validateLimits_def demo_snapshot_def machine_of_def sup_demo_def demo_keys_def
        recordSeqMargin_def state_info_of_def word_le_nat_alt)
  then show ?thesis
    unfolding sup_reachable_def sup_initial_def by (blast intro: pool_refl)
qed

lemma demo_restored_fields:
  "\<exists>f. su_fault demo_restored = Some f \<and> f_phase f = PhaseGuard" "su_state demo_restored = 0"
  "su_revision demo_restored = 3"
  by (simp_all add: demo_restored_def newExecutionID_def restoreSupervisor_def restore_refusal_def demo_env_def
        validateLimits_def demo_snapshot_def machine_of_def sup_demo_def demo_keys_def
        recordSeqMargin_def state_info_of_def word_le_nat_alt restored_fault_def)

section \<open>Witnesses\<close>

lemma locked_step:
  "f w = (w', p) \<Longrightarrow> pool_step S V (w, [locked f]) (w', [p])"
  using Run [where ps = "[]" and qs = "[]" and starts = S and env = V and new = "[]" and w = w
      and w' = w' and p = p and f = "\<lambda>w. case f w of (w', p) \<Rightarrow> Some (w', p, [])"]
  by (simp add: locked_def)

lemma begin_step:
  "sup_call K L E m p w \<Longrightarrow> sup_runs K L E m (w, []) (w, [p])"
  using pool_snoc [OF pool_refl Begin [where ps = "[]" and p = p and w = w
      and starts = "sup_call K L E m" and env = sup_env]] by simp

lemma start_step:
  assumes "su_mode w = ModeStopped" "\<not> admission_closed w" "\<not> countersExhaustedLocked w"
    "beginOperationLocked E ctx (currentChangeLocked E m w) PhaseStart w = (w', op)"
  shows "\<exists>p. pool_step S V (w, [super_Start E m (Some ctx) data]) (w', [p])"
  unfolding super_Start_def startDecision_def option.case
  by (rule exI, rule locked_step) (simp add: Let_def assms)

lemma demo_begins:
  "sup_reachable demo_keys demo_keys demo_env demo_super
     (demo_new, [super_Start demo_env demo_super (Some ()) 0])"
  using demo_new_reachable begin_step [OF CallStart, of demo_keys demo_keys demo_env demo_super]
    pool_runs_trans
  unfolding sup_reachable_def by blast

text \<open>The first piece of a Start: the Supervisor executes operation 0.\<close>

lemma demo_starts:
  "\<exists>w p. sup_step demo_keys demo_keys demo_env demo_super
       (demo_new, [super_Start demo_env demo_super (Some ()) 0]) (w, [p]) \<and>
     su_mode w = ModeExecuting \<and> su_operation w = Some 0 \<and> su_nextOp w = 1 \<and>
     su_nextOp demo_new = 0"
proof -
  have "su_mode demo_new = ModeStopped" "\<not> admission_closed demo_new" "su_nextOp demo_new = 0"
    "\<not> countersExhaustedLocked demo_new"
    by (simp_all add: demo_new_def newSupervisor_def newExecutionID_def demo_env_def validateLimits_def
        admission_closed_def countersExhaustedLocked_def recordSeqMargin_def word_le_nat_alt)
  then show ?thesis
    using start_step [where w = demo_new and S = "sup_call demo_keys demo_keys demo_env demo_super"
        and V = sup_env and E = demo_env and m = demo_super and ctx = "()" and data = 0]
    by (auto simp: beginOperationLocked_def Let_def)
qed

lemma supervisor_stays_consistent_witness:
  "\<exists>w p. sup_reachable demo_keys demo_keys demo_env demo_super (w, [p]) \<and>
     su_mode w = ModeExecuting \<and> p \<noteq> Return NilDereference \<and> \<not> op_revoked (su_ops w 0) \<and>
     sm_stateIndex demo_super (su_state w) \<noteq> None"
proof -
  obtain w p where w: "sup_step demo_keys demo_keys demo_env demo_super
       (demo_new, [super_Start demo_env demo_super (Some ()) 0]) (w, [p])"
     "su_mode w = ModeExecuting" "su_operation w = Some 0"
    using demo_starts by blast
  have r: "sup_reachable demo_keys demo_keys demo_env demo_super (w, [p])"
    by (rule reachable_step [OF demo_begins w(1)])
  show ?thesis
    using supervisor_stays_consistent [OF sup_demo_compiles r] r w by (intro exI [of _ w] exI [of _ p]) auto
qed

lemma operations_exclude_each_other_witness:
  "\<exists>w p. sup_step demo_keys demo_keys demo_env demo_super
       (demo_new, [super_Start demo_env demo_super (Some ()) 0]) (w, [p]) \<and>
     su_nextOp w \<noteq> su_nextOp demo_new \<and> su_live demo_new = {} \<and> su_operation demo_new = None"
proof -
  obtain w p where w: "sup_step demo_keys demo_keys demo_env demo_super
       (demo_new, [super_Start demo_env demo_super (Some ()) 0]) (w, [p])"
     "su_nextOp w = 1" "su_nextOp demo_new = 0"
    using demo_starts by blast
  then show ?thesis
    using operations_exclude_each_other [OF sup_demo_compiles demo_begins w(1)] by auto
qed

text \<open>A Start of the restored, faulted Supervisor is refused.\<close>

lemma demo_refuses:
  "\<exists>w p. sup_runs demo_keys demo_keys demo_env demo_super (demo_restored, []) (w, [p]) \<and>
     su_mode w = ModeFaulted \<and> su_nextRecord w = 5"
proof -
  let ?k = "super_finalize demo_env demo_super RecordStart"
  let ?base = "baseResultLocked demo_env demo_super demo_restored"
  obtain w p where wp: "refused_faulted demo_env ?base ?k demo_restored = (w, p)" by fastforce
  have mode: "su_mode demo_restored = ModeFaulted" "su_nextRecord demo_restored = 4"
    by (simp_all add: demo_restored_def newExecutionID_def restoreSupervisor_def restore_refusal_def demo_env_def
        validateLimits_def demo_snapshot_def machine_of_def sup_demo_def demo_keys_def
        recordSeqMargin_def state_info_of_def word_le_nat_alt)
  have "sup_step demo_keys demo_keys demo_env demo_super (demo_restored, [super_Start demo_env demo_super (Some ()) 0]) (w, [p])"
    unfolding super_Start_def startDecision_def option.case
    by (rule locked_step) (simp add: Let_def mode wp)
  then have "sup_runs demo_keys demo_keys demo_env demo_super (demo_restored, []) (w, [p])"
    using pool_snoc [OF begin_step [OF CallStart, of demo_keys demo_keys demo_env demo_super]] by blast
  moreover have "su_mode w = ModeFaulted \<and> su_nextRecord w = 5"
    using wp mode demo_restored_fields(1)
    by (auto simp: refused_faulted_def refused_def stampLocked_def split: option.splits)
  ultimately show ?thesis by blast
qed


end
