(* ===== verification/Super_Alone.thy ===== *)
theory Super_Alone
  imports Super_System
begin

text \<open>
  What a call does when nothing interferes.

  \<open>leads w p w' q\<close>: wherever the goroutine \<open>p\<close> stands among others, there is an execution in which
  only it and the goroutines it starts run, that ends with \<open>q\<close> in its place, the new goroutines
  finished. The lemmas follow the drivers; \<open>passes\<close> and \<open>selects\<close> are what the callbacks and the
  guards do to the application's world when called one after the other.
\<close>

section \<open>Programs that run alone\<close>

definition leads ::
    "(('w, 'a) prog \<Rightarrow> 'w \<Rightarrow> bool) \<Rightarrow> ('w \<Rightarrow> 'w \<Rightarrow> bool) \<Rightarrow> 'w \<Rightarrow> ('w, 'a) prog \<Rightarrow> 'w \<Rightarrow>
      ('w, 'a) prog \<Rightarrow> bool" where
  "leads S V w p w' q \<longleftrightarrow>
     (\<forall>ps qs. \<exists>ds. (\<forall>d \<in> set ds. \<exists>a. d = Return a) \<and>
        pool_runs S V (w, ps @ p # qs) (w', ps @ q # qs @ ds))"

lemma leads_refl: "leads S V w p w p"
  by (auto simp: leads_def intro!: exI [of _ "[]"] pool_refl)

lemma leads_trans [trans]:
  assumes "leads S V w p w1 q" "leads S V w1 q w2 r"
  shows "leads S V w p w2 r"
  unfolding leads_def
proof (intro allI)
  fix ps qs
  obtain ds where ds: "\<forall>d \<in> set ds. \<exists>a. d = Return a"
    "pool_runs S V (w, ps @ p # qs) (w1, ps @ q # qs @ ds)"
    using assms(1) unfolding leads_def by blast
  obtain es where es: "\<forall>d \<in> set es. \<exists>a. d = Return a"
    "pool_runs S V (w1, ps @ q # qs @ ds) (w2, ps @ r # (qs @ ds) @ es)"
    using assms(2) unfolding leads_def by blast
  show "\<exists>ds. (\<forall>d \<in> set ds. \<exists>a. d = Return a) \<and>
      pool_runs S V (w, ps @ p # qs) (w2, ps @ r # qs @ ds)"
    using ds es pool_runs_trans by (intro exI [of _ "ds @ es"]) auto
qed

lemma run_piece:
  "f w = Some (w', p, new) \<Longrightarrow>
     pool_runs S V (w, ps @ Piece f # qs) (w', ps @ p # qs @ new)"
  by (rule pool_snoc [OF pool_refl Run])

lemma leads_locked: "f w = (w', p) \<Longrightarrow> leads S V w (locked f) w' p"
  using run_piece [of "\<lambda>w. case f w of (w', p) \<Rightarrow> Some (w', p, [])" w w' p "[]" S V]
  by (auto simp: leads_def locked_def intro!: exI [of _ "[]"])

lemma leads_awaiting: "f w = Some (w', p) \<Longrightarrow> leads S V w (awaiting f) w' p"
  using run_piece [of "\<lambda>w. case f w of None \<Rightarrow> None | Some (w', p) \<Rightarrow> Some (w', p, [])" w w' p "[]" S V]
  by (auto simp: leads_def awaiting_def intro!: exI [of _ "[]"])

lemma leads_forked:
  assumes "f w = (w1, p, [c])" "leads S V w1 c w2 (Return a)"
  shows "leads S V w (forked f) w2 p"
  unfolding leads_def
proof (intro allI)
  fix ps qs
  have "pool_runs S V (w, ps @ forked f # qs) (w1, (ps @ p # qs) @ c # [])"
    unfolding forked_def using run_piece [of "\<lambda>w. Some (f w)" w w1 p "[c]" S V ps qs] assms(1) by simp
  moreover obtain es where es: "\<forall>d \<in> set es. \<exists>a. d = Return a"
    "pool_runs S V (w1, (ps @ p # qs) @ c # []) (w2, (ps @ p # qs) @ Return a # [] @ es)"
    using assms(2) unfolding leads_def by blast
  ultimately show "\<exists>ds. (\<forall>d \<in> set ds. \<exists>a. d = Return a) \<and>
      pool_runs S V (w, ps @ forked f # qs) (w2, ps @ p # qs @ ds)"
    using pool_runs_trans by (intro exI [of _ "Return a # es"]) auto
qed

section \<open>Callbacks in sequence\<close>

fun passes :: "('s, 'e, 'v) callback list \<Rightarrow> 'v \<Rightarrow> 'v option" where
  "passes [] v = Some v"
| "passes (act # acts) v =
     (case act v of (v', Ret None) \<Rightarrow> passes acts v' | _ \<Rightarrow> None)"

lemma passes_append:
  "passes (xs @ ys) v = (case passes xs v of None \<Rightarrow> None | Some v' \<Rightarrow> passes ys v')"
  by (induction xs arbitrary: v) (auto split: prod.splits outcome.splits option.splits)

text \<open>What a callback leaves alone: all but the application's world and the marks of what runs.\<close>

definition steady ::
    "nat \<Rightarrow> ('s, 'e, 'c, 't, 'v) sup \<Rightarrow> ('s, 'e, 'c, 't, 'v) sup \<Rightarrow> bool" where
  "steady op w w' \<longleftrightarrow>
     su_mode w' = su_mode w \<and> su_state w' = su_state w \<and> su_revision w' = su_revision w \<and>
     su_fault w' = su_fault w \<and> su_pending w' = su_pending w \<and> su_operation w' = su_operation w \<and>
     su_nextRecord w' = su_nextRecord w \<and> su_attempt w' = su_attempt w \<and>
     su_nextOperation w' = su_nextOperation w \<and> su_reporting w' = su_reporting w \<and>
     su_recorderRunning w' = su_recorderRunning w \<and> su_journalRunning w' = su_journalRunning w \<and>
     su_ctxs w' = su_ctxs w \<and> su_journalBusy w' = su_journalBusy w \<and>
     op_id (su_ops w' op) = op_id (su_ops w op) \<and>
     op_issuedAt (su_ops w' op) = op_issuedAt (su_ops w op) \<and>
     op_ctx (su_ops w' op) = op_ctx (su_ops w op) \<and>
     op_cancel (su_ops w' op) = op_cancel (su_ops w op) \<and>
     op_callbacks (su_ops w' op) = op_callbacks (su_ops w op) \<and>
     op_returned (su_ops w' op) = op_returned (su_ops w op) \<and>
     op_revoked (su_ops w' op) = op_revoked (su_ops w op) \<and>
     op_abandoned (su_ops w' op) = op_abandoned (su_ops w op)"

lemma steady_trans: "steady op w1 w2 \<Longrightarrow> steady op w2 w3 \<Longrightarrow> steady op w1 w3"
  by (simp add: steady_def)

text \<open>The operation of a call that has not been interfered with.\<close>

definition runs_alone :: "nat \<Rightarrow> ('s, 'e, 'c, 't, 'v) sup \<Rightarrow> bool" where
  "runs_alone op w \<longleftrightarrow>
     ownsLocked op w \<and> su_mode w = ModeExecuting \<and> su_ctxs w (op_ctx (su_ops w op)) = None \<and>
     \<not> op_returned (su_ops w op) \<and> \<not> op_abandoned (su_ops w op) \<and> op_callbacks (su_ops w op) = 0"

lemma runs_alone_steady: "runs_alone op w \<Longrightarrow> steady op w w' \<Longrightarrow> runs_alone op w'"
  by (simp add: runs_alone_def steady_def ownsLocked_def)

lemma leads_invoke:
  assumes "runs_alone op w" "act (su_app w) = (v, Ret e)"
  shows "\<exists>w'. leads S V w (invoke E op change phase act k) w' (k \<lparr>cb_err = e, cb_completed = True\<rparr>) \<and>
    steady op w w' \<and> su_app w' = v"
proof -
  let ?out = "\<lparr>cb_err = e, cb_completed = True\<rparr>"
  let ?ch = "su_nextChan w"
  define w1 where "w1 = new_goroutine (upd_op op (\<lambda>p. p\<lparr>op_change := change, op_phase := phase,
                          op_phaseAt := now E w, op_callbacks := op_callbacks p + 1\<rparr>) w)"
  define w2 where "w2 = w1\<lparr>su_app := v\<rparr>"
  define w3 where "w3 = send_outcome op ?ch ?out w2"
  note defs = w1_def w2_def w3_def new_goroutine_def send_outcome_def callback_ended_def
    callbackReturned_view ops_upd_op
  have st: "steady op w w3"
    using assms(1) unfolding steady_def runs_alone_def ownsLocked_def
    by (simp add: defs) (simp add: callbackReturnedLocked_def Let_def ops_upd_op upd_op_def)
  have app: "su_app w3 = v"
    by (simp add: defs callbackReturnedLocked_def Let_def)
  have sent: "su_outcomes w3 ?ch = Some ?out" by (simp add: w3_def send_outcome_def)
  have "leads S V w (invoke E op change phase act k) w (forked (\<lambda>w.
             if \<not> ownsLocked op w \<or> su_mode w \<noteq> ModeExecuting
             then (w, k \<lparr>cb_err = Some (lost_ownership w), cb_completed = False\<rparr>, [])
             else
               (let ch = su_nextChan w;
                    w = upd_op op (\<lambda>p. p\<lparr>op_change := change, op_phase := phase,
                          op_phaseAt := now E w, op_callbacks := op_callbacks p + 1\<rparr>) w in
                (new_goroutine w, invoke_wait op ch k,
                 [invoke_worker E op change phase act ch]))))"
    unfolding invoke_def
    by (rule leads_locked) (use assms(1) in \<open>simp add: runs_alone_def\<close>)
  also have "leads S V w \<dots> w3 (invoke_wait op ?ch k)"
  proof (rule leads_forked)
    show "(if \<not> ownsLocked op w \<or> su_mode w \<noteq> ModeExecuting
             then (w, k \<lparr>cb_err = Some (lost_ownership w), cb_completed = False\<rparr>, [])
             else
               (let ch = su_nextChan w;
                    w = upd_op op (\<lambda>p. p\<lparr>op_change := change, op_phase := phase,
                          op_phaseAt := now E w, op_callbacks := op_callbacks p + 1\<rparr>) w in
                (new_goroutine w, invoke_wait op ch k,
                 [invoke_worker E op change phase act ch]))) =
        (w1, invoke_wait op ?ch k, [invoke_worker E op change phase act ?ch])"
      using assms(1) by (simp add: runs_alone_def w1_def Let_def)
    have "leads S V w1 (invoke_worker E op change phase act ?ch) w2
        (invoke_publish E op change phase ?ch ?out)"
      unfolding invoke_worker_def run_callback_def
      by (rule leads_locked)
         (use assms(2) in \<open>simp add: w1_def w2_def new_goroutine_def callback_outcome_of_def\<close>)
    also have "leads S V w2 \<dots> w3 (Return Ended)"
      unfolding invoke_publish_def
      by (rule leads_locked)
         (use assms(1) in \<open>simp add: runs_alone_def w1_def w2_def w3_def new_goroutine_def ops_upd_op\<close>)
    finally show "leads S V w1 (invoke_worker E op change phase act ?ch) w3 (Return Ended)" .
  qed
  also have "leads S V w3 \<dots> w3 (locked (\<lambda>w. (w, k (timed_out (su_ctxs w (op_ctx (su_ops w op))) ?out))))"
    unfolding invoke_wait_def by (rule leads_awaiting) (simp add: sent)
  also have "leads S V w3 \<dots> w3 (k ?out)"
    by (rule leads_locked)
       (use runs_alone_steady [OF assms(1) st] in \<open>simp add: runs_alone_def timed_out_def\<close>)
  finally show ?thesis using st app by blast
qed

lemma leads_invoke_each:
  assumes "runs_alone op w" "passes acts (su_app w) = Some v"
  shows "\<exists>w'. leads S V w (invoke_each E op change phase acts fail k) w' k \<and>
    steady op w w' \<and> su_app w' = v"
  using assms
proof (induction acts arbitrary: w)
  case Nil
  then show ?case by (auto simp: steady_def intro: leads_refl)
next
  case (Cons act acts)
  obtain v1 where act: "act (su_app w) = (v1, Ret None)" and rest: "passes acts v1 = Some v"
    using Cons.prems(2) by (auto split: prod.splits outcome.splits option.splits)
  obtain w1 where w1: "leads S V w (invoke_each E op change phase (act # acts) fail k) w1
      (invoke_each E op change phase acts fail k)" "steady op w w1" "su_app w1 = v1"
    using leads_invoke [where act = act and S = S and V = V and E = E and change = change and phase = phase
        and k = "\<lambda>out. case cb_err out of
         None \<Rightarrow> invoke_each E op change phase acts fail k
       | Some e \<Rightarrow> fail (if cb_completed out then SViolation phase e else e)", OF Cons.prems(1) act] by auto
  obtain w2 where w2: "leads S V w1 (invoke_each E op change phase acts fail k) w2 k"
    "steady op w1 w2" "su_app w2 = v"
    using Cons.IH [OF runs_alone_steady [OF Cons.prems(1) w1(2)]] rest w1(3) by blast
  show ?case
    using leads_trans [OF w1(1) w2(1)] steady_trans [OF w1(2) w2(2)] w2(3) by blast
qed

fun selects ::
    "'c \<Rightarrow> 't \<Rightarrow> ('s, 'e) attempt \<Rightarrow> ('s, 'e, 'c, 't, 'v) compiled_row list \<Rightarrow> 'v \<Rightarrow>
      (('s, 'e, 'c, 't, 'v) compiled_row \<times> 'v) option" where
  "selects ctx data a [] v = None"
| "selects ctx data a (row # rows) v =
     (case co_guard row of
        None \<Rightarrow> Some (row, v)
      | Some guard \<Rightarrow>
          (case guard ctx (candidate_change a row) data v of
             (v', Ret None) \<Rightarrow> Some (row, v')
           | (v', Ret (Some e)) \<Rightarrow> selects ctx data a rows v'
           | _ \<Rightarrow> None))"

lemma leads_try_candidates:
  assumes "runs_alone op w" "selects ctx data a rows (su_app w) = Some (row, v)"
  shows "\<exists>w'. leads S V w (try_candidates E m op ctx data a base rows reasons stop found none) w' (found row) \<and>
    steady op w w' \<and> su_app w' = v"
  using assms
proof (induction rows arbitrary: w reasons)
  case (Cons r rows)
  show ?case
  proof (cases "co_guard r")
    case None
    then show ?thesis using Cons.prems by (auto simp: steady_def intro: leads_refl)
  next
    case (Some guard)
    obtain v1 e where g: "guard ctx (candidate_change a r) data (su_app w) = (v1, Ret e)"
      using Cons.prems(2) Some by (auto split: prod.splits outcome.splits)
    let ?k = "\<lambda>out. case cb_err out of
               None \<Rightarrow> found r
             | Some e \<Rightarrow>
                 if \<not> cb_completed out
                 then latchResult E m base op (candidate_change a r) PhaseGuard e False stop
                 else try_candidates E m op ctx data a base rows (reasons @ [e]) stop found none"
    obtain w1 where w1: "leads S V w (try_candidates E m op ctx data a base (r # rows) reasons stop found none)
        w1 (?k \<lparr>cb_err = e, cb_completed = True\<rparr>)" "steady op w w1" "su_app w1 = v1"
      using leads_invoke [where act = "guard ctx (candidate_change a r) data" and S = S and V = V and E = E
          and change = "candidate_change a r" and phase = PhaseGuard and k = ?k, OF Cons.prems(1) g] Some
      by (auto simp: Let_def)
    show ?thesis
    proof (cases e)
      case None
      then show ?thesis using w1 Cons.prems(2) Some g by auto
    next
      case (Some err)
      then have "selects ctx data a rows (su_app w1) = Some (row, v)"
        using Cons.prems(2) \<open>co_guard r = Some guard\<close> g w1(3) by simp
      from Cons.IH [OF runs_alone_steady [OF Cons.prems(1) w1(2)] this, of "reasons @ [err]"]
      obtain w2 where "leads S V w1 (try_candidates E m op ctx data a base rows (reasons @ [err]) stop found none)
          w2 (found row)" "steady op w1 w2" "su_app w2 = v" by blast
      then show ?thesis
        using w1 Some leads_trans steady_trans [OF w1(2)] by fastforce
    qed
  qed
qed simp

section \<open>The end of a call\<close>

text \<open>What the end of a call leaves alone.\<close>

definition settled ::
    "('s, 'e, 'c, 't, 'v) sup \<Rightarrow> ('s, 'e, 'c, 't, 'v) sup \<Rightarrow> bool" where
  "settled w w' \<longleftrightarrow>
     su_mode w' = su_mode w \<and> su_state w' = su_state w \<and> su_revision w' = su_revision w \<and>
     su_fault w' = su_fault w \<and> su_pending w' = su_pending w \<and> su_attempt w' = su_attempt w \<and>
     su_nextOperation w' = su_nextOperation w \<and> su_reporting w' = su_reporting w \<and>
     su_recorderRunning w' = su_recorderRunning w \<and> su_journalRunning w' = su_journalRunning w \<and>
     su_journalBusy w' = su_journalBusy w \<and> su_app w' = su_app w"

lemma cancel_ctx_alone:
  "settled w (cancel_ctx c w)" "su_nextRecord (cancel_ctx c w) = su_nextRecord w"
  "su_operation (cancel_ctx c w) = su_operation w" "su_ops (cancel_ctx c w) = su_ops w"
  by (simp_all add: cancel_ctx_def end_ctx_def settled_def)

lemma leads_cancelling:
  "\<exists>w'. leads S V w (cancelling c k) w' k \<and> settled w w' \<and> su_nextRecord w' = su_nextRecord w \<and>
     su_operation w' = su_operation w \<and> su_ops w' = su_ops w"
proof (cases c)
  case None
  then show ?thesis by (auto simp: cancelling_def settled_def intro!: exI [of _ w] leads_refl)
next
  case (Some ctx)
  have "leads S V w (cancelling c k) (cancel_ctx ctx w) k"
    unfolding cancelling_def Some option.case by (rule leads_locked) simp
  then show ?thesis using cancel_ctx_alone by blast
qed

lemma leads_if_ended:
  "runs_alone op w \<Longrightarrow> leads S V w (if_ended op ended k) w k"
  unfolding if_ended_def by (rule leads_locked) (simp add: runs_alone_def)

text \<open>A decided operation: nothing of it runs, and its call has still to return.\<close>

definition decided :: "nat \<Rightarrow> ('s, 'e, 'c, 't, 'v) sup \<Rightarrow> bool" where
  "decided op w \<longleftrightarrow>
     su_operation w = Some op \<and> op_callbacks (su_ops w op) = 0 \<and> \<not> op_returned (su_ops w op)"

lemma begun_runs_alone:
  assumes "beginOperationLocked E ctx change phase w = (w', op)" "se_err E ctx (su_app w) = None"
  shows "runs_alone op w'"
  using assms by (auto simp: beginOperationLocked_def Let_def runs_alone_def ownsLocked_def)

lemma begun_keeps:
  assumes "beginOperationLocked E ctx change phase w = (w', op)"
  shows "su_state w' = su_state w" "su_revision w' = su_revision w" "su_attempt w' = su_attempt w"
    "su_nextRecord w' = su_nextRecord w" "su_fault w' = su_fault w" "su_pending w' = su_pending w"
    "su_app w' = su_app w" "su_recorderRunning w' = su_recorderRunning w"
    "su_journalRunning w' = su_journalRunning w" "su_reporting w' = su_reporting w"
    "su_nextOperation w' = su_nextOperation w + 1" "su_journalBusy w' = su_journalBusy w"
    "op_id (su_ops w' op) = su_nextOperation w + 1"
  using assms by (auto simp: beginOperationLocked_def Let_def)

lemma recordResult_alone:
  assumes "recordResultLocked E kind r w = (w', x)" "rs_ok (re_stamp r)"
  shows "settled w w' \<and> su_nextRecord w' = su_nextRecord w \<and> su_operation w' = su_operation w \<and>
    su_ops w' = su_ops w"
  using assms by (auto simp: recordResultLocked_def settled_def appendRecordLocked_def Let_def
      split: prod.splits if_splits option.splits)

lemma leads_returning:
  fixes w :: "('s, 'e, 'c, 't, 'v) sup"
  assumes "se_recorder E = None" "decided op w" "re_owner r = Some op" "\<not> re_reporting r"
    "rs_ok (re_stamp r)"
  defines "k \<equiv> Return (ResultOf (r\<lparr>re_owner := None, re_reporting := False\<rparr>))
      :: ('s, 'e, 'c, 't, 'v) sprog"
  shows "\<exists>w'. leads S V w (recordResult E kind r
      (if re_reporting r then locked (\<lambda>w. (reportingReturned w, k))
       else case re_owner r of Some op \<Rightarrow> locked (\<lambda>w. (operationReturned op w, k)) | None \<Rightarrow> k)) w' k \<and>
    settled w w' \<and> su_nextRecord w' = su_nextRecord w \<and> su_operation w' = None"
proof -
  obtain w1 x where w1: "recordResultLocked E kind r w = (w1, x)" by fastforce
  note kept = recordResult_alone [OF w1 assms(5)]
  have "leads S V w (recordResult E kind r
      (if re_reporting r then locked (\<lambda>w. (reportingReturned w, k))
       else case re_owner r of Some op \<Rightarrow> locked (\<lambda>w. (operationReturned op w, k)) | None \<Rightarrow> k))
      w1 (locked (\<lambda>w. (operationReturned op w, k)))"
    unfolding recordResult_def
    by (rule leads_locked) (use assms(1, 3, 4) w1 in \<open>simp split: option.splits\<close>)
  also have "leads S V w1 \<dots> (operationReturned op w1) k"
    by (rule leads_locked) simp
  finally show ?thesis
    using kept assms(2)
    by (intro exI [of _ "operationReturned op w1"])
      (simp add: operationReturned_def Let_def settled_def upd_op_def decided_def)
qed

lemma leads_finalize:
  fixes w :: "('s, 'e, 'c, 't, 'v) sup"
  assumes "se_journal E = None \<or> \<not> rs_durable (re_stamp r)" "se_recorder E = None" "decided op w"
    "re_owner r = Some op" "\<not> re_reporting r" "rs_ok (re_stamp r)"
  shows "\<exists>w'. leads S V w (super_finalize E m kind r) w'
      (Return (ResultOf ((completed (now E w) r)\<lparr>re_owner := None, re_reporting := False\<rparr>))) \<and>
    settled w w' \<and> su_nextRecord w' = su_nextRecord w \<and> su_operation w' = None"
proof -
  let ?r = "completed (now E w) r"
  have r: "re_owner ?r = Some op" "\<not> re_reporting ?r" "rs_ok (re_stamp ?r)"
    using assms(4-6) by simp_all
  have "leads S V w (super_finalize E m kind r) w
      (recordResult E kind ?r
        (let k = Return (ResultOf (?r\<lparr>re_owner := None, re_reporting := False\<rparr>)) in
         if re_reporting ?r then locked (\<lambda>w. (reportingReturned w, k))
         else case re_owner ?r of Some op \<Rightarrow> locked (\<lambda>w. (operationReturned op w, k)) | None \<Rightarrow> k))"
    unfolding super_finalize_def completeResult_def
    by (rule leads_locked) (use assms(1) in \<open>auto simp: closeJournalAfter_def closeJournal_def\<close>)
  then show ?thesis
    using leads_returning [where S = S and V = V and kind = kind and w = w, OF assms(2, 3) r]
    unfolding Let_def by (blast intro: leads_trans)
qed

lemma runs_alone_take_cancel:
  "take_cancel op w = (w', c) \<Longrightarrow> runs_alone op w \<Longrightarrow>
     decided op w' \<and> settled w w' \<and> su_nextRecord w' = su_nextRecord w"
  by (auto simp: take_cancel_def runs_alone_def ownsLocked_def decided_def upd_op_def settled_def)

lemma leads_commit:
  assumes "runs_alone op w" "su_revision w \<noteq> - 1" "su_nextRecord w \<noteq> - 1"
  shows "\<exists>w' stamp. leads S V w (super_commit E m op base change issued verified k) w'
      (k (base\<lparr>re_stamp := stamp, re_phase := PhaseCommit, re_revision := su_revision w + 1,
               re_issued := issued, re_verified := verified, re_committed := True\<rparr>)) \<and>
    rs_ok stamp \<and> rs_durable stamp \<and> decided op w' \<and> su_mode w' = ModeReady \<and>
    su_state w' = ch_to change \<and> su_revision w' = su_revision w + 1 \<and>
    su_nextRecord w' = su_nextRecord w + 1 \<and> su_app w' = su_app w \<and> su_fault w' = su_fault w \<and>
    su_pending w' = None \<and> su_journalBusy w' = su_journalBusy w \<and>
    su_journalRunning w' = su_journalRunning w"
proof -
  let ?c = "w\<lparr>su_state := ch_to change, su_revision := su_revision w + 1, su_pending := None\<rparr>"
  obtain w1 cancel where t: "take_cancel op ?c = (w1, cancel)" by fastforce
  have "runs_alone op ?c" using assms(1) by (simp add: runs_alone_def ownsLocked_def)
  then have d: "decided op w1" "settled ?c w1" "su_nextRecord w1 = su_nextRecord w"
    using runs_alone_take_cancel [OF t] by simp_all
  then have f: "su_state w1 = ch_to change" "su_revision w1 = su_revision w + 1"
    "su_app w1 = su_app w" "su_fault w1 = su_fault w" "su_pending w1 = None"
    "su_journalBusy w1 = su_journalBusy w" "su_journalRunning w1 = su_journalRunning w"
    by (simp_all add: settled_def)
  let ?w2 = "fst (stampLocked E (w1\<lparr>su_mode := ModeReady\<rparr>))"
  let ?stamp = "(snd (stampLocked E (w1\<lparr>su_mode := ModeReady\<rparr>)))\<lparr>rs_durable := True\<rparr>"
  let ?k = "k (base\<lparr>re_stamp := ?stamp, re_phase := PhaseCommit, re_revision := su_revision w + 1,
               re_issued := issued, re_verified := verified, re_committed := True\<rparr>)"
  have w2: "rs_ok ?stamp" "decided op ?w2" "su_mode ?w2 = ModeReady" "su_state ?w2 = ch_to change"
    "su_revision ?w2 = su_revision w + 1" "su_nextRecord ?w2 = su_nextRecord w + 1"
    "su_app ?w2 = su_app w" "su_fault ?w2 = su_fault w" "su_pending ?w2 = None"
    "su_journalBusy ?w2 = su_journalBusy w" "su_journalRunning ?w2 = su_journalRunning w"
    "rs_durable ?stamp"
    using d f assms(3) by (simp_all add: stampLocked_def decided_def)
  have own: "ownsLocked op w" "su_mode w = ModeExecuting" using assms(1) by (simp_all add: runs_alone_def)
  have "leads S V w (super_commit E m op base change issued verified k) w
       (locked (\<lambda>w. case commit_region E m op base change issued w of
          (w, base, outcome, cancel) \<Rightarrow>
            (w, cancelling cancel
                  (case outcome of
                     Inl fault \<Rightarrow> k (faultResult base fault)
                   | Inr revision \<Rightarrow>
                       k (base\<lparr>re_phase := PhaseCommit, re_revision := revision,
                               re_issued := issued, re_verified := verified,
                               re_committed := True\<rparr>)))))"
    unfolding super_commit_def by (rule leads_if_ended [OF assms(1)])
  also have "leads S V w \<dots> ?w2 (cancelling cancel ?k)"
    by (rule leads_locked)
       (use own assms(2) t f(2) assms(3) d(3) in
         \<open>simp add: commit_region_def stampLocked_def\<close>)
  finally have to_cancel: "leads S V w (super_commit E m op base change issued verified k) ?w2 (cancelling cancel ?k)" .
  obtain w3 where w3: "leads S V ?w2 (cancelling cancel ?k) w3 ?k" "settled ?w2 w3"
      "su_nextRecord w3 = su_nextRecord ?w2" "su_operation w3 = su_operation ?w2" "su_ops w3 = su_ops ?w2"
    using leads_cancelling by blast
  then have "rs_ok ?stamp \<and> rs_durable ?stamp \<and> decided op w3 \<and> su_mode w3 = ModeReady \<and>
    su_state w3 = ch_to change \<and> su_revision w3 = su_revision w + 1 \<and>
    su_nextRecord w3 = su_nextRecord w + 1 \<and> su_app w3 = su_app w \<and> su_fault w3 = su_fault w \<and>
    su_pending w3 = None \<and> su_journalBusy w3 = su_journalBusy w \<and>
    su_journalRunning w3 = su_journalRunning w"
    using w2 by (simp add: decided_def settled_def)
  then show ?thesis using leads_trans [OF to_cancel w3(1)] by blast
qed

lemma leads_finishReady:
  assumes "runs_alone op w" "su_nextRecord w \<noteq> - 1"
  shows "\<exists>w' stamp. leads S V w (finishReady E op base k) w' (k (base\<lparr>re_stamp := stamp\<rparr>) None) \<and>
    rs_ok stamp \<and> rs_durable stamp \<and> decided op w' \<and> su_mode w' = ModeReady \<and>
    su_nextRecord w' = su_nextRecord w + 1 \<and> settled w (w'\<lparr>su_mode := su_mode w\<rparr>)"
proof -
  obtain w1 cancel where t: "take_cancel op w = (w1, cancel)" by fastforce
  note d = runs_alone_take_cancel [OF t assms(1)]
  let ?w2 = "fst (stampLocked E (w1\<lparr>su_mode := ModeReady\<rparr>))"
  let ?stamp = "(snd (stampLocked E (w1\<lparr>su_mode := ModeReady\<rparr>)))\<lparr>rs_durable := True\<rparr>"
  have w2: "rs_ok ?stamp" "decided op ?w2" "su_mode ?w2 = ModeReady"
    "su_nextRecord ?w2 = su_nextRecord w + 1" "settled w (?w2\<lparr>su_mode := su_mode w\<rparr>)"
    using d assms(2) by (simp_all add: stampLocked_def decided_def settled_def)
  have "leads S V w (finishReady E op base k) ?w2 (cancelling cancel (k (base\<lparr>re_stamp := ?stamp\<rparr>) None))"
    unfolding finishReady_def
    by (rule leads_locked)
       (use assms t d in \<open>simp add: finishReady_region_def runs_alone_def stampLocked_def\<close>)
  note to_cancel = this
  obtain w3 where w3: "leads S V ?w2 (cancelling cancel (k (base\<lparr>re_stamp := ?stamp\<rparr>) None)) w3
        (k (base\<lparr>re_stamp := ?stamp\<rparr>) None)" "settled ?w2 w3"
      "su_nextRecord w3 = su_nextRecord ?w2" "su_operation w3 = su_operation ?w2" "su_ops w3 = su_ops ?w2"
    using leads_cancelling by blast
  have "decided op w3 \<and> su_mode w3 = ModeReady \<and> su_nextRecord w3 = su_nextRecord w + 1 \<and>
    settled w (w3\<lparr>su_mode := su_mode w\<rparr>)"
    using w2 w3 by (simp add: decided_def settled_def)
  then show ?thesis
    using leads_trans [OF to_cancel w3(1)] w2(1) by (intro exI [of _ w3] exI [of _ ?stamp]) simp
qed

section \<open>Whole calls\<close>

text \<open>Start, when every Reconcile callback agrees.\<close>

lemma leads_started:
  assumes free: "su_mode w = ModeStopped" "\<not> admission_closed w" "\<not> countersExhaustedLocked w"
    and ctx: "se_err E ctx (su_app w) = None"
    and agree: "\<And>snapshot. passes (map (\<lambda>reconcile. reconcile ctx snapshot data) (sm_reconcile m))
      (su_app w) = Some v"
  shows "\<exists>w' op r. leads S V w (super_Start E m (Some ctx) data) w' (super_finalize E m RecordStart r) \<and>
    re_owner r = Some op \<and> \<not> re_reporting r \<and> re_err r = None \<and> rs_ok (re_stamp r) \<and>
    rs_durable (re_stamp r) \<and> decided op w' \<and> su_mode w' = ModeReady \<and> su_app w' = v \<and>
    su_nextRecord w' = su_nextRecord w + 1 \<and> su_state w' = su_state w \<and>
    su_revision w' = su_revision w \<and> su_attempt w' = su_attempt w \<and>
    su_nextOperation w' = su_nextOperation w + 1 \<and> su_recorderRunning w' = su_recorderRunning w \<and>
    su_journalRunning w' = su_journalRunning w \<and> su_reporting w' = su_reporting w \<and>
    su_fault w' = su_fault w \<and> su_pending w' = su_pending w \<and> su_journalBusy w' = su_journalBusy w"
proof -
  let ?change = "currentChangeLocked E m w"
  obtain w1 op where b: "beginOperationLocked E ctx ?change PhaseStart w = (w1, op)" by fastforce
  note kept = begun_keeps [OF b]
  note alone = begun_runs_alone [OF b ctx]
  have rec: "su_nextRecord w \<noteq> - 1" using free(3)
    by (auto simp: countersExhaustedLocked_def recordSeqMargin_def)
  let ?base = "(baseResultLocked E m w)\<lparr>re_operation := op_id (su_ops w1 op), re_owner := Some op,
      re_startedAt := op_startedAt (su_ops w1 op)\<rparr>"
  let ?fin = "super_finalize E m RecordStart"
  let ?last = "finishReady E op ?base (\<lambda>base fault.
             case fault of
               Some f \<Rightarrow> ?fin (faultResult base (Some f))
             | None \<Rightarrow> ?fin (base\<lparr>re_phase := PhaseStart\<rparr>))"
  have 1: "leads S V w (super_Start E m (Some ctx) data) w1
      (start_run E m ctx data op ?change (snapshotLocked E m w1) ?base ?fin)"
    unfolding super_Start_def startDecision_def option.case
    by (rule leads_locked) (use free b in \<open>simp add: Let_def\<close>)
  obtain w2 where 2: "leads S V w1 (start_run E m ctx data op ?change (snapshotLocked E m w1) ?base ?fin) w2
      (if_ended op (\<lambda>err. latchResult E m ?base op ?change PhaseStart err True ?fin) ?last)"
    "steady op w1 w2" "su_app w2 = v"
    using leads_invoke_each [OF alone agree [of "snapshotLocked E m w1", folded kept(7)]]
    unfolding start_run_def by blast
  note alone2 = runs_alone_steady [OF alone 2(2)]
  have "su_nextRecord w2 \<noteq> - 1" using 2(2) kept rec by (simp add: steady_def)
  then obtain w3 stamp where 3: "leads S V w2 ?last w3 (?fin (?base\<lparr>re_stamp := stamp, re_phase := PhaseStart\<rparr>))"
    "rs_ok stamp" "rs_durable stamp" "decided op w3" "su_mode w3 = ModeReady" "su_nextRecord w3 = su_nextRecord w2 + 1"
    "settled w2 (w3\<lparr>su_mode := su_mode w2\<rparr>)"
    using leads_finishReady [where S = S and V = V and E = E and base = ?base and k = "\<lambda>base fault.
             case fault of
               Some f \<Rightarrow> ?fin (faultResult base (Some f))
             | None \<Rightarrow> ?fin (base\<lparr>re_phase := PhaseStart\<rparr>)", OF alone2] by auto
  have "leads S V w (super_Start E m (Some ctx) data) w3 (?fin (?base\<lparr>re_stamp := stamp, re_phase := PhaseStart\<rparr>))"
    by (rule leads_trans [OF 1 leads_trans [OF 2(1) leads_trans [OF leads_if_ended [OF alone2] 3(1)]]])
  then show ?thesis
    using 2 3 kept
    by (intro exI [of _ w3] exI [of _ op] exI [of _ "?base\<lparr>re_stamp := stamp, re_phase := PhaseStart\<rparr>"])
      (simp add: steady_def settled_def baseResultLocked_def zero_result_def)
qed

lemma leads_start:
  assumes adapters: "se_journal E = None" "se_recorder E = None"
    and free: "su_mode w = ModeStopped" "\<not> admission_closed w" "\<not> countersExhaustedLocked w"
    and ctx: "se_err E ctx (su_app w) = None"
    and agree: "\<And>snapshot. passes (map (\<lambda>reconcile. reconcile ctx snapshot data) (sm_reconcile m))
      (su_app w) = Some v"
  shows "\<exists>w' r. leads S V w (super_Start E m (Some ctx) data) w' (Return (ResultOf r)) \<and>
    re_err r = None \<and> su_mode w' = ModeReady \<and> su_operation w' = None \<and> su_app w' = v \<and>
    su_nextRecord w' = su_nextRecord w + 1 \<and> su_state w' = su_state w \<and>
    su_revision w' = su_revision w \<and> su_attempt w' = su_attempt w \<and>
    su_nextOperation w' = su_nextOperation w + 1 \<and> su_recorderRunning w' = su_recorderRunning w \<and>
    su_journalRunning w' = su_journalRunning w \<and> su_reporting w' = su_reporting w"
proof -
  obtain w3 op r where 3: "leads S V w (super_Start E m (Some ctx) data) w3 (super_finalize E m RecordStart r)"
    "re_owner r = Some op" "\<not> re_reporting r" "re_err r = None" "rs_ok (re_stamp r)" "decided op w3"
    "su_mode w3 = ModeReady" "su_app w3 = v" "su_nextRecord w3 = su_nextRecord w + 1"
    "su_state w3 = su_state w" "su_revision w3 = su_revision w" "su_attempt w3 = su_attempt w"
    "su_nextOperation w3 = su_nextOperation w + 1" "su_recorderRunning w3 = su_recorderRunning w"
    "su_journalRunning w3 = su_journalRunning w" "su_reporting w3 = su_reporting w"
    using leads_started [where S = S and V = V, OF free ctx agree] by blast
  obtain w4 where 4: "leads S V w3 (super_finalize E m RecordStart r) w4
      (Return (ResultOf ((completed (now E w3) r)\<lparr>re_owner := None, re_reporting := False\<rparr>)))"
    "settled w3 w4" "su_nextRecord w4 = su_nextRecord w3" "su_operation w4 = None"
    using leads_finalize [where S = S and V = V and m = m and kind = RecordStart,
        OF disjI1 [OF adapters(1)] adapters(2) 3(6, 2, 3, 5)] by blast
  show ?thesis
    using leads_trans [OF 3(1) 4(1)] 3(4-) 4(2-)
    by (intro exI [of _ w4] exI) (auto simp: settled_def completed_def Let_def)
qed

text \<open>The attempt an Issue makes, once admitted.\<close>

definition next_attempt ::
    "('s, 'e, 'c, 'v) senv \<Rightarrow> ('s, 'e, 'c, 't, 'v) smachine \<Rightarrow> 'e \<Rightarrow> ('s, 'e, 'c, 't, 'v) sup \<Rightarrow>
      ('s, 'e) attempt" where
  "next_attempt E m event w =
     \<lparr>at_definition = sm_id m, at_execution = su_execution w, at_incarnation = su_incarnation w,
      at_id = su_attempt w + 1, at_revision = su_revision w, at_started = now E w,
      at_from = su_state w, at_event = event\<rparr>"

text \<open>The admission of an Issue.\<close>

lemma leads_admission:
  assumes "su_mode w = ModeReady" "\<not> admission_closed w" "\<not> countersExhaustedLocked w"
    "su_attempt w \<noteq> - 1" "key_ok L event" "event \<in> sm_eventSet m" "se_err E ctx (su_app w) = None"
  shows "\<exists>w' op change base. leads S V w (super_Issue L E m (Some ctx) event data) w'
      (issue_run E m ctx data op (next_attempt E m event w) change base (super_finalize E m RecordIssue)) \<and>
    runs_alone op w' \<and> re_owner base = Some op \<and> \<not> re_reporting base \<and> re_err base = None \<and>
    \<not> re_committed base \<and> re_from base = su_state w \<and> su_pending w' = su_pending w \<and>
    su_journalBusy w' = su_journalBusy w \<and> su_journalRunning w' = su_journalRunning w \<and>
    su_recorderRunning w' = su_recorderRunning w \<and> su_reporting w' = su_reporting w \<and>
    su_nextOperation w' = su_nextOperation w + 1 \<and> su_app w' = su_app w \<and> su_state w' = su_state w \<and> su_revision w' = su_revision w \<and>
    su_nextRecord w' = su_nextRecord w \<and> su_fault w' = su_fault w"
proof -
  let ?a = "next_attempt E m event w"
  let ?w = "w\<lparr>su_attempt := su_attempt w + 1\<rparr>"
  let ?change = "attempt.extend ?a (change.fields [] (su_state w)) :: ('a, 'b) change"
  obtain w1 op where b: "beginOperationLocked E ctx ?change PhasePrecondition ?w = (w1, op)" by fastforce
  note kept = begun_keeps [OF b]
  have alone: "runs_alone op w1" using begun_runs_alone [OF b] assms(7) by simp
  let ?base = "(baseResultLocked E m w)\<lparr>re_event := event, re_change := ?change,
      re_attempt := at_id ?a, re_attemptKey := Identifier ?a,
      re_startedAt := op_startedAt (su_ops w1 op), re_operation := op_id (su_ops w1 op),
      re_owner := Some op\<rparr>"
  have "leads S V w (super_Issue L E m (Some ctx) event data) w1
      (issue_run E m ctx data op ?a ?change ?base (super_finalize E m RecordIssue))"
    unfolding super_Issue_def issueDecision_def option.case
    by (rule leads_locked)
       (use assms b in \<open>simp add: Let_def next_attempt_def now_def\<close>)
  then show ?thesis
    using alone kept
    by (intro exI [of _ w1] exI [of _ op] exI [of _ ?change] exI [of _ ?base])
       (simp add: baseResultLocked_def zero_result_def)
qed

text \<open>A selected logical row: its checks, the invariants, the postconditions, the commit.\<close>

lemma leads_logical:
  assumes "runs_alone op w" "co_issue row = None" "su_revision w \<noteq> - 1" "su_nextRecord w \<noteq> - 1"
    and "passes (map (\<lambda>check. check ctx change data)
           (co_preconditions row @ sm_invariants m @ sm_postconditions m)) (su_app w) = Some v"
  shows "\<exists>w' stamp. leads S V w (issue_selected E m op ctx data change row base k) w'
      (k (base\<lparr>re_stamp := stamp, re_phase := PhaseCommit, re_revision := su_revision w + 1,
               re_issued := False, re_verified := False, re_committed := True\<rparr>)) \<and>
    rs_ok stamp \<and> decided op w' \<and> su_mode w' = ModeReady \<and> su_state w' = ch_to change \<and>
    su_revision w' = su_revision w + 1 \<and> su_app w' = v \<and> su_fault w' = su_fault w"
proof -
  let ?run = "map (\<lambda>check. check ctx change data)"
  obtain v1 v2 where v: "passes (?run (co_preconditions row)) (su_app w) = Some v1"
    "passes (?run (sm_invariants m)) v1 = Some v2" "passes (?run (sm_postconditions m)) v2 = Some v"
    using assms(5) by (auto simp: passes_append split: option.splits)
  let ?P3 = "super_commit E m op base change False False k"
  let ?P2 = "runChecks E m op ctx base change PhasePostcondition (sm_postconditions m) data False k ?P3"
  let ?P1 = "runChecks E m op ctx base change PhaseInvariant (sm_invariants m) data False k ?P2"
  obtain w1 where w1: "leads S V w
      (runChecks E m op ctx base change PhasePrecondition (co_preconditions row) data False k ?P1) w1 ?P1"
    "steady op w w1" "su_app w1 = v1"
    using leads_invoke_each [OF assms(1) v(1)] unfolding runChecks_def by blast
  note a1 = runs_alone_steady [OF assms(1) w1(2)]
  obtain w2 where w2: "leads S V w1 ?P1 w2 ?P2" "steady op w1 w2" "su_app w2 = v2"
    using leads_invoke_each [OF a1 v(2) [folded w1(3)]] unfolding runChecks_def by blast
  note a2 = runs_alone_steady [OF a1 w2(2)]
  obtain w3 where w3: "leads S V w2 ?P2 w3 ?P3" "steady op w2 w3" "su_app w3 = v"
    using leads_invoke_each [OF a2 v(3) [folded w2(3)]] unfolding runChecks_def by blast
  note a3 = runs_alone_steady [OF a2 w3(2)]
  have st: "steady op w w3" using steady_trans [OF w1(2)] steady_trans [OF w2(2)] w3(2) by blast
  then have rev: "su_revision w3 = su_revision w" "su_nextRecord w3 = su_nextRecord w"
    "su_fault w3 = su_fault w" by (simp_all add: steady_def)
  have "leads S V w (issue_selected E m op ctx data change row base k) w3 ?P3"
    unfolding issue_selected_def assms(2) option.case
    by (rule leads_trans [OF w1(1) leads_trans [OF w2(1) w3(1)]])
  then show ?thesis
    using leads_commit [where E = E and m = m and base = base and change = change and issued = False
        and verified = False and k = k and S = S and V = V, OF a3] rev assms(3, 4) w3(3)
    by (fastforce intro: leads_trans)
qed

text \<open>An admitted Issue up to the selection of its row.\<close>

definition selected_base ::
    "('s, 'e) attempt \<Rightarrow> ('s, 'e, 'c, 't, 'v) compiled_row \<Rightarrow> ('s, 'e) sresult \<Rightarrow> ('s, 'e) sresult" where
  "selected_base a row base =
     base\<lparr>re_change := candidate_change a row, re_selected := True, re_transition := co_id row,
          re_to := co_to row\<rparr>"

lemma leads_selection:
  assumes "runs_alone op w" "passes (map (\<lambda>p. p ctx a data) (sm_preconditions m)) (su_app w) = Some v1"
    and "selects ctx data a (slice (sm_rows m) (at_from a, at_event a)) v1 = Some (row, v2)"
  shows "\<exists>w'. leads S V w (issue_run E m ctx data op a change base k) w'
      (issue_selected E m op ctx data (candidate_change a row) row (selected_base a row base) k) \<and>
    steady op w w' \<and> runs_alone op w' \<and> su_app w' = v2"
proof -
  let ?c = "candidate_change a row"
  let ?found = "\<lambda>row. let change = candidate_change a row in
             issue_selected E m op ctx data change row
               (base\<lparr>re_change := change, re_selected := True, re_transition := ch_transition change,
                     re_to := ch_to change\<rparr>) k"
  have found: "?found row = issue_selected E m op ctx data ?c row (selected_base a row base) k"
    by (simp add: Let_def selected_base_def)
  obtain w2 none where 2: "leads S V w (issue_run E m ctx data op a change base k) w2
       (try_candidates E m op ctx data a base (slice (sm_rows m) (at_from a, at_event a)) [] k
          ?found none)"
    "steady op w w2" "su_app w2 = v1"
    using leads_invoke_each [OF assms(1, 2)] unfolding issue_run_def by blast
  note a2 = runs_alone_steady [OF assms(1) 2(2)]
  obtain w3 where 3: "leads S V w2
       (try_candidates E m op ctx data a base (slice (sm_rows m) (at_from a, at_event a)) [] k
          ?found none) w3 (?found row)" "steady op w2 w3" "su_app w3 = v2"
    using leads_try_candidates [OF a2 assms(3) [folded 2(3)]] by blast
  show ?thesis
    using leads_trans [OF 2(1) 3(1)] steady_trans [OF 2(2) 3(2)] runs_alone_steady [OF a2 3(2)] 3(3)
    unfolding found by blast
qed

text \<open>All of an admitted Issue of a logical row, up to the end of its call.\<close>

lemma leads_issue_run:
  assumes "runs_alone op w" "su_revision w \<noteq> - 1" "su_nextRecord w \<noteq> - 1"
    and "passes (map (\<lambda>p. p ctx a data) (sm_preconditions m)) (su_app w) = Some v1"
    and "selects ctx data a (slice (sm_rows m) (at_from a, at_event a)) v1 = Some (row, v2)"
    and "co_issue row = None"
    and "passes (map (\<lambda>check. check ctx (candidate_change a row) data)
           (co_preconditions row @ sm_invariants m @ sm_postconditions m)) v2 = Some v"
  shows "\<exists>w' stamp. leads S V w (issue_run E m ctx data op a change base k) w'
      (k ((selected_base a row base)\<lparr>re_stamp := stamp,
               re_phase := PhaseCommit, re_revision := su_revision w + 1,
               re_issued := False, re_verified := False, re_committed := True\<rparr>)) \<and>
    rs_ok stamp \<and> decided op w' \<and> su_mode w' = ModeReady \<and> su_state w' = co_to row \<and>
    su_revision w' = su_revision w + 1 \<and> su_app w' = v"
proof -
  obtain w3 where 3: "leads S V w (issue_run E m ctx data op a change base k) w3
      (issue_selected E m op ctx data (candidate_change a row) row (selected_base a row base) k)"
    "steady op w w3" "runs_alone op w3" "su_app w3 = v2"
    using leads_selection [OF assms(1, 4, 5)] by blast
  have st: "su_revision w3 = su_revision w" "su_nextRecord w3 = su_nextRecord w"
    using 3(2) by (simp_all add: steady_def)
  note last = leads_logical [where S = S and V = V and E = E and m = m and base = "selected_base a row base"
        and k = k and change = "candidate_change a row", OF 3(3) assms(6) _ _ assms(7) [folded 3(4)],
      unfolded st candidate_fields, OF assms(2, 3)]
  show ?thesis using last by (blast intro: leads_trans [OF 3(1)])
qed

lemma leads_alone:
  "leads S V w p w' (Return a) \<Longrightarrow> \<exists>ds. (\<forall>d \<in> set ds. \<exists>a. d = Return a) \<and>
     pool_runs S V (w, [p]) (w', Return a # ds)"
  unfolding leads_def by (drule spec [of _ "[]"], drule spec [of _ "[]"]) simp

lemma leads_pool:
  assumes "leads S V w p w' (Return a)" "pool_runs S V c (w, ps @ [p])"
  shows "\<exists>ds. (\<forall>d \<in> set ds. \<exists>a. d = Return a) \<and> pool_runs S V c (w', ps @ Return a # ds)"
proof -
  obtain ds where "\<forall>d \<in> set ds. \<exists>a. d = Return a"
    "pool_runs S V (w, ps @ p # []) (w', ps @ Return a # [] @ ds)"
    using assms(1) unfolding leads_def by blast
  then show ?thesis using pool_runs_trans [OF _ assms(2)] by auto
qed

lemma call_joins: "sup_call K L E m p w \<Longrightarrow> sup_runs K L E m (w, ps) (w, ps @ [p])"
  by (rule pool_snoc [OF pool_refl Begin])

text \<open>An Issue of a logical row, from its admission to its Result.\<close>

lemma leads_issue_commits:
  assumes "se_journal E = None" "se_recorder E = None"
    and "su_mode w = ModeReady" "\<not> admission_closed w" "\<not> countersExhaustedLocked w"
    and "su_attempt w \<noteq> - 1" "key_ok L event" "event \<in> sm_eventSet m"
    and "se_err E ctx (su_app w) = None"
    and "passes (map (\<lambda>p. p ctx (next_attempt E m event w) data) (sm_preconditions m)) (su_app w) = Some v1"
    and "selects ctx data (next_attempt E m event w) (slice (sm_rows m) (su_state w, event)) v1 =
           Some (row, v2)"
    and "co_issue row = None"
    and "passes (map (\<lambda>check. check ctx (candidate_change (next_attempt E m event w) row) data)
           (co_preconditions row @ sm_invariants m @ sm_postconditions m)) v2 = Some v"
  shows "\<exists>w' r. leads S V w (super_Issue L E m (Some ctx) event data) w' (Return (ResultOf r)) \<and>
    re_committed r \<and> re_err r = None \<and> re_transition r = co_id row \<and> re_from r = su_state w \<and>
    re_to r = co_to row \<and> re_revision r = su_revision w + 1 \<and>
    su_mode w' = ModeReady \<and> su_state w' = co_to row \<and> su_revision w' = su_revision w + 1 \<and>
    su_operation w' = None \<and> su_app w' = v"
proof -
  let ?a = "next_attempt E m event w"
  let ?fin = "super_finalize E m RecordIssue"
  have cnt: "su_revision w \<noteq> - 1" "su_nextRecord w \<noteq> - 1"
    using assms(5) by (auto simp: countersExhaustedLocked_def recordSeqMargin_def)
  have a: "at_from ?a = su_state w" "at_event ?a = event" by (simp_all add: next_attempt_def)
  obtain w1 op change base where 1: "leads S V w (super_Issue L E m (Some ctx) event data) w1
      (issue_run E m ctx data op ?a change base ?fin)"
    "runs_alone op w1" "re_owner base = Some op" "\<not> re_reporting base" "re_err base = None"
    "re_from base = su_state w" "su_app w1 = su_app w" "su_revision w1 = su_revision w"
    "su_nextRecord w1 = su_nextRecord w"
    using leads_admission [where S = S and V = V and data = data, OF assms(3-9)] by blast
  obtain w2 stamp where 2: "leads S V w1 (issue_run E m ctx data op ?a change base ?fin) w2
      (?fin ((selected_base ?a row base)\<lparr>re_stamp := stamp,
               re_phase := PhaseCommit, re_revision := su_revision w + 1,
               re_issued := False, re_verified := False, re_committed := True\<rparr>))"
    "rs_ok stamp" "decided op w2" "su_mode w2 = ModeReady" "su_state w2 = co_to row"
    "su_revision w2 = su_revision w + 1" "su_app w2 = v"
    using leads_issue_run [where S = S and V = V and E = E and m = m and base = base and k = ?fin
        and change = change and a = ?a, OF 1(2) _ _ assms(10) [folded 1(7)] _ assms(12, 13)] cnt assms(11)
    unfolding a 1(8, 9) by blast
  let ?r = "(selected_base ?a row base)\<lparr>re_stamp := stamp,
               re_phase := PhaseCommit, re_revision := su_revision w + 1,
               re_issued := False, re_verified := False, re_committed := True\<rparr>"
  let ?done = "(completed (now E w2) ?r)\<lparr>re_owner := None, re_reporting := False\<rparr>"
  obtain w3 where 3: "leads S V w2 (?fin ?r) w3 (Return (ResultOf ?done))"
    "settled w2 w3" "su_operation w3 = None"
    using leads_finalize [where op = op and r = ?r and w = w2 and kind = RecordIssue and S = S
        and V = V and m = m, OF disjI1 [OF assms(1)] assms(2) 2(3)] 1(3, 4) 2(2)
    by (auto simp: selected_base_def)
  show ?thesis
    using leads_trans [OF 1(1) leads_trans [OF 2(1) 3(1)]] 2 3(2, 3) 1(5, 6)
    by (intro exI [of _ w3] exI [of _ ?done]) (simp add: completed_def Let_def settled_def selected_base_def)
qed

section \<open>Properties\<close>

text \<open>C6. An Issue that nothing interferes with completes and commits: on a Ready Supervisor
  without adapters, whose preconditions pass, whose first row with an agreeing guard is a logical
  one, and whose checks, invariants and postconditions pass in that order, the call has an
  execution that ends with all its goroutines finished; the Result reports the committed row and
  the new revision, the state is the row's target, the revision one higher, and the Supervisor is
  Ready for the next call.\<close>

theorem lone_issue_commits:
  assumes "se_journal E = None" "se_recorder E = None"
    and "su_mode w = ModeReady" "\<not> admission_closed w" "\<not> countersExhaustedLocked w"
    and "su_attempt w \<noteq> - 1" "key_ok L event" "event \<in> sm_eventSet m"
    and "se_err E ctx (su_app w) = None"
    and "passes (map (\<lambda>p. p ctx (next_attempt E m event w) data) (sm_preconditions m)) (su_app w) = Some v1"
    and "selects ctx data (next_attempt E m event w) (slice (sm_rows m) (su_state w, event)) v1 =
           Some (row, v2)"
    and "co_issue row = None"
    and "passes (map (\<lambda>check. check ctx (candidate_change (next_attempt E m event w) row) data)
           (co_preconditions row @ sm_invariants m @ sm_postconditions m)) v2 = Some v"
  shows "\<exists>w' r ds. sup_runs K L E m (w, [super_Issue L E m (Some ctx) event data])
      (w', Return (ResultOf r) # ds) \<and> (\<forall>d \<in> set ds. \<exists>a. d = Return a) \<and>
    re_committed r \<and> re_err r = None \<and> re_transition r = co_id row \<and> re_from r = su_state w \<and>
    re_to r = co_to row \<and> re_revision r = su_revision w + 1 \<and>
    su_mode w' = ModeReady \<and> su_state w' = co_to row \<and> su_revision w' = su_revision w + 1 \<and>
    su_operation w' = None \<and> su_app w' = v"
proof -
  obtain w' r where r: "leads (sup_call K L E m) sup_env w (super_Issue L E m (Some ctx) event data) w'
      (Return (ResultOf r))"
    "re_committed r \<and> re_err r = None \<and> re_transition r = co_id row \<and> re_from r = su_state w \<and>
     re_to r = co_to row \<and> re_revision r = su_revision w + 1 \<and>
     su_mode w' = ModeReady \<and> su_state w' = co_to row \<and> su_revision w' = su_revision w + 1 \<and>
     su_operation w' = None \<and> su_app w' = v"
    using leads_issue_commits [where S = "sup_call K L E m" and V = sup_env, OF assms] by blast
  show ?thesis using leads_alone [OF r(1)] r(2) by blast
qed

lemma demo_super_rows: "slice (sm_rows demo_super) (0, 5) = [compiled_of (hd (sd_transitions sup_demo))]"
  by (simp add: slice_def machine_of_def sup_demo_def super_rows_def nonempty_def tr_key_def)

lemma demo_row:
  fixes row defines "row \<equiv> compiled_of (hd (sd_transitions sup_demo))"
  shows "co_issue row = None" "co_guard row = None" "co_to row = 2" "co_id row = [103]"
    "co_preconditions row = []"
  unfolding row_def by (simp_all add: sup_demo_def compiled_of_def)

lemma demo_callbacks:
  "sm_reconcile demo_super = [\<lambda>_ _ _. ret None]" "sm_preconditions demo_super = [\<lambda>_ _ _. ret None]"
  "sm_invariants demo_super = [\<lambda>_ _ _. ret None]" "sm_postconditions demo_super = [\<lambda>_ _ _. ret None]"
  "5 \<in> sm_eventSet demo_super"
  by (simp_all add: machine_of_def sup_demo_def)

lemma demo_env_fields:
  "se_journal demo_env = None" "se_recorder demo_env = None" "se_err demo_env ctx v = None"
  by (simp_all add: demo_env_def)

text \<open>The demo Supervisor after its Start.\<close>

lemma demo_ready:
  "\<exists>w ps. sup_runs demo_keys demo_keys demo_env demo_super
       (demo_new, [super_Start demo_env demo_super (Some ()) 0]) (w, ps) \<and> su_mode w = ModeReady \<and>
     su_state w = 0 \<and> su_revision w = 0 \<and> su_attempt w \<noteq> - 1 \<and> \<not> admission_closed w \<and>
     \<not> countersExhaustedLocked w"
proof -
  let ?S = "sup_call demo_keys demo_keys demo_env demo_super"
  have new: "su_mode demo_new = ModeStopped" "\<not> admission_closed demo_new"
    "\<not> countersExhaustedLocked demo_new" "su_state demo_new = 0" "su_revision demo_new = 0"
    "su_attempt demo_new = 0" "su_nextRecord demo_new = 0" "su_nextOperation demo_new = 0"
    "\<not> su_recorderRunning demo_new" "\<not> su_journalRunning demo_new" "su_reporting demo_new = 0"
    by (simp_all add: demo_new_def newSupervisor_def newExecutionID_def demo_env_def validateLimits_def machine_of_def
        sup_demo_def admission_closed_def countersExhaustedLocked_def recordSeqMargin_def word_le_nat_alt)
  obtain w r where w: "leads ?S sup_env demo_new (super_Start demo_env demo_super (Some ()) 0) w (Return (ResultOf r))"
    "su_mode w = ModeReady" "su_operation w = None" "su_nextRecord w = 1" "su_state w = 0"
    "su_revision w = 0" "su_attempt w = 0" "su_nextOperation w = 1" "\<not> su_recorderRunning w"
    "\<not> su_journalRunning w" "su_reporting w = 0"
    using leads_start [where E = demo_env and m = demo_super and w = demo_new and ctx = "()" and data = 0
        and v = "()" and S = ?S and V = sup_env, OF demo_env_fields(1, 2) new(1-3) demo_env_fields(3)] new
    by (auto simp: demo_callbacks ret_def)
  have "\<not> admission_closed w" "\<not> countersExhaustedLocked w" "su_attempt w \<noteq> - 1"
    using w by (simp_all add: admission_closed_def countersExhaustedLocked_def recordSeqMargin_def
        word_le_nat_alt)
  then show ?thesis using leads_alone [OF w(1)] w by blast
qed

lemma lone_issue_commits_witness:
  "\<exists>w ps w' r ds.
     sup_runs demo_keys demo_keys demo_env demo_super
       (demo_new, [super_Start demo_env demo_super (Some ()) 0]) (w, ps) \<and> su_mode w = ModeReady \<and>
     sup_runs demo_keys demo_keys demo_env demo_super
       (w, [super_Issue demo_keys demo_env demo_super (Some ()) 5 0]) (w', Return (ResultOf r) # ds) \<and>
     re_committed r \<and> re_transition r = [103] \<and> su_state w' = 2 \<and> su_revision w' = 1"
proof -
  obtain w ps where w: "sup_runs demo_keys demo_keys demo_env demo_super
       (demo_new, [super_Start demo_env demo_super (Some ()) 0]) (w, ps)" "su_mode w = ModeReady"
     "su_state w = 0" "su_revision w = 0" "su_attempt w \<noteq> - 1" "\<not> admission_closed w"
     "\<not> countersExhaustedLocked w"
    using demo_ready by blast
  let ?row = "compiled_of (hd (sd_transitions sup_demo))"
  have "\<exists>w' r ds. sup_runs demo_keys demo_keys demo_env demo_super
       (w, [super_Issue demo_keys demo_env demo_super (Some ()) 5 0]) (w', Return (ResultOf r) # ds) \<and>
     re_committed r \<and> re_transition r = co_id ?row \<and> su_state w' = co_to ?row \<and>
     su_revision w' = su_revision w + 1"
    using lone_issue_commits [where K = demo_keys and L = demo_keys and E = demo_env and m = demo_super
        and w = w and ctx = "()" and event = 5 and data = 0 and row = ?row and ?v1.0 = "()"
        and ?v2.0 = "()" and v = "()", OF demo_env_fields(1, 2) w(2, 6, 7, 5) _ _ demo_env_fields(3) _ _ demo_row(1)]
    by (simp add: demo_super_rows w(3) demo_row demo_callbacks demo_keys_def ret_def) blast
  then show ?thesis using w(1, 2) unfolding demo_row w(4) by fastforce
qed

text \<open>C4. The committed state and the revision change only in the one way the design allows: an
  operation takes the Supervisor from Executing to Ready without a fault, one revision further, with
  nothing left to verify. It is never an operation that has itself announced an external Issue
  action, and if a change was pending, the new state is that change's target.\<close>

theorem no_commit_in_doubt:
  assumes "compile_super K L d = Inr m" "sup_reachable K L E m (w, ps)"
    "sup_step K L E m (w, ps) (w', ps')" "su_state w' \<noteq> su_state w \<or> su_revision w' \<noteq> su_revision w"
  shows "su_mode w = ModeExecuting \<and> su_mode w' = ModeReady \<and> su_fault w' = None \<and>
    su_pending w' = None \<and> su_revision w' = su_revision w + 1 \<and> su_revision w \<noteq> - 1 \<and>
    \<not> issuing w \<and> (\<forall>p. su_pending w = Some p \<longrightarrow> su_state w' = ch_to (pe_change p))"
  using step_allowed [OF assms(1-3)] assms(4) unfolding sup_allowed_def by blast

text \<open>An execution that ends at another revision has a step that changes it.\<close>

lemma revision_step:
  assumes "sup_runs K L E m c c'" "sup_reachable K L E m c" "su_revision (fst c') \<noteq> su_revision (fst c)"
  shows "\<exists>w ps w' ps'. sup_reachable K L E m (w, ps) \<and> sup_step K L E m (w, ps) (w', ps') \<and>
    su_revision w' \<noteq> su_revision w"
  using assms
proof (induction rule: pool_runs.induct)
  case (pool_snoc c c' c'')
  have "sup_reachable K L E m c'"
    using pool_snoc(1, 4) unfolding sup_reachable_def by (blast intro: pool_runs_trans)
  then show ?case
    using pool_snoc by (cases "su_revision (fst c') = su_revision (fst c)") (metis prod.collapse)+
qed simp

lemma no_commit_in_doubt_witness:
  "\<exists>w ps w' ps'. sup_reachable demo_keys demo_keys demo_env demo_super (w, ps) \<and>
     sup_step demo_keys demo_keys demo_env demo_super (w, ps) (w', ps') \<and>
     su_mode w = ModeExecuting \<and> su_mode w' = ModeReady \<and> su_revision w' = su_revision w + 1 \<and>
     \<not> issuing w"
proof -
  let ?issue = "super_Issue demo_keys demo_env demo_super (Some ()) 5 0"
  obtain w ps where w: "sup_runs demo_keys demo_keys demo_env demo_super
       (demo_new, [super_Start demo_env demo_super (Some ()) 0]) (w, ps)" "su_mode w = ModeReady"
     "su_state w = 0" "su_revision w = 0" "su_attempt w \<noteq> - 1" "\<not> admission_closed w"
     "\<not> countersExhaustedLocked w"
    using demo_ready by blast
  let ?row = "compiled_of (hd (sd_transitions sup_demo))"
  have r: "sup_reachable demo_keys demo_keys demo_env demo_super (w, ps)"
    using demo_begins w(1) unfolding sup_reachable_def by (blast intro: pool_runs_trans)
  obtain w1 r1 where w1: "leads (sup_call demo_keys demo_keys demo_env demo_super) sup_env w ?issue w1
      (Return (ResultOf r1))" "su_revision w1 = su_revision w + 1"
    using leads_issue_commits [where L = demo_keys and E = demo_env and m = demo_super
        and w = w and ctx = "()" and event = 5 and data = 0 and row = ?row and ?v1.0 = "()"
        and ?v2.0 = "()" and v = "()", OF demo_env_fields(1, 2) w(2, 6, 7, 5) _ _ demo_env_fields(3) _ _ demo_row(1)]
    by (simp add: demo_super_rows w(3) demo_row demo_callbacks demo_keys_def ret_def) blast
  have "sup_runs demo_keys demo_keys demo_env demo_super (w, ps) (w, ps @ [?issue])"
    by (rule call_joins) (simp add: CallIssue)
  then obtain ps1 where "sup_runs demo_keys demo_keys demo_env demo_super (w, ps) (w1, ps1)"
    using leads_pool [OF w1(1)] by blast
  then obtain v qs v' qs' where step: "sup_reachable demo_keys demo_keys demo_env demo_super (v, qs)"
    "sup_step demo_keys demo_keys demo_env demo_super (v, qs) (v', qs')" "su_revision v' \<noteq> su_revision v"
    using revision_step [OF _ r] w1(2) by fastforce
  show ?thesis
    using no_commit_in_doubt [OF sup_demo_compiles step(1, 2)] step by blast
qed

end
