(* ===== verification/Super_Restore.thy ===== *)
theory Super_Restore
  imports Super_System
begin

text \<open>
  Snapshot and Restore: what the one writes, the other takes back.

  The part \<open>doubt_ok\<close> of the invariant of \<open>Super_Tokens\<close> is what Restore asks of a snapshot in doubt:
  its pending change is an attempt made in the committed state, along a row with an Issue action.
\<close>

section \<open>What a snapshot carries\<close>

lemma snapshot_fields:
  "sn_version (snapshotLocked E m w) = 2" "sn_definition (snapshotLocked E m w) = sm_id m"
  "sn_execution (snapshotLocked E m w) = su_execution w"
  "sn_incarnation (snapshotLocked E m w) = su_incarnation w"
  "sn_restarts (snapshotLocked E m w) = su_restarts w" "sn_state (snapshotLocked E m w) = su_state w"
  "sn_revision (snapshotLocked E m w) = su_revision w" "sn_attempt (snapshotLocked E m w) = su_attempt w"
  "sn_records (snapshotLocked E m w) = su_nextRecord w"
  "sn_faulted (snapshotLocked E m w) \<longleftrightarrow> su_fault w \<noteq> None"
  by (simp_all add: snapshotLocked_def snapshot_of_def with_pending_def with_operation_def
      with_fault_def Let_def split: option.split)

lemma snapshot_in_doubt:
  "sn_inDoubt (snapshotLocked E m w) \<longleftrightarrow>
     su_pending w \<noteq> None \<or> issuing w \<or> (\<exists>f. su_fault w = Some f \<and> f_issuedAt f \<noteq> 0)"
proof (cases "su_fault w")
  case None
  then show ?thesis
    by (auto simp: snapshotLocked_def snapshot_of_def with_pending_def with_operation_def
        with_fault_def issuing_def Let_def split: option.split)
next
  case (Some f)
  then show ?thesis
    by (auto simp: snapshotLocked_def snapshot_of_def with_pending_def with_operation_def
        with_fault_def issuing_def Let_def split: option.split)
qed

definition restorable ::
    "('s, 'e) routes \<Rightarrow> ('s, 'e, 'c, 't, 'v) sup \<Rightarrow> ('s, 'e) pending_snapshot \<Rightarrow> bool" where
  "restorable R w p \<longleftrightarrow>
     ai_execution (ps_attempt p) = su_execution w \<and> ai_incarnation (ps_attempt p) \<noteq> [] \<and>
     ai_sequence (ps_attempt p) \<noteq> 0 \<and> ai_sequence (ps_attempt p) \<le> su_attempt w \<and>
     ps_revision p = su_revision w \<and> ps_from p = su_state w \<and>
     R (ps_from p) (ps_event p) (ps_transition p) (ps_to p)"

lemma restorable_pending_of:
  "routed R c \<Longrightarrow> current w c \<Longrightarrow> restorable R w (pending_of c i x)"
  by (simp add: restorable_def pending_of_def current_def Identifier_def)

lemma snapshot_restorable:
  assumes "doubt_ok R w" "sn_pending (snapshotLocked E m w) = Some p"
  shows "restorable R w p"
proof -
  consider q where "su_pending w = Some q"
      "p = pending_of (pe_change q) (pe_issuedAt q) (pe_deadline q)"
    | o' where "su_mode w = ModeExecuting" "su_operation w = Some o'" "op_issuedAt (su_ops w o') \<noteq> 0"
      "p = pending_of (op_change (su_ops w o')) (op_issuedAt (su_ops w o')) 0"
    | f where "su_fault w = Some f" "f_issuedAt f \<noteq> 0" "ps_attempt p = \<lparr>ai_execution = f_execution f,
        ai_incarnation = f_incarnation f, ai_sequence = f_attempt f\<rparr>"
      "ps_revision p = at_revision (f_change f)" "ps_from p = f_state f" "ps_event p = f_event f"
      "ps_transition p = f_transition f" "ps_to p = f_to f"
    using assms(2)
    by (auto simp: snapshotLocked_def snapshot_of_def with_pending_def with_operation_def
        with_fault_def Let_def split: option.splits if_splits)
  then show ?thesis
  proof cases
    case 1
    then show ?thesis using assms(1) by (auto simp: doubt_ok_def intro!: restorable_pending_of)
  next
    case 2
    then show ?thesis using assms(1) by (auto simp: doubt_ok_def intro!: restorable_pending_of)
  next
    case 3
    then show ?thesis using assms(1) by (auto simp: doubt_ok_def fault_current_def restorable_def)
  qed
qed

text \<open>A snapshot in doubt has a pending change: an operation in doubt has an attempt.\<close>

lemma snapshot_pending:
  assumes "doubt_ok R w"
  shows "sn_inDoubt (snapshotLocked E m w) \<longleftrightarrow> sn_pending (snapshotLocked E m w) \<noteq> None"
proof -
  have "at_id (op_change (su_ops w o')) \<noteq> 0"
    if "su_mode w = ModeExecuting" "su_operation w = Some o'" "op_issuedAt (su_ops w o') \<noteq> 0" for o'
    using assms that by (auto simp: doubt_ok_def current_def)
  then show ?thesis
    by (cases "su_fault w")
      (auto simp: snapshotLocked_def snapshot_of_def with_pending_def with_operation_def
        with_fault_def Let_def split: option.split)
qed

section \<open>The keys of a compiled machine\<close>

lemma compiled_state_key:
  assumes "compile_super K L d = Inr m" "sm_stateIndex m s \<noteq> None"
  shows "key_ok K s"
proof -
  have g: "definition_keys_ok K L d" "m = machine_of d"
    using compile_super_cases [of K L d] assms(1) by simp_all
  then have "s \<in> st_name ` set (sd_states d)"
    using assms(2) by (force simp: machine_of_def dest: map_of_SomeD)
  then show ?thesis using g(1) by (auto simp: definition_keys_ok_def list_all_iff)
qed

lemma compiled_row_keys:
  assumes "compile_super K L d = Inr m" "external_row m s e i s'"
  shows "key_ok K s \<and> key_ok L e \<and> key_ok K s'"
proof -
  have g: "definition_keys_ok K L d" "m = machine_of d"
    using compile_super_cases [of K L d] assms(1) by simp_all
  obtain row where "row \<in> set (slice (sm_rows m) (s, e))" "co_to row = s'"
    using assms(2) by (auto simp: external_row_def list_ex_iff)
  then have "row \<in> set (super_rows (sd_transitions d) (s, e))"
    by (auto simp: g(2) machine_of_def slice_def nonempty_def split: option.splits if_splits)
  then obtain t where "t \<in> set (sd_transitions d)" "tr_from t = s" "tr_event t = e" "tr_to t = s'"
    using \<open>co_to row = s'\<close> by (auto simp: super_rows_def tr_key_def compiled_of_def)
  then show ?thesis using g(1) by (auto simp: definition_keys_ok_def list_all_iff)
qed

abbreviation limits_ok :: "slimits \<Rightarrow> bool" where
  "limits_ok l \<equiv> 0 < OperationTimeout l \<and> 0 < VerificationTimeout l \<and> 0 \<le> MaxRecords l"

section \<open>Restore accepts what Snapshot wrote\<close>

lemma restore_accepts:
  assumes "compile_super K L d = Inr m" "sup_inv (dom (sm_stateIndex m)) (external_row m) w T"
    "limits_ok (se_limits E')" "su_revision w \<noteq> - 1" "su_restarts w \<noteq> - 1"
    "su_nextRecord w < - 1 - recordSeqMargin"
  shows "restore_refusal K L E' m (snapshotLocked E m w) = None"
proof -
  have d: "doubt_ok (external_row m) w" using assms(2) by (simp add: sup_inv_def)
  have "sm_stateIndex m (su_state w) \<noteq> None" "su_execution w \<noteq> []" "su_incarnation w \<noteq> []"
    using assms(2) by (auto simp: sup_inv_def declared_ok_def doubt_ok_def)
  moreover note compiled_state_key [OF assms(1) calculation(1)]
  moreover have "case sn_pending (snapshotLocked E m w) of None \<Rightarrow> True | Some p \<Rightarrow>
      restorable (external_row m) w p \<and>
      key_ok K (ps_from p) \<and> key_ok L (ps_event p) \<and> key_ok K (ps_to p)"
    using snapshot_restorable [OF d] compiled_row_keys [OF assms(1)]
    by (fastforce simp: restorable_def split: option.split)
  moreover have "\<not> - 1 - recordSeqMargin \<le> su_nextRecord w" using assms(6) by simp
  ultimately show ?thesis
    using assms(3-5) snapshot_pending [OF d, of E]
    by (cases "sn_pending (snapshotLocked E m w)")
      (auto simp: restore_refusal_def snapshot_fields restorable_def external_row_def
        validateLimits_def)
qed

lemma restored_of:
  assumes "restore_refusal K L E m snap = None"
    "restoreSupervisor K L E m snap (Inr random) app = Inr w"
  shows "su_state w = sn_state snap" "su_revision w = sn_revision snap"
    "su_attempt w = sn_attempt snap" "su_execution w = sn_execution snap"
    "su_restarts w = sn_restarts snap + 1" "su_nextRecord w = sn_records snap"
    "su_mode w = (if sn_inDoubt snap \<or> sn_faulted snap then ModeFaulted else ModeStopped)"
    "su_fault w = restored_fault E m snap" "su_pending w = None" "su_operation w = None"
  using assms by (auto simp: restoreSupervisor_def newExecutionID_def)

lemma restore_total:
  "restore_refusal K L E m snap = None \<Longrightarrow> \<exists>w. restoreSupervisor K L E m snap (Inr random) app = Inr w"
  by (simp add: restoreSupervisor_def newExecutionID_def)

lemma restored_carries:
  assumes "restore_refusal K L E m snap = None" "sn_pending snap = Some p"
  shows "\<exists>f. restored_fault E m snap = Some f \<and> f_uncertain f \<and>
    f_attempt f = ai_sequence (ps_attempt p) \<and> f_transition f = ps_transition p \<and>
    f_to f = ps_to p \<and> f_issuedAt f = ps_issuedAt p"
  using assms by (auto simp: restore_refusal_def restored_fault_def Let_def split: option.splits if_splits)

text \<open>The snapshot of a restored Supervisor has the same pending change.\<close>

lemma restored_snapshot_pending:
  assumes "restore_refusal K L E m snap = None"
    "restoreSupervisor K L E m snap (Inr random) app = Inr w"
    "\<And>p. sn_pending snap = Some p \<Longrightarrow> ps_issuedAt p \<noteq> 0"
  shows "sn_pending (snapshotLocked E' m w) = sn_pending snap"
proof -
  note w = restored_of [OF assms(1, 2)]
  have s: "sn_pending (snapshotLocked E' m w) = sn_pending (with_fault w (snapshot_of E' m w))"
    by (simp add: snapshotLocked_def with_pending_def with_operation_def w)
  show ?thesis
  proof (cases "sn_pending snap")
    case None
    then show ?thesis
      by (auto simp: s with_fault_def w restored_fault_def snapshot_of_def Let_def split: option.split)
  next
    case (Some p)
    then have p: "ai_execution (ps_attempt p) = sn_execution snap" "ps_from p = sn_state snap"
        "sn_inDoubt snap" "ps_issuedAt p \<noteq> 0"
      using assms(1, 3) by (auto simp: restore_refusal_def split: option.splits if_splits)
    show ?thesis
      using Some p
      by (simp add: s with_fault_def w restored_fault_def snapshot_of_def Let_def)
  qed
qed

section \<open>Properties\<close>

text \<open>C8. Whatever a Supervisor is doing when its snapshot is taken, Restore takes the snapshot back,
  as long as its counters are not exhausted. The restored Supervisor has the committed state, the
  revision, the attempt and record numbers of the original and one restart more. It is Faulted
  when the original was faulted or had an external action in doubt, and Stopped otherwise. What is
  in doubt (a change that awaits verification, an Issue action that may have run, or the change of
  a fault) is carried by the new fault, which Adjudicate can adopt, and by every later snapshot.\<close>

theorem snapshot_restores:
  assumes "compile_super K L d = Inr m" "sup_reachable K L E m (w, ps)" "limits_ok (se_limits E')"
    "su_revision w \<noteq> - 1" "su_restarts w \<noteq> - 1" "su_nextRecord w < - 1 - recordSeqMargin"
  shows "\<exists>w'. restoreSupervisor K L E' m (super_Snapshot E m w) (Inr random) app = Inr w' \<and>
    su_state w' = su_state w \<and> su_revision w' = su_revision w \<and> su_attempt w' = su_attempt w \<and>
    su_execution w' = su_execution w \<and> su_nextRecord w' = su_nextRecord w \<and>
    su_restarts w' = su_restarts w + 1 \<and>
    su_mode w' = (if su_fault w = None \<and> su_pending w = None \<and> \<not> issuing w then ModeStopped
                  else ModeFaulted) \<and>
    (sn_pending (super_Snapshot E m w) \<noteq> None \<longleftrightarrow>
       su_pending w \<noteq> None \<or> issuing w \<or> (\<exists>f. su_fault w = Some f \<and> f_issuedAt f \<noteq> 0)) \<and>
    (\<forall>p. sn_pending (super_Snapshot E m w) = Some p \<longrightarrow>
       (\<exists>f. su_fault w' = Some f \<and> f_uncertain f \<and> f_attempt f = ai_sequence (ps_attempt p) \<and>
          f_transition f = ps_transition p \<and> f_to f = ps_to p \<and> f_issuedAt f = ps_issuedAt p) \<and>
       (ps_issuedAt p \<noteq> 0 \<longrightarrow> sn_pending (super_Snapshot E' m w') = Some p))"
proof -
  let ?s = "snapshotLocked E m w"
  obtain T where I: "sup_inv (dom (sm_stateIndex m)) (external_row m) w T"
    using reachable_inv [OF assms(1, 2)] by blast
  then have d: "doubt_ok (external_row m) w" by (simp add: sup_inv_def)
  have ok: "restore_refusal K L E' m ?s = None" by (rule restore_accepts [OF assms(1) I assms(3-6)])
  obtain w' where w': "restoreSupervisor K L E' m ?s (Inr random) app = Inr w'"
    using restore_total [OF ok] by blast
  note r = restored_of [OF ok w']
  have again: "sn_pending (snapshotLocked E' m w') = Some p"
    if "sn_pending ?s = Some p" "ps_issuedAt p \<noteq> 0" for p
    using restored_snapshot_pending [OF ok w'] that by simp
  have mode: "su_mode w' = (if su_fault w = None \<and> su_pending w = None \<and> \<not> issuing w
      then ModeStopped else ModeFaulted)"
    unfolding r snapshot_in_doubt snapshot_fields by auto
  show ?thesis
    unfolding super_Snapshot_def
    using w' r(1-6) r(8) mode again restored_carries [OF ok] snapshot_pending [OF d, of E]
      snapshot_in_doubt [of E m w]
    by (intro exI [of _ w']) (simp add: snapshot_fields)
qed

section \<open>A Supervisor restored twice\<close>

text \<open>A definition with an external row, and a snapshot taken while its Issue action was in doubt.\<close>

definition issue_demo :: "(nat, nat, unit, nat, unit) sdefinition" where
  "issue_demo = sup_demo\<lparr>sd_transitions := [\<lparr>tr_id = [103], tr_from = 0, tr_event = 5, tr_to = 2,
     tr_guard = None, tr_preconditions = [], tr_issue = Some (\<lambda>_ _ _. ret None),
     tr_verify = Some (\<lambda>_ _ _. ret None)\<rparr>]\<rparr>"

definition issue_snapshot :: "(nat, nat) ssnapshot" where
  "issue_snapshot =
     \<lparr>sn_version = 2, sn_definition = [100], sn_execution = [1], sn_incarnation = [2],
      sn_restarts = 0, sn_state = 0, sn_revision = 3, sn_attempt = 1, sn_records = 4,
      sn_pending = Some \<lparr>ps_started = 1, ps_attempt = \<lparr>ai_execution = [1], ai_incarnation = [2],
          ai_sequence = 1\<rparr>, ps_revision = 3, ps_from = 0, ps_event = 5, ps_transition = [103],
          ps_to = 2, ps_issuedAt = 1, ps_deadline = 0\<rparr>,
      sn_inDoubt = True, sn_faulted = False, sn_uncertain = True,
      sn_faultPhase = PhaseNone, sn_cause = [], sn_recordedAt = 1\<rparr>"

lemma issue_demo_compiles: "compile_super demo_keys demo_keys issue_demo = Inr (machine_of issue_demo)"
proof -
  have "good_super issue_demo"
    by (auto simp: good_super_def issue_demo_def sup_demo_def callbacks_given_def transition_ok_def
        blank_def is_space_def handled_def tr_key_def edges_def)
  moreover have "strict_type demo_keys" "definition_keys_ok demo_keys demo_keys issue_demo"
    by (simp_all add: demo_keys_def definition_keys_ok_def issue_demo_def sup_demo_def)
  moreover have "strict_type (demo_keys :: nat keyops)" by (simp add: demo_keys_def)
  ultimately show ?thesis
    using compile_super_result [of demo_keys demo_keys issue_demo] by (auto split: sum.splits)
qed

lemma issue_snapshot_accepted:
  "restore_refusal demo_keys demo_keys demo_env (machine_of issue_demo) issue_snapshot = None"
proof -
  have "list_ex (\<lambda>r. co_id r = [103] \<and> co_to r = 2 \<and> co_issue r \<noteq> None)
      (slice (sm_rows (machine_of issue_demo)) (0, 5))"
    by (simp add: machine_of_def issue_demo_def slice_def nonempty_def super_rows_def tr_key_def
        compiled_of_def)
  moreover have "sm_id (machine_of issue_demo) = [100]"
    "sm_stateIndex (machine_of issue_demo) 0 \<noteq> None"
    by (simp_all add: machine_of_def issue_demo_def sup_demo_def)
  ultimately show ?thesis
    by (simp add: restore_refusal_def demo_env_def validateLimits_def issue_snapshot_def demo_keys_def
        recordSeqMargin_def word_le_nat_alt)
qed

text \<open>The change in doubt passes through two restarts.\<close>

lemma snapshot_restores_witness:
  "\<exists>w w'. restoreSupervisor demo_keys demo_keys demo_env (machine_of issue_demo) issue_snapshot
       (Inr 7) () = Inr w \<and>
     restoreSupervisor demo_keys demo_keys demo_env (machine_of issue_demo)
       (super_Snapshot demo_env (machine_of issue_demo) w) (Inr 8) () = Inr w' \<and>
     su_mode w' = ModeFaulted \<and> su_restarts w' = 2 \<and>
     (\<exists>f. su_fault w' = Some f \<and> f_transition f = [103] \<and> f_to f = 2)"
proof -
  let ?m = "machine_of issue_demo"
  obtain w where w: "restoreSupervisor demo_keys demo_keys demo_env ?m issue_snapshot (Inr 7) () = Inr w"
    using restore_total [OF issue_snapshot_accepted] by blast
  note r = restored_of [OF issue_snapshot_accepted w]
  have "sn_pending (super_Snapshot demo_env ?m w) = sn_pending issue_snapshot"
    unfolding super_Snapshot_def
    by (rule restored_snapshot_pending [OF issue_snapshot_accepted w]) (simp add: issue_snapshot_def)
  then obtain p where p: "sn_pending (super_Snapshot demo_env ?m w) = Some p" "ps_transition p = [103]"
      "ps_to p = 2"
    by (simp add: issue_snapshot_def)
  have "sup_reachable demo_keys demo_keys demo_env ?m (w, [])"
    unfolding sup_reachable_def sup_initial_def using w by (blast intro: pool_refl)
  from snapshot_restores [OF issue_demo_compiles this, of demo_env 8 "()"]
  obtain w' where "restoreSupervisor demo_keys demo_keys demo_env ?m (super_Snapshot demo_env ?m w)
      (Inr 8) () = Inr w'" "su_restarts w' = su_restarts w + 1"
    "su_mode w' = (if su_fault w = None \<and> su_pending w = None \<and> \<not> issuing w then ModeStopped
       else ModeFaulted)" "\<exists>f. su_fault w' = Some f \<and> f_transition f = [103] \<and> f_to f = 2"
    using p by (auto simp: r issue_snapshot_def demo_env_def recordSeqMargin_def word_less_nat_alt)
  moreover have "su_fault w \<noteq> None"
    using restored_carries [OF issue_snapshot_accepted] by (auto simp: r issue_snapshot_def)
  ultimately show ?thesis using w r(5) by (auto simp: issue_snapshot_def)
qed

end
