(* ===== verification/Super_External.thy ===== *)
theory Super_External
  imports Super_Alone Super_Restore
begin

text \<open>
  An external transition when nothing interferes: the Journal, the Issue action, the verification.

  The lemmas continue those of \<open>Super_Alone\<close>: \<open>leads_journal\<close> for a Journal that returns,
  \<open>leads_issue_action\<close> for the row's Issue action after it, \<open>leads_closeJournal\<close> for the Journal at the
  end of a call, \<open>leads_issue_external\<close> and \<open>leads_verify\<close> for the two calls. \<open>announces\<close> and
  \<open>reports\<close> say what the snapshots given to the Journal before and after show.
\<close>

section \<open>The Journal\<close>

text \<open>What a Journal leaves behind when it has returned: goroutine bookkeeping, and its world.\<close>

definition journaled :: "('s, 'e, 'c, 't, 'v) sup \<Rightarrow> 'v \<Rightarrow> ('s, 'e, 'c, 't, 'v) sup \<Rightarrow> bool" where
  "journaled w v w' \<longleftrightarrow>
     (\<exists>x y z. w' = w\<lparr>su_app := v, su_nextChan := x, su_live := y, su_failures := z\<rparr>)"

text \<open>The state while the Journal's goroutine runs.\<close>

definition journaling :: "nat \<Rightarrow> ('s, 'e, 'c, 't, 'v) sup \<Rightarrow> ('s, 'e, 'c, 't, 'v) sup" where
  "journaling op w = new_goroutine (set_running True True (add_callback (Some op) (set_gate True True w)))"

lemma journaled_keeps:
  assumes "journaled w v w'"
  shows "su_app w' = v" "su_mode w' = su_mode w" "su_state w' = su_state w" "su_ops w' = su_ops w"
    "su_revision w' = su_revision w" "su_fault w' = su_fault w" "su_pending w' = su_pending w"
    "su_operation w' = su_operation w" "su_attempt w' = su_attempt w" "su_ctxs w' = su_ctxs w"
    "su_nextRecord w' = su_nextRecord w" "su_nextOperation w' = su_nextOperation w"
    "su_reporting w' = su_reporting w" "su_recorderRunning w' = su_recorderRunning w"
    "su_journalRunning w' = su_journalRunning w" "su_journalBusy w' = su_journalBusy w"
  using assms by (auto simp: journaled_def)

lemma journal_returned:
  assumes "\<not> su_journalBusy w" "\<not> su_journalRunning w" "su_operation w = Some op"
    "\<not> op_returned (su_ops w op)"
  shows "journaled w v ((callback_ended ch (set_gate True False (set_running True False
      (callbackReturnedLocked (Some op) ((journaling op w)\<lparr>su_app := v\<rparr>)))))\<lparr>su_failures := z\<rparr>)"
  using assms unfolding journaled_def
  by (cases w)
    (auto simp: callback_ended_def set_gate_def set_running_def callbackReturnedLocked_def Let_def
      journaling_def new_goroutine_def add_callback_def upd_op_def)

lemma journaling_view [simp]:
  "su_ctxs (journaling op w) = su_ctxs w" "su_app (journaling op w) = su_app w"
  by (simp_all add: journaling_def new_goroutine_def set_running_def set_gate_def add_callback_def
      upd_op_def)

lemma leads_journal:
  assumes free: "\<not> su_journalBusy w" "\<not> su_journalRunning w" "su_operation w = Some op"
      "\<not> op_returned (su_ops w op)"
    and ctx: "su_ctxs w ctx = None"
    and body: "\<And>finish. leads S V (journaling op w) (body finish)
      ((journaling op w)\<lparr>su_app := v\<rparr>) (finish (Ret e))"
  shows "\<exists>w'. leads S V w (deliverAdapter ctx (Some op) True body k) w' (k e) \<and> journaled w v w'"
proof -
  let ?ch = "su_nextChan w"
  let ?w1 = "journaling op w"
  let ?w2 = "?w1\<lparr>su_app := v\<rparr>"
  let ?w3 = "callback_ended ?ch (set_gate True False (set_running True False
      (callbackReturnedLocked (Some op) ?w2)))"
  let ?w4 = "?w3\<lparr>su_failures := (su_failures ?w3)(?ch := Some e)\<rparr>"
  let ?fork = "\<lambda>w. if gate_busy True w then (w, k (Some (SSentinel ErrDeliveryBusy)), [])
       else (let ch = su_nextChan w; w = set_running True True (add_callback (Some op) (set_gate True True w)) in
             (new_goroutine w, deliver_wait ctx ch k, [deliver_worker ctx (Some op) True body ch]))"
  have kept: "journaled w v ?w4" by (rule journal_returned [OF free])
  have "leads S V w (deliverAdapter ctx (Some op) True body k) w (forked ?fork)"
    unfolding deliverAdapter_def by (rule leads_locked) (simp add: ctx)
  also have "leads S V w \<dots> ?w4 (deliver_wait ctx ?ch k)"
  proof (rule leads_forked)
    show "?fork w = (?w1, deliver_wait ctx ?ch k, [deliver_worker ctx (Some op) True body ?ch])"
      using free(1) by (simp add: gate_busy_def journaling_def Let_def set_running_def set_gate_def)
    have "leads S V ?w1 (deliver_worker ctx (Some op) True body ?ch) ?w1
        (body (\<lambda>out. deliver_finish (Some op) True ?ch (delivery_failure out)))"
      unfolding deliver_worker_def by (rule leads_locked) (simp add: ctx)
    also have "leads S V ?w1 \<dots> ?w2 (deliver_finish (Some op) True ?ch e)"
      using body [of "\<lambda>out. deliver_finish (Some op) True ?ch (delivery_failure out)"]
      by (simp add: delivery_failure_def)
    also have "leads S V ?w2 \<dots> ?w3 (locked (\<lambda>w. (w\<lparr>su_failures := (su_failures w)(?ch := Some e)\<rparr>,
        Return Ended)))"
      unfolding deliver_finish_def by (rule leads_locked) simp
    also have "leads S V ?w3 \<dots> ?w4 (Return Ended)" by (rule leads_locked) simp
    finally show "leads S V ?w1 (deliver_worker ctx (Some op) True body ?ch) ?w4 (Return Ended)" .
  qed
  also have "leads S V ?w4 \<dots> ?w4 (k e)"
    unfolding deliver_wait_def by (rule leads_awaiting) simp
  finally show ?thesis using kept by blast
qed

section \<open>The external Issue\<close>

text \<open>The state once an Issue is prepared, at the time \<open>t\<close>.\<close>

definition prepared :: "nat \<Rightarrow> ('s, 'e) change \<Rightarrow> time \<Rightarrow> ('s, 'e, 'c, 't, 'v) sup \<Rightarrow>
    ('s, 'e, 'c, 't, 'v) sup" where
  "prepared op change t w =
     upd_op op (\<lambda>p. p\<lparr>op_phase := PhaseIssue, op_phaseAt := t, op_issuedAt := t, op_change := change\<rparr>) w"

text \<open>What a snapshot has to show for the Journal: the change about to be issued, in doubt.\<close>

definition announces :: "('s, 'e) change \<Rightarrow> time \<Rightarrow> 's \<Rightarrow> ('s, 'e) ssnapshot \<Rightarrow> bool" where
  "announces change t s snap \<longleftrightarrow>
     sn_inDoubt snap \<and> sn_uncertain snap \<and> \<not> sn_faulted snap \<and>
     sn_pending snap = Some (pending_of change t 0) \<and> sn_state snap = s"

lemma prepared_announces:
  assumes "runs_alone op w" "su_pending w = None" "su_fault w = None" "t \<noteq> 0" "at_id change \<noteq> 0"
  shows "announces change t (su_state w) (snapshotLocked E m (journaling op (prepared op change t w)))"
  using assms
  by (simp add: announces_def snapshotLocked_def with_fault_def with_operation_def with_pending_def
      snapshot_of_def runs_alone_def ownsLocked_def journaling_def new_goroutine_def set_running_def
      set_gate_def add_callback_def prepared_def ops_upd_op Let_def)

lemma leads_prepareIssue:
  assumes alone: "runs_alone op w" "su_pending w = None" "su_fault w = None"
    and free: "\<not> su_journalBusy w" "\<not> su_journalRunning w"
    and attempt: "now E w \<noteq> 0" "at_id change \<noteq> 0"
    and journal: "se_journal E = Some journal"
      "\<And>snap. announces change (now E w) (su_state w) snap \<Longrightarrow>
         journal ctx snap (su_app w) = (v, Ret e)"
  shows "\<exists>w'. leads S V w (prepareIssue E m op ctx change k) w'
      (k (map_option (\<lambda>f. SJoined [SSentinel ErrJournal, f]) e)) \<and>
    journaled (prepared op change (now E w) w) v w'"
proof -
  let ?w1 = "prepared op change (now E w) w"
  let ?body = "\<lambda>finish. locked (\<lambda>w. (w, if \<not> ownsLocked op w \<or> su_mode w \<noteq> ModeExecuting
      then finish (Ret (Some (lost_ownership w)))
      else run_callback (journal ctx (snapshotLocked E m w)) finish))"
  let ?k = "\<lambda>failure. k (map_option (\<lambda>f. SJoined [SSentinel ErrJournal, f]) failure)"
  have own: "ownsLocked op w" "su_mode w = ModeExecuting" using alone by (simp_all add: runs_alone_def)
  have w1: "su_operation ?w1 = Some op" "\<not> op_returned (su_ops ?w1 op)"
    "su_ctxs ?w1 (op_ctx (su_ops ?w1 op)) = None" "\<not> su_journalBusy ?w1" "\<not> su_journalRunning ?w1"
    using alone free by (simp_all add: prepared_def ops_upd_op runs_alone_def ownsLocked_def)
  have "leads S V w (prepareIssue E m op ctx change k) ?w1
      (deliverAdapter (op_ctx (su_ops ?w1 op)) (Some op) True ?body ?k)"
    unfolding prepareIssue_def
    by (rule leads_locked) (simp add: own journal(1) Let_def prepared_def)
  moreover have "\<exists>w'. leads S V ?w1 (deliverAdapter (op_ctx (su_ops ?w1 op)) (Some op) True ?body ?k) w'
      (?k e) \<and> journaled ?w1 v w'"
  proof (rule leads_journal [OF w1(4, 5, 1, 2, 3)])
    fix finish
    let ?j = "journaling op ?w1"
    have here: "ownsLocked op ?j" "su_mode ?j = ModeExecuting" "su_app ?w1 = su_app w"
      using own by (simp_all add: ownsLocked_def journaling_def new_goroutine_def set_running_def
          set_gate_def add_callback_def prepared_def ops_upd_op)
    have "leads S V ?j (?body finish) ?j (run_callback (journal ctx (snapshotLocked E m ?j)) finish)"
      by (rule leads_locked) (simp add: here)
    also have "leads S V ?j \<dots> (?j\<lparr>su_app := v\<rparr>) (finish (Ret e))"
      unfolding run_callback_def
      by (rule leads_locked)
         (simp add: here journal(2) [OF prepared_announces [OF alone attempt]])
    finally show "leads S V ?j (?body finish) (?j\<lparr>su_app := v\<rparr>) (finish (Ret e))" .
  qed
  ultimately show ?thesis by (blast intro: leads_trans)
qed

lemma leads_awaitVerification:
  assumes "runs_alone op w" "su_nextRecord w \<noteq> - 1"
  shows "\<exists>w' stamp. leads S V w (awaitVerification E op change row base k) w' (k (base\<lparr>re_stamp := stamp\<rparr>) None) \<and>
    rs_ok stamp \<and> \<not> rs_durable stamp \<and> decided op w' \<and> su_mode w' = ModeAwaitingVerification \<and>
    su_pending w' = Some \<lparr>pe_change = change, pe_transition = row,
      pe_issuedAt = op_issuedAt (su_ops w op),
      pe_deadline = now E w + nat (VerificationTimeout (se_limits E)),
      pe_version = op_id (su_ops w op)\<rparr> \<and>
    su_nextRecord w' = su_nextRecord w + 1 \<and>
    settled w (w'\<lparr>su_mode := su_mode w, su_pending := su_pending w\<rparr>)"
proof -
  obtain w1 cancel where t: "take_cancel op w = (w1, cancel)" by fastforce
  note d = runs_alone_take_cancel [OF t assms(1)]
  let ?p = "\<lparr>pe_change = change, pe_transition = row, pe_issuedAt = op_issuedAt (su_ops w op),
      pe_deadline = now E w + nat (VerificationTimeout (se_limits E)),
      pe_version = op_id (su_ops w op)\<rparr>"
  let ?s = "stampLocked E (w1\<lparr>su_pending := Some ?p, su_mode := ModeAwaitingVerification,
      su_timer := Some (at_id change, op_id (su_ops w op))\<rparr>)"
  let ?w2 = "fst ?s" and ?stamp = "snd ?s"
  have w1: "op_issuedAt (su_ops w1 op) = op_issuedAt (su_ops w op)" "op_id (su_ops w1 op) = op_id (su_ops w op)"
    "now E w1 = now E w"
    using t by (auto simp: take_cancel_def ops_upd_op now_def)
  have own: "ownsLocked op w" "su_mode w = ModeExecuting" using assms(1) by (simp_all add: runs_alone_def)
  have w2: "rs_ok ?stamp" "\<not> rs_durable ?stamp" "decided op ?w2"
    "su_mode ?w2 = ModeAwaitingVerification" "su_pending ?w2 = Some ?p"
    "su_nextRecord ?w2 = su_nextRecord w + 1"
    "settled w (?w2\<lparr>su_mode := su_mode w, su_pending := su_pending w\<rparr>)"
    using d assms(2) by (simp_all add: stampLocked_def decided_def settled_def zero_stamp_def)
  have go: "leads S V w (awaitVerification E op change row base k) ?w2
      (cancelling cancel (k (base\<lparr>re_stamp := ?stamp\<rparr>) None))"
    unfolding awaitVerification_def
    by (rule leads_locked) (simp add: awaitVerification_region_def own t w1 split: prod.split)
  obtain w3 where w3: "leads S V ?w2 (cancelling cancel (k (base\<lparr>re_stamp := ?stamp\<rparr>) None)) w3
        (k (base\<lparr>re_stamp := ?stamp\<rparr>) None)" "settled ?w2 w3"
      "su_nextRecord w3 = su_nextRecord ?w2" "su_operation w3 = su_operation ?w2" "su_ops w3 = su_ops ?w2"
    using leads_cancelling by blast
  have "decided op w3 \<and> su_mode w3 = ModeAwaitingVerification \<and> su_pending w3 = Some ?p \<and>
      su_nextRecord w3 = su_nextRecord w + 1 \<and>
      settled w (w3\<lparr>su_mode := su_mode w, su_pending := su_pending w\<rparr>)"
    using w2 w3 by (simp add: decided_def settled_def)
  then show ?thesis
    using leads_trans [OF go w3(1)] w2(1, 2) by (intro exI [of _ w3] exI [of _ ?stamp]) simp
qed

text \<open>What \<open>issue_selected\<close> does once the Journal has answered.\<close>

definition issue_journaled ::
    "('s, 'e, 'c, 'v) senv \<Rightarrow> ('s, 'e, 'c, 't, 'v) smachine \<Rightarrow> nat \<Rightarrow> ('s, 'e) change \<Rightarrow>
      ('s, 'e, 'c, 't, 'v) compiled_row \<Rightarrow> ('s, 'e) sresult \<Rightarrow> ('s, 'e, 'v) callback \<Rightarrow>
      (('s, 'e) sresult \<Rightarrow> ('s, 'e, 'c, 't, 'v) sprog) \<Rightarrow> ('s, 'e) serr option \<Rightarrow>
      ('s, 'e, 'c, 't, 'v) sprog" where
  "issue_journaled E m op change row base act k failure =
     (case failure of
        Some err \<Rightarrow> latchResult E m base op change PhaseIssue err False k
      | None \<Rightarrow>
          invoke E op change PhaseIssue act (\<lambda>out.
            case cb_err out of
              Some err \<Rightarrow> latchResult E m base op change PhaseIssue err True k
            | None \<Rightarrow>
                (let base = base\<lparr>re_issued := True, re_phase := PhaseIssue\<rparr> in
                 if_ended op
                   (\<lambda>err. latchResult E m base op change PhaseIssue err True k)
                   (awaitVerification E op change row base (\<lambda>base fault.
                      case fault of
                        Some f \<Rightarrow> k (faultResult base (Some f))
                      | None \<Rightarrow> k base)))))"

lemma leads_external_checks:
  assumes "runs_alone op w" "co_issue row = Some issue"
    and "passes (map (\<lambda>check. check ctx change data) (co_preconditions row @ sm_invariants m))
           (su_app w) = Some v"
  shows "\<exists>w'. leads S V w (issue_selected E m op ctx data change row base k) w'
      (prepareIssue E m op ctx change (issue_journaled E m op change row base (issue ctx change data) k)) \<and>
    steady op w w' \<and> runs_alone op w' \<and> su_app w' = v"
proof -
  let ?run = "map (\<lambda>check. check ctx change data)"
  obtain v1 where v: "passes (?run (co_preconditions row)) (su_app w) = Some v1"
    "passes (?run (sm_invariants m)) v1 = Some v"
    using assms(3) by (auto simp: passes_append split: option.splits)
  let ?P2 = "prepareIssue E m op ctx change
    (issue_journaled E m op change row base (issue ctx change data) k)"
  let ?P1 = "runChecks E m op ctx base change PhaseInvariant (sm_invariants m) data False k ?P2"
  obtain w1 where w1: "leads S V w
      (runChecks E m op ctx base change PhasePrecondition (co_preconditions row) data False k ?P1) w1 ?P1"
    "steady op w w1" "su_app w1 = v1"
    using leads_invoke_each [OF assms(1) v(1)] unfolding runChecks_def by blast
  note a1 = runs_alone_steady [OF assms(1) w1(2)]
  obtain w2 where w2: "leads S V w1 ?P1 w2 ?P2" "steady op w1 w2" "su_app w2 = v"
    using leads_invoke_each [OF a1 v(2) [folded w1(3)]] unfolding runChecks_def by blast
  have "issue_selected E m op ctx data change row base k =
      runChecks E m op ctx base change PhasePrecondition (co_preconditions row) data False k ?P1"
    unfolding issue_selected_def assms(2) option.case issue_journaled_def by (rule refl)
  then show ?thesis
    using leads_trans [OF w1(1) w2(1)] steady_trans [OF w1(2) w2(2)] runs_alone_steady [OF a1 w2(2)]
      w2(3) by metis
qed

text \<open>The Issue action after a Journal that agreed.\<close>

lemma leads_issue_action:
  assumes "runs_alone op w" "su_nextRecord w \<noteq> - 1" "act (su_app w) = (v, Ret None)"
  shows "\<exists>w' stamp. leads S V w (issue_journaled E m op change row base act k None) w'
      (k (base\<lparr>re_issued := True, re_phase := PhaseIssue, re_stamp := stamp\<rparr>)) \<and>
    rs_ok stamp \<and> \<not> rs_durable stamp \<and> decided op w' \<and> su_mode w' = ModeAwaitingVerification \<and>
    su_pending w' = Some \<lparr>pe_change = change, pe_transition = row,
      pe_issuedAt = op_issuedAt (su_ops w op),
      pe_deadline = se_now E v + nat (VerificationTimeout (se_limits E)),
      pe_version = op_id (su_ops w op)\<rparr> \<and>
    su_app w' = v \<and> su_state w' = su_state w \<and> su_revision w' = su_revision w \<and>
    su_fault w' = su_fault w \<and> su_attempt w' = su_attempt w \<and>
    su_nextRecord w' = su_nextRecord w + 1 \<and> su_reporting w' = su_reporting w \<and>
    su_nextOperation w' = su_nextOperation w \<and>
    su_recorderRunning w' = su_recorderRunning w \<and> su_journalRunning w' = su_journalRunning w \<and>
    su_journalBusy w' = su_journalBusy w"
proof -
  let ?base = "base\<lparr>re_issued := True, re_phase := PhaseIssue\<rparr>"
  let ?await = "awaitVerification E op change row ?base (\<lambda>base fault.
      case fault of Some f \<Rightarrow> k (faultResult base (Some f)) | None \<Rightarrow> k base)"
  obtain w1 where w1: "leads S V w (issue_journaled E m op change row base act k None) w1
      (if_ended op (\<lambda>err. latchResult E m ?base op change PhaseIssue err True k) ?await)"
    "steady op w w1" "su_app w1 = v"
    unfolding issue_journaled_def option.case
    using leads_invoke [where act = act and S = S and V = V and E = E and change = change
        and phase = PhaseIssue and k = "\<lambda>out. case cb_err out of
              Some err \<Rightarrow> latchResult E m base op change PhaseIssue err True k
            | None \<Rightarrow>
                (let base = base\<lparr>re_issued := True, re_phase := PhaseIssue\<rparr> in
                 if_ended op
                   (\<lambda>err. latchResult E m base op change PhaseIssue err True k)
                   (awaitVerification E op change row base (\<lambda>base fault.
                      case fault of
                        Some f \<Rightarrow> k (faultResult base (Some f))
                      | None \<Rightarrow> k base)))", OF assms(1, 3)]
    by (auto simp: Let_def)
  note a1 = runs_alone_steady [OF assms(1) w1(2)]
  have rec: "su_nextRecord w1 \<noteq> - 1" using w1(2) assms(2) by (simp add: steady_def)
  obtain w2 stamp where w2: "leads S V w1 ?await w2 (k (?base\<lparr>re_stamp := stamp\<rparr>))"
    "rs_ok stamp" "\<not> rs_durable stamp" "decided op w2" "su_mode w2 = ModeAwaitingVerification"
    "su_pending w2 = Some \<lparr>pe_change = change, pe_transition = row,
      pe_issuedAt = op_issuedAt (su_ops w1 op),
      pe_deadline = now E w1 + nat (VerificationTimeout (se_limits E)),
      pe_version = op_id (su_ops w1 op)\<rparr>" "su_nextRecord w2 = su_nextRecord w1 + 1"
    "settled w1 (w2\<lparr>su_mode := su_mode w1, su_pending := su_pending w1\<rparr>)"
    using leads_awaitVerification [where S = S and V = V and E = E and change = change and row = row
        and base = ?base and k = "\<lambda>base fault.
      case fault of Some f \<Rightarrow> k (faultResult base (Some f)) | None \<Rightarrow> k base", OF a1 rec] by auto
  have "leads S V w (issue_journaled E m op change row base act k None) w2 (k (?base\<lparr>re_stamp := stamp\<rparr>))"
    by (rule leads_trans [OF w1(1) leads_trans [OF leads_if_ended [OF a1] w2(1)]])
  then show ?thesis
    using w1(2, 3) w2(2-)
    by (intro exI [of _ w2] exI [of _ stamp]) (simp add: steady_def settled_def now_def)
qed

section \<open>The Journal at the end of a call\<close>

text \<open>What the closing Journal has to be told: nothing is in doubt at the committed state.\<close>

definition reports :: "'s \<Rightarrow> u64 \<Rightarrow> ('s, 'e) ssnapshot \<Rightarrow> bool" where
  "reports s revision snap \<longleftrightarrow>
     \<not> sn_inDoubt snap \<and> \<not> sn_faulted snap \<and> sn_pending snap = None \<and> sn_state snap = s \<and>
     sn_revision snap = revision"

lemma ready_reports:
  "su_mode w \<noteq> ModeExecuting \<Longrightarrow> su_pending w = None \<Longrightarrow> su_fault w = None \<Longrightarrow>
     reports (su_state w) (su_revision w) (snapshotLocked E m w)"
  by (auto simp: reports_def snapshotLocked_def with_fault_def with_operation_def with_pending_def
      snapshot_of_def Let_def split: option.split)

lemma leads_closeJournal:
  assumes free: "\<not> su_journalBusy w" "\<not> su_journalRunning w" and dec: "decided op w"
    and idle: "su_mode w \<noteq> ModeExecuting" "su_pending w = None" "su_fault w = None"
    and journal: "se_journal E = Some journal"
      "\<And>snap. reports (su_state w) (su_revision w) snap \<Longrightarrow>
         journal (se_background E) snap (su_app w) = (v, Ret None)"
  shows "\<exists>w'. leads S V w (closeJournal E m (Some op) k) w' k \<and> settled w (w'\<lparr>su_app := su_app w\<rparr>) \<and>
    su_app w' = v \<and> su_nextRecord w' = su_nextRecord w \<and> decided op w'"
proof -
  let ?w1 = "w\<lparr>su_ctxs := (su_ctxs w)(su_nextCtx w := None), su_nextCtx := Suc (su_nextCtx w)\<rparr>"
  let ?ctx = "su_nextCtx w"
  let ?body = "\<lambda>finish. locked (\<lambda>w. (w, run_callback (journal (se_background E) (snapshotLocked E m w)) finish))"
  let ?after = "\<lambda>failure. locked (\<lambda>w.
      case failure of
        None \<Rightarrow> (w\<lparr>su_journalError := []\<rparr>, cancelling (Some ?ctx) k)
      | Some f \<Rightarrow>
          (let w = w\<lparr>su_journalError := se_text E f\<rparr>;
               base = (baseResultLocked E m w)
                 \<lparr>re_owner := Some op, re_err := Some (SJoined [SSentinel ErrJournal, f])\<rparr> in
           case stampLocked E w of (w, stamp) \<Rightarrow>
             (w, completeResult E (base\<lparr>re_stamp := stamp\<rparr>) (\<lambda>base.
                   recordResult E RecordJournalError base (cancelling (Some ?ctx) k)))))"
  have op: "su_operation w = Some op" "\<not> op_returned (su_ops w op)" using dec by (simp_all add: decided_def)
  have start: "leads S V w (closeJournal E m (Some op) k) ?w1 (deliverAdapter ?ctx (Some op) True ?body ?after)"
    unfolding closeJournal_def journal(1) option.case with_timeout_def by (rule leads_locked) simp
  have "\<exists>w'. leads S V ?w1 (deliverAdapter ?ctx (Some op) True ?body ?after) w' (?after None) \<and>
      journaled ?w1 v w'"
  proof (rule leads_journal)
    fix finish
    let ?j = "journaling op ?w1"
    have here: "su_mode ?j \<noteq> ModeExecuting" "su_pending ?j = None" "su_fault ?j = None"
      "su_state ?j = su_state w" "su_revision ?j = su_revision w"
      using idle by (simp_all add: journaling_def new_goroutine_def set_running_def set_gate_def
          add_callback_def)
    have "leads S V ?j (?body finish) ?j (run_callback (journal (se_background E) (snapshotLocked E m ?j)) finish)"
      by (rule leads_locked) simp
    also have "leads S V ?j \<dots> (?j\<lparr>su_app := v\<rparr>) (finish (Ret None))"
      unfolding run_callback_def
      by (rule leads_locked)
         (simp add: journal(2) [OF ready_reports [OF here(1-3), unfolded here(4, 5)]])
    finally show "leads S V ?j (?body finish) (?j\<lparr>su_app := v\<rparr>) (finish (Ret None))" .
  qed (use free op in simp_all)
  then obtain w2 where w2: "leads S V ?w1 (deliverAdapter ?ctx (Some op) True ?body ?after) w2 (?after None)"
    "journaled ?w1 v w2" by blast
  let ?w3 = "w2\<lparr>su_journalError := []\<rparr>"
  have after: "leads S V w2 (?after None) ?w3 (cancelling (Some ?ctx) k)" by (rule leads_locked) simp
  obtain w4 where w4: "leads S V ?w3 (cancelling (Some ?ctx) k) w4 k" "settled ?w3 w4"
    "su_nextRecord w4 = su_nextRecord ?w3" "su_operation w4 = su_operation ?w3" "su_ops w4 = su_ops ?w3"
    using leads_cancelling by blast
  have "settled w (w4\<lparr>su_app := su_app w\<rparr>) \<and> su_app w4 = v \<and> su_nextRecord w4 = su_nextRecord w \<and> decided op w4"
    using journaled_keeps [OF w2(2)] w4(2-) dec by (simp add: settled_def decided_def)
  then show ?thesis
    using leads_trans [OF start leads_trans [OF w2(1) leads_trans [OF after w4(1)]]] by blast
qed

lemma leads_finalize_journaled:
  fixes w :: "('s, 'e, 'c, 't, 'v) sup"
  assumes free: "\<not> su_journalBusy w" "\<not> su_journalRunning w" and dec: "decided op w"
    and idle: "su_mode w \<noteq> ModeExecuting" "su_pending w = None" "su_fault w = None"
    and journal: "se_journal E = Some journal"
      "\<And>snap. reports (su_state w) (su_revision w) snap \<Longrightarrow>
         journal (se_background E) snap (su_app w) = (v, Ret None)"
    and r: "se_recorder E = None" "re_owner r = Some op" "\<not> re_reporting r" "rs_ok (re_stamp r)"
      "rs_durable (re_stamp r)"
  shows "\<exists>w'. leads S V w (super_finalize E m kind r) w'
      (Return (ResultOf ((completed (now E w) r)\<lparr>re_owner := None, re_reporting := False\<rparr>))) \<and>
    settled w (w'\<lparr>su_app := su_app w\<rparr>) \<and> su_app w' = v \<and> su_nextRecord w' = su_nextRecord w \<and>
    su_operation w' = None"
proof -
  let ?r = "completed (now E w) r"
  let ?k = "Return (ResultOf (?r\<lparr>re_owner := None, re_reporting := False\<rparr>))
      :: ('s, 'e, 'c, 't, 'v) sprog"
  let ?rest = "recordResult E kind ?r
      (if re_reporting ?r then locked (\<lambda>w. (reportingReturned w, ?k))
       else case re_owner ?r of Some op \<Rightarrow> locked (\<lambda>w. (operationReturned op w, ?k)) | None \<Rightarrow> ?k)"
  have r': "re_owner ?r = Some op" "\<not> re_reporting ?r" "rs_ok (re_stamp ?r)" using r by simp_all
  have go: "leads S V w (super_finalize E m kind r) w (closeJournal E m (Some op) ?rest)"
    unfolding super_finalize_def completeResult_def Let_def
    by (rule leads_locked) (simp add: closeJournalAfter_def r)
  obtain w1 where w1: "leads S V w (closeJournal E m (Some op) ?rest) w1 ?rest"
    "settled w (w1\<lparr>su_app := su_app w\<rparr>)" "su_app w1 = v" "su_nextRecord w1 = su_nextRecord w"
    "decided op w1"
    using leads_closeJournal [OF free dec idle journal] by blast
  obtain w2 where w2: "leads S V w1 ?rest w2 ?k" "settled w1 w2" "su_nextRecord w2 = su_nextRecord w1"
    "su_operation w2 = None"
    using leads_returning [where S = S and V = V and kind = kind, OF r(1) w1(5) r'] by blast
  have "settled w (w2\<lparr>su_app := su_app w\<rparr>) \<and> su_app w2 = v \<and> su_nextRecord w2 = su_nextRecord w"
    using w1(2-4) w2(2, 3) by (simp add: settled_def)
  then show ?thesis using leads_trans [OF go leads_trans [OF w1(1) w2(1)]] w2(4) by blast
qed

section \<open>Whole calls\<close>

text \<open>An Issue of an external row, from its admission to its Result.\<close>

lemma leads_issue_external:
  fixes w :: "('s, 'e, 'c, 't, 'v) sup"
  assumes idle: "\<not> su_journalBusy w" "su_pending w = None" "su_fault w = None"
    and adapters: "se_journal E = Some journal" "se_recorder E = None"
    and open': "su_mode w = ModeReady" "\<not> admission_closed w" "\<not> countersExhaustedLocked w"
      "su_attempt w \<noteq> - 1" "key_ok L event" "event \<in> sm_eventSet m" "se_err E ctx (su_app w) = None"
    and run: "passes (map (\<lambda>p. p ctx (next_attempt E m event w) data) (sm_preconditions m)) (su_app w) = Some v1"
      "selects ctx data (next_attempt E m event w) (slice (sm_rows m) (su_state w, event)) v1 = Some (row, v2)"
      "co_issue row = Some issue" "c = candidate_change (next_attempt E m event w) row"
      "passes (map (\<lambda>check. check ctx c data) (co_preconditions row @ sm_invariants m)) v2 = Some v3"
      "se_now E v3 \<noteq> 0"
      "\<And>snap. announces c (se_now E v3) (su_state w) snap \<Longrightarrow> journal ctx snap v3 = (v4, Ret None)"
      "issue ctx c data v4 = (v, Ret None)"
  shows "\<exists>w' r p. leads S V w (super_Issue L E m (Some ctx) event data) w' (Return (ResultOf r)) \<and>
    re_issued r \<and> \<not> re_committed r \<and> re_err r = None \<and> re_transition r = co_id row \<and>
    su_mode w' = ModeAwaitingVerification \<and> su_state w' = su_state w \<and>
    su_revision w' = su_revision w \<and> su_operation w' = None \<and> su_app w' = v \<and>
    su_pending w' = Some p \<and> pe_change p = c \<and> pe_transition p = row \<and>
    pe_issuedAt p = se_now E v3 \<and>
    pe_deadline p = se_now E v + nat (VerificationTimeout (se_limits E)) \<and>
    \<not> admission_closed w' \<and> \<not> su_journalBusy w' \<and> su_fault w' = None \<and>
    su_nextRecord w' = su_nextRecord w + 1 \<and> su_nextOperation w' = su_nextOperation w + 1"
proof -
  let ?a = "next_attempt E m event w"
  let ?fin = "super_finalize E m RecordIssue"
  have cnt: "su_nextRecord w \<noteq> - 1"
    using open'(3) by (auto simp: countersExhaustedLocked_def recordSeqMargin_def)
  have running: "\<not> su_journalRunning w" using open'(2) by (simp add: admission_closed_def)
  have at: "at_from ?a = su_state w" "at_event ?a = event" by (simp_all add: next_attempt_def)
  have c: "c = candidate_change ?a row" by (rule run(4))
  have id: "at_id c \<noteq> 0"
  proof -
    have "su_attempt w + 1 \<noteq> 0" using open'(4) by (metis add.inverse_inverse add.commute add_eq_0_iff)
    then show ?thesis by (simp add: c candidate_change_def next_attempt_def attempt.defs change.defs)
  qed
  obtain w1 op change base where 1: "leads S V w (super_Issue L E m (Some ctx) event data) w1
      (issue_run E m ctx data op ?a change base ?fin)"
    "runs_alone op w1" "re_owner base = Some op" "\<not> re_reporting base" "re_err base = None"
    "\<not> re_committed base" "su_app w1 = su_app w" "su_revision w1 = su_revision w"
    "su_nextRecord w1 = su_nextRecord w" "su_state w1 = su_state w" "su_fault w1 = su_fault w"
    "su_pending w1 = su_pending w" "su_journalBusy w1 = su_journalBusy w"
    "su_journalRunning w1 = su_journalRunning w" "su_recorderRunning w1 = su_recorderRunning w"
    "su_reporting w1 = su_reporting w" "su_nextOperation w1 = su_nextOperation w + 1"
    using leads_admission [where S = S and V = V and data = data, OF open'] by blast
  have pre: "passes (map (\<lambda>p. p ctx ?a data) (sm_preconditions m)) (su_app w1) = Some v1"
    using run(1) by (simp add: 1(7))
  have sel: "selects ctx data ?a (slice (sm_rows m) (at_from ?a, at_event ?a)) v1 = Some (row, v2)"
    using run(2) by (simp add: at)
  obtain w2 where 2: "leads S V w1 (issue_run E m ctx data op ?a change base ?fin) w2
      (issue_selected E m op ctx data c row (selected_base ?a row base) ?fin)"
    "steady op w1 w2" "runs_alone op w2" "su_app w2 = v2"
    using leads_selection [where S = S and V = V, OF 1(2) pre sel] unfolding c by blast
  let ?base = "selected_base ?a row base"
  let ?act = "issue ctx c data"
  obtain w3 where 3: "leads S V w2 (issue_selected E m op ctx data c row ?base ?fin) w3
      (prepareIssue E m op ctx c (issue_journaled E m op c row ?base ?act ?fin))"
    "steady op w2 w3" "runs_alone op w3" "su_app w3 = v3"
    using leads_external_checks [where S = S and V = V, OF 2(3) run(3) run(5) [folded 2(4)]] by blast
  have w3: "su_state w3 = su_state w" "su_revision w3 = su_revision w" "su_pending w3 = None"
    "su_fault w3 = None" "\<not> su_journalBusy w3" "\<not> su_journalRunning w3" "su_nextRecord w3 = su_nextRecord w"
    "\<not> su_recorderRunning w3" "su_reporting w3 = 0" "su_nextOperation w3 = su_nextOperation w + 1"
    using 1(7-) 2(2) 3(2) idle running cnt open'(2) by (simp_all add: steady_def admission_closed_def)
  have now3: "now E w3 = se_now E v3" by (simp add: now_def 3(4))
  obtain w4 where 4: "leads S V w3 (prepareIssue E m op ctx c (issue_journaled E m op c row ?base ?act ?fin)) w4
      (issue_journaled E m op c row ?base ?act ?fin None)" "journaled (prepared op c (now E w3) w3) v4 w4"
    using leads_prepareIssue [where S = S and V = V and v = v4 and e = None and k = "issue_journaled E m op c row ?base ?act ?fin"
        and m = m, OF 3(3) w3(3-6) _ id adapters(1)] run(6, 7)
    by (auto simp: now3 w3(1) 3(4))
  have w4: "runs_alone op w4" "su_nextRecord w4 \<noteq> - 1" "su_app w4 = v4" "su_state w4 = su_state w"
    "su_revision w4 = su_revision w" "op_issuedAt (su_ops w4 op) = se_now E v3"
    "su_nextRecord w4 = su_nextRecord w" "\<not> su_journalRunning w4" "\<not> su_journalBusy w4"
    "\<not> su_recorderRunning w4" "su_reporting w4 = 0" "su_fault w4 = None"
    "su_nextOperation w4 = su_nextOperation w + 1"
    using journaled_keeps [OF 4(2)] 3(3) w3 now3 cnt
    by (simp_all add: prepared_def runs_alone_def ownsLocked_def ops_upd_op upd_op_def)
  obtain w5 stamp where 5: "leads S V w4 (issue_journaled E m op c row ?base ?act ?fin None) w5
      (?fin (?base\<lparr>re_issued := True, re_phase := PhaseIssue, re_stamp := stamp\<rparr>))"
    "rs_ok stamp" "\<not> rs_durable stamp" "decided op w5" "su_mode w5 = ModeAwaitingVerification"
    "su_pending w5 = Some \<lparr>pe_change = c, pe_transition = row,
      pe_issuedAt = op_issuedAt (su_ops w4 op),
      pe_deadline = se_now E v + nat (VerificationTimeout (se_limits E)),
      pe_version = op_id (su_ops w4 op)\<rparr>"
    "su_app w5 = v" "su_state w5 = su_state w4" "su_revision w5 = su_revision w4"
    "su_fault w5 = su_fault w4" "su_nextOperation w5 = su_nextOperation w4" "su_nextRecord w5 = su_nextRecord w4 + 1"
    "su_reporting w5 = su_reporting w4" "su_recorderRunning w5 = su_recorderRunning w4"
    "su_journalRunning w5 = su_journalRunning w4" "su_journalBusy w5 = su_journalBusy w4"
    using leads_issue_action [where S = S and V = V and E = E and m = m and change = c and row = row
        and base = ?base and k = ?fin and act = ?act and v = v, OF w4(1, 2) run(8) [folded w4(3)]]
    by blast
  let ?r = "?base\<lparr>re_issued := True, re_phase := PhaseIssue, re_stamp := stamp\<rparr>"
  let ?done = "(completed (now E w5) ?r)\<lparr>re_owner := None, re_reporting := False\<rparr>"
  obtain w6 where 6: "leads S V w5 (?fin ?r) w6 (Return (ResultOf ?done))" "settled w5 w6"
    "su_operation w6 = None" "su_nextRecord w6 = su_nextRecord w5"
    using leads_finalize [where op = op and r = ?r and w = w5 and kind = RecordIssue and S = S
        and V = V and m = m, OF _ adapters(2) 5(4)] 1(3, 4) 5(2, 3) by (auto simp: selected_base_def)
  show ?thesis
    using leads_trans [OF 1(1) leads_trans [OF 2(1) leads_trans [OF 3(1) leads_trans [OF 4(1)
        leads_trans [OF 5(1) 6(1)]]]]] 5(5-) 6(2-) w4 1(5, 6)
    by (intro exI [of _ w6] exI [of _ ?done] exI [of _ "\<lparr>pe_change = c, pe_transition = row,
      pe_issuedAt = op_issuedAt (su_ops w4 op),
      pe_deadline = se_now E v + nat (VerificationTimeout (se_limits E)),
      pe_version = op_id (su_ops w4 op)\<rparr>"])
      (simp add: completed_def Let_def settled_def selected_base_def admission_closed_def)
qed

text \<open>A Verify of the pending change, from its admission to its Result.\<close>

lemma leads_verify:
  fixes w :: "('s, 'e, 'c, 't, 'v) sup"
  assumes idle: "\<not> su_journalBusy w" "su_fault w = None"
    and adapters: "se_journal E = Some journal" "se_recorder E = None"
    and open': "su_mode w = ModeAwaitingVerification" "\<not> admission_closed w"
      "\<not> countersExhaustedLocked w" "se_err E ctx (su_app w) = None"
      "su_pending w = Some p" "Identifier (pe_change p) = key" "now E w < pe_deadline p"
    and run: "passes (verify_callback (pe_transition p) ctx (pe_change p) data #
        map (\<lambda>check. check ctx (pe_change p) data) (sm_invariants m @ sm_postconditions m))
        (su_app w) = Some v1"
      "\<And>snap. reports (ch_to (pe_change p)) (su_revision w + 1) snap \<Longrightarrow>
         journal (se_background E) snap v1 = (v, Ret None)"
  shows "\<exists>w' r. leads S V w (super_Verify E m (Some ctx) key data) w' (Return (ResultOf r)) \<and>
    re_verified r \<and> re_committed r \<and> re_err r = None \<and> re_revision r = su_revision w + 1 \<and>
    su_mode w' = ModeReady \<and> su_state w' = ch_to (pe_change p) \<and>
    su_revision w' = su_revision w + 1 \<and> su_pending w' = None \<and> su_operation w' = None \<and>
    su_app w' = v"
proof -
  let ?c = "pe_change p"
  let ?fin = "super_finalize E m RecordVerify"
  let ?w = "w\<lparr>su_timer := None\<rparr>"
  let ?run = "map (\<lambda>check. check ctx ?c data)"
  have cnt: "su_revision w \<noteq> - 1" "su_nextRecord w \<noteq> - 1"
    using open'(3) by (auto simp: countersExhaustedLocked_def recordSeqMargin_def)
  have running: "\<not> su_journalRunning w" using open'(2) by (simp add: admission_closed_def)
  obtain w1 op where b: "beginOperationLocked E ctx ?c PhaseVerify ?w = (w1, op)" by fastforce
  note kept = begun_keeps [OF b]
  have alone: "runs_alone op w1" using begun_runs_alone [OF b] open'(4) by simp
  let ?base = "(resultFromChange E ?c)\<lparr>re_stamp := re_stamp (baseResultLocked E m w),
      re_revision := su_revision w, re_issued := True, re_startedAt := op_startedAt (su_ops w1 op),
      re_operation := op_id (su_ops w1 op), re_owner := Some op\<rparr>"
  let ?vbase = "?base\<lparr>re_verified := True\<rparr>"
  let ?P3 = "super_commit E m op ?vbase ?c True True ?fin"
  let ?P2 = "runChecks E m op ctx ?vbase ?c PhasePostcondition (sm_postconditions m) data True ?fin ?P3"
  let ?P1 = "runChecks E m op ctx ?vbase ?c PhaseInvariant (sm_invariants m) data True ?fin ?P2"
  have 1: "leads S V w (super_Verify E m (Some ctx) key data) w1
      (verify_run E m ctx data op (pe_transition p) ?c ?base ?fin)"
    unfolding super_Verify_def verifyDecision_def option.case
    by (rule leads_locked) (simp add: Let_def open' b del: split_paired_All)
  obtain u1 u2 where u: "passes [verify_callback (pe_transition p) ctx ?c data] (su_app w1) = Some u1"
    "passes (?run (sm_invariants m)) u1 = Some u2" "passes (?run (sm_postconditions m)) u2 = Some v1"
    using run(1) kept(7)
    by (auto simp: passes_append split: option.splits prod.splits outcome.splits)
  obtain w2 where w2: "leads S V w1 (verify_run E m ctx data op (pe_transition p) ?c ?base ?fin) w2 ?P1"
    "steady op w1 w2" "su_app w2 = u1"
    using leads_invoke_each [OF alone u(1)] unfolding verify_run_def Let_def by blast
  note a2 = runs_alone_steady [OF alone w2(2)]
  obtain w3 where w3: "leads S V w2 ?P1 w3 ?P2" "steady op w2 w3" "su_app w3 = u2"
    using leads_invoke_each [OF a2 u(2) [folded w2(3)]] unfolding runChecks_def by blast
  note a3 = runs_alone_steady [OF a2 w3(2)]
  obtain w4 where w4: "leads S V w3 ?P2 w4 ?P3" "steady op w3 w4" "su_app w4 = v1"
    using leads_invoke_each [OF a3 u(3) [folded w3(3)]] unfolding runChecks_def by blast
  note a4 = runs_alone_steady [OF a3 w4(2)]
  have st: "su_revision w4 = su_revision w" "su_nextRecord w4 = su_nextRecord w" "su_fault w4 = None"
    "\<not> su_journalBusy w4" "\<not> su_journalRunning w4"
    using w2(2) w3(2) w4(2) kept idle running by (simp_all add: steady_def)
  obtain w5 stamp where w5: "leads S V w4 ?P3 w5 (?fin (?vbase\<lparr>re_stamp := stamp,
      re_phase := PhaseCommit, re_revision := su_revision w + 1, re_issued := True,
      re_verified := True, re_committed := True\<rparr>))"
    "rs_ok stamp" "rs_durable stamp" "decided op w5" "su_mode w5 = ModeReady" "su_state w5 = ch_to ?c"
    "su_revision w5 = su_revision w + 1" "su_app w5 = v1" "su_fault w5 = None" "su_pending w5 = None"
    "\<not> su_journalBusy w5" "\<not> su_journalRunning w5"
    using leads_commit [where S = S and V = V and E = E and m = m and base = ?vbase and change = ?c
        and issued = True and verified = True and k = ?fin, OF a4] st cnt w4(3) by auto
  let ?r = "?vbase\<lparr>re_stamp := stamp, re_phase := PhaseCommit, re_revision := su_revision w + 1,
      re_issued := True, re_verified := True, re_committed := True\<rparr>"
  let ?done = "(completed (now E w5) ?r)\<lparr>re_owner := None, re_reporting := False\<rparr>"
  obtain w6 where w6: "leads S V w5 (?fin ?r) w6 (Return (ResultOf ?done))"
    "settled w5 (w6\<lparr>su_app := su_app w5\<rparr>)" "su_app w6 = v" "su_operation w6 = None"
    using leads_finalize_journaled [where S = S and V = V and m = m and r = ?r and kind = RecordVerify
        and v = v, OF w5(11, 12, 4) _ w5(10, 9) adapters(1) _ adapters(2)] w5 run(2) by auto
  show ?thesis
    using leads_trans [OF 1 leads_trans [OF w2(1) leads_trans [OF w3(1) leads_trans [OF w4(1)
        leads_trans [OF w5(1) w6(1)]]]]] w5(5-) w6(2-)
    by (intro exI [of _ w6] exI [of _ ?done])
      (simp add: completed_def Let_def settled_def resultFromChange_def zero_result_def)
qed

text \<open>A Start whose reconciliation agrees and whose Journal accepts the snapshot.\<close>

lemma leads_start_journaled:
  fixes w :: "('s, 'e, 'c, 't, 'v) sup"
  assumes adapters: "se_journal E = Some journal" "se_recorder E = None"
    and idle: "\<not> su_journalBusy w" "su_pending w = None" "su_fault w = None"
    and free: "su_mode w = ModeStopped" "\<not> admission_closed w" "\<not> countersExhaustedLocked w"
    and ctx: "se_err E ctx (su_app w) = None"
    and agree: "\<And>snapshot. passes (map (\<lambda>reconcile. reconcile ctx snapshot data) (sm_reconcile m))
      (su_app w) = Some v1"
    and accepts: "\<And>snap. reports (su_state w) (su_revision w) snap \<Longrightarrow>
      journal (se_background E) snap v1 = (v, Ret None)"
  shows "\<exists>w' r. leads S V w (super_Start E m (Some ctx) data) w' (Return (ResultOf r)) \<and>
    re_err r = None \<and> su_mode w' = ModeReady \<and> su_operation w' = None \<and> su_app w' = v \<and>
    su_nextRecord w' = su_nextRecord w + 1 \<and> su_state w' = su_state w \<and>
    su_revision w' = su_revision w \<and> su_attempt w' = su_attempt w \<and>
    su_nextOperation w' = su_nextOperation w + 1 \<and> su_recorderRunning w' = su_recorderRunning w \<and>
    su_journalRunning w' = su_journalRunning w \<and> su_reporting w' = su_reporting w"
proof -
  have running: "\<not> su_journalRunning w" using free(2) by (simp add: admission_closed_def)
  obtain w3 op r where 3: "leads S V w (super_Start E m (Some ctx) data) w3 (super_finalize E m RecordStart r)"
    "re_owner r = Some op" "\<not> re_reporting r" "re_err r = None" "rs_ok (re_stamp r)"
    "rs_durable (re_stamp r)" "decided op w3" "su_mode w3 = ModeReady" "su_app w3 = v1"
    "su_nextRecord w3 = su_nextRecord w + 1" "su_state w3 = su_state w" "su_revision w3 = su_revision w"
    "su_attempt w3 = su_attempt w" "su_nextOperation w3 = su_nextOperation w + 1"
    "su_recorderRunning w3 = su_recorderRunning w" "su_journalRunning w3 = su_journalRunning w"
    "su_reporting w3 = su_reporting w" "su_fault w3 = su_fault w" "su_pending w3 = su_pending w"
    "su_journalBusy w3 = su_journalBusy w"
    using leads_started [where S = S and V = V, OF free ctx agree] by blast
  have st: "\<not> su_journalBusy w3" "\<not> su_journalRunning w3" "su_mode w3 \<noteq> ModeExecuting"
    "su_pending w3 = None" "su_fault w3 = None"
    using 3 idle running by simp_all
  obtain w4 where 4: "leads S V w3 (super_finalize E m RecordStart r) w4
      (Return (ResultOf ((completed (now E w3) r)\<lparr>re_owner := None, re_reporting := False\<rparr>)))"
    "settled w3 (w4\<lparr>su_app := su_app w3\<rparr>)" "su_app w4 = v" "su_nextRecord w4 = su_nextRecord w3"
    "su_operation w4 = None"
    using leads_finalize_journaled [where S = S and V = V and m = m and r = r and kind = RecordStart
        and v = v, OF st(1, 2) 3(7) st(3-5) adapters(1) _ adapters(2) 3(2, 3, 5, 6)]
      accepts unfolding 3(9, 11, 12) by blast
  show ?thesis
    using leads_trans [OF 3(1) 4(1)] 3(4-) 4(2-)
    by (intro exI [of _ w4] exI) (auto simp: settled_def completed_def Let_def)
qed

section \<open>Properties\<close>

text \<open>C5. An external transition that nothing interferes with is announced, issued, verified and
  committed, in this order. On a reachable, Ready Supervisor the Issue call first runs the checks;
  then the Journal is given a snapshot that shows the change in doubt, and only after it agreed the
  row's Issue action runs; the call ends AwaitingVerification, with the state and the revision
  unchanged. A Verify of that attempt before the deadline runs the Verify action, the invariants
  and the postconditions, commits the row's target at the next revision, and gives the Journal a
  snapshot that shows nothing in doubt. Each call ends with all its goroutines finished.\<close>

theorem external_transition_commits:
  assumes "compile_super K L d = Inr m" "sup_reachable K L E m (w, ps)"
    and "se_journal E = Some journal" "se_recorder E = None" "0 < VerificationTimeout (se_limits E)"
    and "su_mode w = ModeReady" "\<not> admission_closed w" "\<not> countersExhaustedLocked w"
    and "su_nextOperation w + 1 < - 1 - 1" "su_nextRecord w + 1 < - 1 - recordSeqMargin"
    and "su_attempt w \<noteq> - 1" "key_ok L event" "event \<in> sm_eventSet m" "se_err E ctx (su_app w) = None"
    and "passes (map (\<lambda>p. p ctx (next_attempt E m event w) data) (sm_preconditions m)) (su_app w) = Some v1"
    and "selects ctx data (next_attempt E m event w) (slice (sm_rows m) (su_state w, event)) v1 =
           Some (row, v2)"
    and "co_issue row = Some issue" "c = candidate_change (next_attempt E m event w) row"
    and "passes (map (\<lambda>check. check ctx c data) (co_preconditions row @ sm_invariants m)) v2 = Some v3"
    and "se_now E v3 \<noteq> 0"
    and "\<And>snap. announces c (se_now E v3) (su_state w) snap \<Longrightarrow> journal ctx snap v3 = (v4, Ret None)"
    and "issue ctx c data v4 = (v5, Ret None)"
    and "se_err E ctx' v5 = None"
    and "passes (verify_callback row ctx' c data' #
           map (\<lambda>check. check ctx' c data') (sm_invariants m @ sm_postconditions m)) v5 = Some v6"
    and "\<And>snap. reports (co_to row) (su_revision w + 1) snap \<Longrightarrow>
           journal (se_background E) snap v6 = (v7, Ret None)"
  shows "\<exists>w1 r1 ds1 w2 r2 ds2.
    sup_runs K L E m (w, ps @ [super_Issue L E m (Some ctx) event data])
      (w1, ps @ Return (ResultOf r1) # ds1) \<and>
    re_issued r1 \<and> \<not> re_committed r1 \<and> re_err r1 = None \<and> re_transition r1 = co_id row \<and>
    su_mode w1 = ModeAwaitingVerification \<and> su_state w1 = su_state w \<and>
    su_revision w1 = su_revision w \<and> su_app w1 = v5 \<and>
    sup_runs K L E m
      (w1, ps @ Return (ResultOf r1) # ds1 @ [super_Verify E m (Some ctx') (Identifier c) data'])
      (w2, ps @ Return (ResultOf r1) # ds1 @ Return (ResultOf r2) # ds2) \<and>
    re_verified r2 \<and> re_committed r2 \<and> re_err r2 = None \<and>
    su_mode w2 = ModeReady \<and> su_state w2 = co_to row \<and> su_revision w2 = su_revision w + 1 \<and>
    su_pending w2 = None \<and> su_operation w2 = None \<and> su_app w2 = v7 \<and>
    (\<forall>d \<in> set ds1 \<union> set ds2. \<exists>a. d = Return a)"
proof -
  let ?S = "sup_call K L E m"
  obtain T where I: "sup_inv (dom (sm_stateIndex m)) (external_row m) w T"
    using reachable_inv [OF assms(1, 2)] by blast
  have idle: "\<not> su_journalBusy w" "su_pending w = None" "su_fault w = None"
    using I assms(7) sup_inv_idle [OF I] assms(6)
    by (auto simp: sup_inv_def heap_ok_def admission_closed_def)
  obtain w1 r1 p where 1: "leads ?S sup_env w (super_Issue L E m (Some ctx) event data) w1 (Return (ResultOf r1))"
    "re_issued r1 \<and> \<not> re_committed r1 \<and> re_err r1 = None \<and> re_transition r1 = co_id row"
    "su_mode w1 = ModeAwaitingVerification" "su_state w1 = su_state w" "su_revision w1 = su_revision w"
    "su_app w1 = v5" "su_pending w1 = Some p" "pe_change p = c" "pe_transition p = row"
    "pe_deadline p = se_now E v5 + nat (VerificationTimeout (se_limits E))"
    "\<not> admission_closed w1" "\<not> su_journalBusy w1" "su_fault w1 = None"
    "su_nextRecord w1 = su_nextRecord w + 1" "su_nextOperation w1 = su_nextOperation w + 1"
    using leads_issue_external [where S = ?S and V = sup_env, OF idle assms(3, 4, 6, 7, 8)
        assms(11-22)] by blast
  have c: "ch_to c = co_to row" by (simp add: assms(18))
  have "\<not> countersExhaustedLocked w1"
    using 1(4, 5, 14, 15) assms(8-10) by (auto simp: countersExhaustedLocked_def not_le)
  moreover have "now E w1 < pe_deadline p" using 1(6, 10) assms(5) by (simp add: now_def)
  moreover have "se_err E ctx' (su_app w1) = None" using assms(23) by (simp only: 1(6))
  moreover have "passes (verify_callback (pe_transition p) ctx' (pe_change p) data' #
      map (\<lambda>check. check ctx' (pe_change p) data') (sm_invariants m @ sm_postconditions m)) (su_app w1) = Some v6"
    using assms(24) by (simp only: 1(6, 8, 9))
  moreover have "journal (se_background E) snap v6 = (v7, Ret None)"
    if "reports (ch_to (pe_change p)) (su_revision w1 + 1) snap" for snap
    using assms(25) that by (simp only: 1(5, 8) c)
  ultimately obtain w2 r2 where 2: "leads ?S sup_env w1 (super_Verify E m (Some ctx') (Identifier c) data') w2
      (Return (ResultOf r2))"
    "re_verified r2" "re_committed r2" "re_err r2 = None" "su_mode w2 = ModeReady"
    "su_state w2 = co_to row" "su_revision w2 = su_revision w + 1" "su_pending w2 = None"
    "su_operation w2 = None" "su_app w2 = v7"
    using leads_verify [where S = ?S and V = sup_env and w = w1 and data = data' and ctx = ctx'
        and key = "Identifier c" and p = p and v = v7 and E = E and m = m and ?v1.0 = v6,
        OF 1(12, 13) assms(3, 4) 1(3, 11) _ _ 1(7)]
    unfolding 1(5, 8) c by blast
  obtain ds1 where ds1: "\<forall>d \<in> set ds1. \<exists>a. d = Return a"
    "sup_runs K L E m (w, ps @ [super_Issue L E m (Some ctx) event data])
       (w1, ps @ Return (ResultOf r1) # ds1)"
    using leads_pool [OF 1(1) pool_refl] by blast
  obtain ds2 where ds2: "\<forall>d \<in> set ds2. \<exists>a. d = Return a"
    "sup_runs K L E m (w1, (ps @ Return (ResultOf r1) # ds1) @
         [super_Verify E m (Some ctx') (Identifier c) data'])
       (w2, (ps @ Return (ResultOf r1) # ds1) @ Return (ResultOf r2) # ds2)"
    using leads_pool [OF 2(1) pool_refl] by blast
  show ?thesis
    using 1(2-6) 2(2-) ds1 ds2
    by (intro exI [of _ w1] exI [of _ r1] exI [of _ ds1] exI [of _ w2] exI [of _ r2] exI [of _ ds2]) auto
qed

section \<open>A concrete external transition\<close>

definition ext_env :: "(nat, nat, unit, unit) senv" where
  "ext_env = demo_env\<lparr>se_journal := Some (\<lambda>_ _. ret None)\<rparr>"

abbreviation ext_machine :: "(nat, nat, unit, nat, unit) smachine" where
  "ext_machine \<equiv> machine_of issue_demo"

definition ext_new :: "(nat, nat, unit, nat, unit) sup" where
  "ext_new = (case newSupervisor ext_env ext_machine (Inr 1) () of Inr w \<Rightarrow> w)"

lemma ext_env_fields:
  "se_journal ext_env = Some (\<lambda>_ _. ret None)" "se_recorder ext_env = None"
  "se_err ext_env ctx v = None" "0 < VerificationTimeout (se_limits ext_env)" "se_now ext_env v \<noteq> 0"
  by (simp_all add: ext_env_def demo_env_def)

lemma ext_new_reachable: "sup_reachable demo_keys demo_keys ext_env ext_machine (ext_new, [])"
proof -
  have "newSupervisor ext_env ext_machine (Inr 1) () = Inr ext_new"
    by (simp add: ext_new_def newSupervisor_def newExecutionID_def ext_env_def demo_env_def validateLimits_def)
  then show ?thesis
    unfolding sup_reachable_def sup_initial_def by (blast intro: pool_refl)
qed

lemma ext_new_fields:
  "su_mode ext_new = ModeStopped" "\<not> admission_closed ext_new" "\<not> countersExhaustedLocked ext_new"
  "su_state ext_new = 0" "su_revision ext_new = 0" "su_attempt ext_new = 0" "su_nextRecord ext_new = 0"
  "su_nextOperation ext_new = 0" "\<not> su_recorderRunning ext_new" "\<not> su_journalRunning ext_new"
  "su_reporting ext_new = 0" "\<not> su_journalBusy ext_new" "su_pending ext_new = None" "su_fault ext_new = None"
  by (simp_all add: ext_new_def newSupervisor_def newExecutionID_def ext_env_def demo_env_def
      validateLimits_def machine_of_def issue_demo_def sup_demo_def admission_closed_def
      countersExhaustedLocked_def recordSeqMargin_def word_le_nat_alt)

lemma ext_machine_fields:
  "sm_reconcile ext_machine = [\<lambda>_ _ _. ret None]" "sm_preconditions ext_machine = [\<lambda>_ _ _. ret None]"
  "sm_invariants ext_machine = [\<lambda>_ _ _. ret None]" "sm_postconditions ext_machine = [\<lambda>_ _ _. ret None]"
  "5 \<in> sm_eventSet ext_machine"
  by (simp_all add: machine_of_def issue_demo_def sup_demo_def)

lemma ext_rows: "slice (sm_rows ext_machine) (0, 5) = [compiled_of (hd (sd_transitions issue_demo))]"
  by (simp add: slice_def machine_of_def issue_demo_def sup_demo_def super_rows_def nonempty_def tr_key_def)

lemma ext_row:
  fixes row defines "row \<equiv> compiled_of (hd (sd_transitions issue_demo))"
  shows "co_issue row = Some (\<lambda>_ _ _. ret None)" "co_verify row = Some (\<lambda>_ _ _. ret None)"
    "co_guard row = None" "co_to row = 2" "co_id row = [103]" "co_preconditions row = []"
  unfolding row_def by (simp_all add: issue_demo_def sup_demo_def compiled_of_def)

lemma ext_ready:
  "\<exists>w ps. sup_reachable demo_keys demo_keys ext_env ext_machine (w, ps) \<and> su_mode w = ModeReady \<and>
     su_state w = 0 \<and> su_revision w = 0 \<and> su_attempt w \<noteq> - 1 \<and> \<not> admission_closed w \<and>
     \<not> countersExhaustedLocked w \<and> su_nextOperation w + 1 < - 1 - 1 \<and>
     su_nextRecord w + 1 < - 1 - recordSeqMargin"
proof -
  let ?S = "sup_call demo_keys demo_keys ext_env ext_machine"
  obtain w r where w: "leads ?S sup_env ext_new (super_Start ext_env ext_machine (Some ()) 0) w (Return (ResultOf r))"
    "su_mode w = ModeReady" "su_operation w = None" "su_nextRecord w = 1" "su_state w = 0"
    "su_revision w = 0" "su_attempt w = 0" "su_nextOperation w = 1" "\<not> su_recorderRunning w"
    "\<not> su_journalRunning w" "su_reporting w = 0"
    using leads_start_journaled [where E = ext_env and m = ext_machine and w = ext_new and ctx = "()"
        and data = 0 and v = "()" and ?v1.0 = "()" and S = ?S and V = sup_env,
        OF ext_env_fields(1, 2) ext_new_fields(12-14, 1-3) ext_env_fields(3)] ext_new_fields
    by (auto simp: ext_machine_fields ret_def)
  have free: "\<not> admission_closed w" "\<not> countersExhaustedLocked w" "su_attempt w \<noteq> - 1"
    "su_nextOperation w + 1 < - 1 - 1" "su_nextRecord w + 1 < - 1 - recordSeqMargin"
    using w by (simp_all add: admission_closed_def countersExhaustedLocked_def recordSeqMargin_def
        word_le_nat_alt word_less_nat_alt)
  have "sup_runs demo_keys demo_keys ext_env ext_machine (ext_new, [])
      (ext_new, [] @ [super_Start ext_env ext_machine (Some ()) 0])"
    by (rule call_joins) (rule CallStart)
  then have "\<exists>ps. sup_reachable demo_keys demo_keys ext_env ext_machine (w, ps)"
    using leads_pool [OF w(1)] ext_new_reachable unfolding sup_reachable_def
    by (meson pool_runs_trans)
  then show ?thesis using w(2, 5, 6) free by blast
qed

lemma external_transition_commits_witness:
  "\<exists>w ps w1 r1 ds1 w2 r2 ds2. sup_reachable demo_keys demo_keys ext_env ext_machine (w, ps) \<and>
     sup_runs demo_keys demo_keys ext_env ext_machine
       (w, ps @ [super_Issue demo_keys ext_env ext_machine (Some ()) 5 0])
       (w1, ps @ Return (ResultOf r1) # ds1) \<and>
     re_issued r1 \<and> \<not> re_committed r1 \<and> su_mode w1 = ModeAwaitingVerification \<and> su_state w1 = 0 \<and>
     sup_runs demo_keys demo_keys ext_env ext_machine
       (w1, ps @ Return (ResultOf r1) # ds1 @
          [super_Verify ext_env ext_machine (Some ())
             (Identifier (candidate_change (next_attempt ext_env ext_machine 5 w)
                (compiled_of (hd (sd_transitions issue_demo))))) 0])
       (w2, ps @ Return (ResultOf r1) # ds1 @ Return (ResultOf r2) # ds2) \<and>
     re_verified r2 \<and> re_committed r2 \<and> su_mode w2 = ModeReady \<and> su_state w2 = 2 \<and>
     su_revision w2 = 1"
proof -
  obtain w ps where w: "sup_reachable demo_keys demo_keys ext_env ext_machine (w, ps)"
     "su_mode w = ModeReady" "\<not> admission_closed w" "\<not> countersExhaustedLocked w"
     "su_nextOperation w + 1 < - 1 - 1" "su_nextRecord w + 1 < - 1 - recordSeqMargin"
     "su_attempt w \<noteq> - 1" "su_state w = 0" "su_revision w = 0"
    using ext_ready by blast
  let ?row = "compiled_of (hd (sd_transitions issue_demo))"
  have agree: "passes (map (\<lambda>p. p () (next_attempt ext_env ext_machine 5 w) 0)
      (sm_preconditions ext_machine)) (su_app w) = Some ()"
    "passes (map (\<lambda>check. check () c 0) (co_preconditions ?row @ sm_invariants ext_machine)) () = Some ()"
    "passes (verify_callback ?row () c 0 # map (\<lambda>check. check () c 0)
       (sm_invariants ext_machine @ sm_postconditions ext_machine)) () = Some ()" for c
    by (simp_all add: ext_machine_fields ext_row ret_def verify_callback_def)
  have selected: "selects () 0 (next_attempt ext_env ext_machine 5 w)
      (slice (sm_rows ext_machine) (su_state w, 5)) () = Some (?row, ())"
    by (simp add: w(8) ext_rows ext_row)
  have journal: "(\<lambda>_ _. ret None) () snap () = ((), Ret None)"
    "(\<lambda>_ _ _. ret None) () c (0 :: nat) () = ((), Ret None)" for snap :: "(nat, nat) ssnapshot" and c :: "(nat, nat) change"
    by (simp_all add: ret_def)
  have key: "key_ok demo_keys (5 :: nat)" by (simp add: demo_keys_def)
  let ?issue = "super_Issue demo_keys ext_env ext_machine (Some ()) 5 0"
  let ?verify = "super_Verify ext_env ext_machine (Some ())
      (Identifier (candidate_change (next_attempt ext_env ext_machine 5 w) ?row)) 0"
  obtain w1 r1 ds1 w2 r2 ds2 where
    "sup_runs demo_keys demo_keys ext_env ext_machine (w, ps @ [?issue])
       (w1, ps @ Return (ResultOf r1) # ds1)"
    "re_issued r1" "\<not> re_committed r1" "su_mode w1 = ModeAwaitingVerification" "su_state w1 = su_state w"
    "sup_runs demo_keys demo_keys ext_env ext_machine (w1, ps @ Return (ResultOf r1) # ds1 @ [?verify])
       (w2, ps @ Return (ResultOf r1) # ds1 @ Return (ResultOf r2) # ds2)"
    "re_verified r2" "re_committed r2" "su_mode w2 = ModeReady" "su_state w2 = co_to ?row"
    "su_revision w2 = su_revision w + 1"
    using external_transition_commits [OF issue_demo_compiles w(1) ext_env_fields(1, 2, 4) w(2-7) key
        ext_machine_fields(5) ext_env_fields(3) agree(1) selected ext_row(1) refl agree(2) ext_env_fields(5)
        journal ext_env_fields(3) agree(3) journal(1)] by blast
  then show ?thesis
    using w(1, 8, 9) ext_row(4)
    by (intro exI [of _ w] exI [of _ ps] exI [of _ w1] exI [of _ r1] exI [of _ ds1] exI [of _ w2]
        exI [of _ r2] exI [of _ ds2]) simp
qed

end
