(* ===== verification/Super_Settle.thy ===== *)
theory Super_Settle
  imports Super_Alone
begin

text \<open>
  An adjudication when nothing interferes: how a latched fault is settled.
\<close>

text \<open>The last lock region of an adjudication whose reconcilers agreed.\<close>

lemma adjudicate_region_alone:
  assumes "runs_alone op w" "su_fault w = Some original" "su_nextRecord w \<noteq> - 1"
  obtains w' stamp cancel where
    "adjudicate_region E op original outcome target base w =
       (w', base\<lparr>re_committed := (if outcome = AdjudicateRetain then re_committed base else True),
              re_revision := su_revision w', re_stamp := stamp\<rparr>, None, cancel)"
    "rs_ok stamp" "decided op w'" "su_mode w' = ModeReady" "su_fault w' = None" "su_app w' = su_app w"
    "su_state w' = (if outcome = AdjudicateRetain then su_state w else target)"
    "su_revision w' = (if outcome = AdjudicateRetain then su_revision w else su_revision w + 1)"
proof -
  obtain w1 cancel where t: "take_cancel op w = (w1, cancel)" by fastforce
  note d = runs_alone_take_cancel [OF t assms(1)]
  let ?w = "if outcome = AdjudicateRetain then w1
            else w1\<lparr>su_state := target, su_revision := su_revision w1 + 1\<rparr>"
  let ?s = "stampLocked E (?w\<lparr>su_fault := None, su_mode := ModeReady\<rparr>)"
  have own: "ownsLocked op w" "su_mode w = ModeExecuting" using assms(1) by (simp_all add: runs_alone_def)
  have "adjudicate_region E op original outcome target base w =
       (fst ?s, base\<lparr>re_committed := (if outcome = AdjudicateRetain then re_committed base else True),
          re_revision := su_revision (fst ?s), re_stamp := (snd ?s)\<lparr>rs_durable := True\<rparr>\<rparr>, None, cancel)"
    unfolding adjudicate_region_def using own assms(2, 3) t d
    by (cases "outcome = AdjudicateRetain") (simp_all add: stampLocked_def settled_def)
  moreover have "rs_ok ((snd ?s)\<lparr>rs_durable := True\<rparr>)" "decided op (fst ?s)" "su_mode (fst ?s) = ModeReady"
    "su_fault (fst ?s) = None" "su_app (fst ?s) = su_app w"
    "su_state (fst ?s) = (if outcome = AdjudicateRetain then su_state w else target)"
    "su_revision (fst ?s) = (if outcome = AdjudicateRetain then su_revision w else su_revision w + 1)"
    using d assms(3) by (simp_all add: stampLocked_def decided_def settled_def)
  ultimately show ?thesis by (rule that)
qed

lemma leads_adjudicate_run:
  assumes "runs_alone op w" "su_fault w = Some original" "su_nextRecord w \<noteq> - 1"
    "passes (map (\<lambda>reconcile. reconcile ctx proposed data) (sm_reconcile m)) (su_app w) = Some v"
  shows "\<exists>w' stamp. leads S V w
      (adjudicate_run E m ctx data op original outcome target phase change proposed base k) w'
      (k (base\<lparr>re_committed := (if outcome = AdjudicateRetain then re_committed base else True),
               re_revision := su_revision w', re_stamp := stamp, re_phase := phase\<rparr>)) \<and>
    rs_ok stamp \<and> decided op w' \<and> su_mode w' = ModeReady \<and> su_fault w' = None \<and> su_app w' = v \<and>
    su_state w' = (if outcome = AdjudicateRetain then su_state w else target) \<and>
    su_revision w' = (if outcome = AdjudicateRetain then su_revision w else su_revision w + 1)"
proof -
  let ?last = "locked (\<lambda>w. case adjudicate_region E op original outcome target base w of
             (w, base, lost, cancel) \<Rightarrow>
               (w, case lost of
                     Some fault \<Rightarrow> k (faultResult base fault)
                   | None \<Rightarrow> cancelling cancel (k (base\<lparr>re_phase := phase\<rparr>))))"
  obtain w1 where 1: "leads S V w
      (adjudicate_run E m ctx data op original outcome target phase change proposed base k) w1
      (if_ended op (\<lambda>err. restoreFault E op original phase err base k) ?last)"
    "steady op w w1" "su_app w1 = v"
    using leads_invoke_each [OF assms(1, 4)] unfolding adjudicate_run_def by blast
  note alone = runs_alone_steady [OF assms(1) 1(2)]
  have st: "su_fault w1 = Some original" "su_nextRecord w1 \<noteq> - 1" "su_state w1 = su_state w"
    "su_revision w1 = su_revision w"
    using 1(2) assms(2, 3) by (simp_all add: steady_def)
  obtain w2 stamp cancel where 2: "adjudicate_region E op original outcome target base w1 =
       (w2, base\<lparr>re_committed := (if outcome = AdjudicateRetain then re_committed base else True),
              re_revision := su_revision w2, re_stamp := stamp\<rparr>, None, cancel)"
    "rs_ok stamp" "decided op w2" "su_mode w2 = ModeReady" "su_fault w2 = None" "su_app w2 = su_app w1"
    "su_state w2 = (if outcome = AdjudicateRetain then su_state w1 else target)"
    "su_revision w2 = (if outcome = AdjudicateRetain then su_revision w1 else su_revision w1 + 1)"
    by (rule adjudicate_region_alone [OF alone st(1, 2)])
  let ?k = "\<lambda>rev. k (base\<lparr>re_committed := (if outcome = AdjudicateRetain then re_committed base else True),
              re_revision := rev, re_stamp := stamp, re_phase := phase\<rparr>)"
  have last: "leads S V w1 ?last w2 (cancelling cancel (?k (su_revision w2)))"
    by (rule leads_locked) (simp add: 2(1))
  obtain w3 where 3: "leads S V w2 (cancelling cancel (?k (su_revision w2))) w3 (?k (su_revision w2))"
    "settled w2 w3" "su_operation w3 = su_operation w2" "su_ops w3 = su_ops w2"
    using leads_cancelling by blast
  show ?thesis
    using leads_trans [OF 1(1) leads_trans [OF leads_if_ended [OF alone] leads_trans [OF last 3(1)]]]
      2 3(2-) 1(3) st(3, 4)
    by (intro exI [of _ w3] exI [of _ stamp]) (simp add: settled_def decided_def)
qed

text \<open>What the snapshot shown to the reconcilers of an adjudication says.\<close>

definition proposes :: "('s, 'e) sfault \<Rightarrow> 's \<Rightarrow> u64 \<Rightarrow> ('s, 'e) ssnapshot \<Rightarrow> bool" where
  "proposes original target revision snap \<longleftrightarrow>
     sn_state snap = target \<and> sn_revision snap = revision \<and> sn_faulted snap \<and>
     sn_uncertain snap = f_uncertain original \<and> sn_faultPhase snap = f_phase original \<and>
     sn_cause snap = f_text original \<and> (f_issuedAt original \<noteq> 0 \<longrightarrow> sn_pending snap \<noteq> None)"

lemma proposed_snapshot:
  "su_fault w = Some original \<Longrightarrow>
     proposes original target (su_revision w) ((snapshotLocked E m w)\<lparr>sn_state := target\<rparr>)"
  by (simp add: proposes_def snapshotLocked_def snapshot_of_def with_pending_def with_operation_def
      with_fault_def Let_def split: option.split)

text \<open>An adjudication from its admission to its Result.\<close>

lemma leads_adjudicate:
  fixes w :: "('s, 'e, 'c, 't, 'v) sup"
  assumes adapters: "se_journal E = None" "se_recorder E = None"
    and open': "su_mode w = ModeFaulted" "su_fault w = Some original" "\<not> admission_closed w"
      "\<not> countersExhaustedLocked w" "se_err E ctx (su_app w) = None"
    and target: "decision_target K m original decision (su_state w) = Inr target"
    and agree: "\<And>snap. proposes original target (su_revision w) snap \<Longrightarrow>
      passes (map (\<lambda>reconcile. reconcile ctx snap data) (sm_reconcile m)) (su_app w) = Some v"
  shows "\<exists>w' r. leads S V w (adjudicateDecision K E m (Some ctx) decision data phase
      (super_finalize E m kind)) w' (Return (ResultOf r)) \<and>
    re_err r = None \<and> re_to r = target \<and> re_revision r = su_revision w' \<and>
    re_adjudication r = de_outcome decision \<and> re_evidence r = de_evidence decision \<and>
    (re_committed r \<longleftrightarrow> de_outcome decision \<noteq> AdjudicateRetain) \<and>
    su_mode w' = ModeReady \<and> su_fault w' = None \<and> su_operation w' = None \<and> su_app w' = v \<and>
    su_state w' = target \<and>
    su_revision w' = (if de_outcome decision = AdjudicateRetain then su_revision w else su_revision w + 1)"
proof -
  have cnt: "su_nextRecord w \<noteq> - 1"
    using open'(4) by (auto simp: countersExhaustedLocked_def recordSeqMargin_def)
  have retain: "de_outcome decision = AdjudicateRetain \<Longrightarrow> target = su_state w"
    using target by (simp add: decision_target_def)
  let ?adopt = "de_outcome decision = AdjudicateAdopt"
  let ?change = "if ?adopt then f_change original else (currentChangeLocked E m w)\<lparr>ch_to := target\<rparr>"
  obtain w1 op where b: "beginOperationLocked E ctx ?change phase w = (w1, op)" by fastforce
  note kept = begun_keeps [OF b]
  note alone = begun_runs_alone [OF b open'(5)]
  let ?base0 = "(baseResultLocked E m w)\<lparr>re_evidence := de_evidence decision,
      re_adjudication := de_outcome decision\<rparr>"
  let ?base1 = "(if ?adopt then ?base0\<lparr>re_event := f_event original, re_transition := f_transition original\<rparr>
      else ?base0)\<lparr>re_to := target\<rparr>"
  let ?base2 = "(if ?adopt then ?base1\<lparr>re_attempt := at_id ?change, re_attemptKey := Identifier ?change\<rparr>
      else ?base1)\<lparr>re_change := ?change\<rparr>"
  let ?base = "?base2\<lparr>re_startedAt := op_startedAt (su_ops w1 op), re_operation := op_id (su_ops w1 op),
      re_owner := Some op\<rparr>"
  let ?proposed = "(snapshotLocked E m w1)\<lparr>sn_state := target\<rparr>"
  have agreed: "passes (map (\<lambda>reconcile. reconcile ctx ?proposed data) (sm_reconcile m)) (su_app w) = Some v"
    using agree proposed_snapshot [where w = w1 and E = E and m = m] kept(2, 5) open'(2) by metis
  let ?fin = "super_finalize E m kind"
  have 1: "leads S V w (adjudicateDecision K E m (Some ctx) decision data phase ?fin) w1
      (adjudicate_run E m ctx data op original (de_outcome decision) target phase ?change ?proposed ?base ?fin)"
    unfolding adjudicateDecision_def option.case
    by (rule leads_locked) (simp add: Let_def open' target b del: split_paired_All)
  obtain w2 stamp where 2: "leads S V w1
      (adjudicate_run E m ctx data op original (de_outcome decision) target phase ?change ?proposed ?base ?fin) w2
      (?fin (?base\<lparr>re_committed := (if de_outcome decision = AdjudicateRetain then re_committed ?base else True),
               re_revision := su_revision w2, re_stamp := stamp, re_phase := phase\<rparr>))"
    "rs_ok stamp" "decided op w2" "su_mode w2 = ModeReady" "su_fault w2 = None" "su_app w2 = v"
    "su_state w2 = (if de_outcome decision = AdjudicateRetain then su_state w else target)"
    "su_revision w2 = (if de_outcome decision = AdjudicateRetain then su_revision w else su_revision w + 1)"
    using leads_adjudicate_run [where S = S and V = V and E = E and m = m and ctx = ctx and proposed = ?proposed
        and data = data and v = v and outcome = "de_outcome decision" and target = target and phase = phase
        and change = ?change and base = ?base and k = ?fin, OF alone kept(5) [unfolded open'(2)] _ agreed [folded kept(7)]]
      cnt unfolding kept(1, 2, 4) by blast
  let ?r = "?base\<lparr>re_committed := (if de_outcome decision = AdjudicateRetain then re_committed ?base else True),
               re_revision := su_revision w2, re_stamp := stamp, re_phase := phase\<rparr>"
  let ?done = "(completed (now E w2) ?r)\<lparr>re_owner := None, re_reporting := False\<rparr>"
  have r: "re_owner ?r = Some op" "\<not> re_reporting ?r" "rs_ok (re_stamp ?r)"
    using 2(2) by (simp_all add: baseResultLocked_def zero_result_def)
  obtain w3 where 3: "leads S V w2 (?fin ?r) w3 (Return (ResultOf ?done))"
    "settled w2 w3" "su_operation w3 = None"
    using leads_finalize [where S = S and V = V and m = m and kind = kind,
        OF disjI1 [OF adapters(1)] adapters(2) 2(3) r] by blast
  show ?thesis
    using leads_trans [OF 1 leads_trans [OF 2(1) 3(1)]] 2(4-) 3(2, 3) retain
    by (intro exI [of _ w3] exI [of _ ?done])
      (auto simp: completed_def Let_def settled_def baseResultLocked_def zero_result_def)
qed

section \<open>Properties\<close>

text \<open>C7. An adjudication that nothing interferes with settles a latched fault. On a Faulted
  Supervisor without adapters, for a Decision whose outcome is admissible, the reconcilers see a
  snapshot that shows the decided state together with the fault; if they all agree, the call ends
  with all its goroutines finished and the Supervisor is Ready without a fault. To retain keeps state
  and revision; to adopt commits the destination of the change in doubt, and to override commits the
  named state, each at the next revision. The Result carries the Decision's outcome and evidence.\<close>

theorem lone_adjudication_settles:
  fixes w :: "('s, 'e, 'c, 't, 'v) sup"
  assumes "se_journal E = None" "se_recorder E = None"
    and "su_mode w = ModeFaulted" "su_fault w = Some original" "\<not> admission_closed w"
    and "\<not> countersExhaustedLocked w" "se_err E ctx (su_app w) = None"
    and "decision_target K m original decision (su_state w) = Inr target"
    and "\<And>snap. proposes original target (su_revision w) snap \<Longrightarrow>
      passes (map (\<lambda>reconcile. reconcile ctx snap data) (sm_reconcile m)) (su_app w) = Some v"
  shows "\<exists>w' r ds. sup_runs K L E m (w, [super_Adjudicate K E m (Some ctx) decision data])
      (w', Return (ResultOf r) # ds) \<and> (\<forall>d \<in> set ds. \<exists>a. d = Return a) \<and>
    re_err r = None \<and> re_to r = target \<and> re_revision r = su_revision w' \<and>
    re_adjudication r = de_outcome decision \<and> re_evidence r = de_evidence decision \<and>
    (re_committed r \<longleftrightarrow> de_outcome decision \<noteq> AdjudicateRetain) \<and>
    su_mode w' = ModeReady \<and> su_fault w' = None \<and> su_operation w' = None \<and> su_app w' = v \<and>
    (case de_outcome decision of
       AdjudicateRetain \<Rightarrow> su_state w' = su_state w \<and> su_revision w' = su_revision w
     | AdjudicateAdopt \<Rightarrow> f_issuedAt original \<noteq> 0 \<and> su_state w' = f_to original \<and>
         su_revision w' = su_revision w + 1
     | AdjudicateOverride \<Rightarrow> sm_stateIndex m (de_state decision) \<noteq> None \<and>
         su_state w' = de_state decision \<and> su_revision w' = su_revision w + 1
     | OtherAdjudication n \<Rightarrow> False)"
proof -
  obtain w' r where r: "leads (sup_call K L E m) sup_env w
      (super_Adjudicate K E m (Some ctx) decision data) w' (Return (ResultOf r))"
    "re_err r = None \<and> re_to r = target \<and> re_revision r = su_revision w' \<and>
     re_adjudication r = de_outcome decision \<and> re_evidence r = de_evidence decision \<and>
     (re_committed r \<longleftrightarrow> de_outcome decision \<noteq> AdjudicateRetain) \<and>
     su_mode w' = ModeReady \<and> su_fault w' = None \<and> su_operation w' = None \<and> su_app w' = v"
    "su_state w' = target"
    "su_revision w' = (if de_outcome decision = AdjudicateRetain then su_revision w else su_revision w + 1)"
    using leads_adjudicate [where S = "sup_call K L E m" and V = sup_env and phase = PhaseAdjudicate
        and kind = RecordAdjudicate, OF assms] unfolding super_Adjudicate_def by blast
  have "case de_outcome decision of
       AdjudicateRetain \<Rightarrow> su_state w' = su_state w \<and> su_revision w' = su_revision w
     | AdjudicateAdopt \<Rightarrow> f_issuedAt original \<noteq> 0 \<and> su_state w' = f_to original \<and>
         su_revision w' = su_revision w + 1
     | AdjudicateOverride \<Rightarrow> sm_stateIndex m (de_state decision) \<noteq> None \<and>
         su_state w' = de_state decision \<and> su_revision w' = su_revision w + 1
     | OtherAdjudication n \<Rightarrow> False"
    using assms(8) r(3, 4)
    by (auto simp: decision_target_def split: adjudication.splits if_splits)
  then show ?thesis using leads_alone [OF r(1)] r(2) by blast
qed

lemma lone_adjudication_settles_witness:
  "\<exists>w' r ds. sup_runs demo_keys demo_keys demo_env demo_super
      (demo_restored, [super_Adjudicate demo_keys demo_env demo_super (Some ())
         \<lparr>de_outcome = AdjudicateOverride, de_state = 2, de_evidence = [7]\<rparr> 0])
      (w', Return (ResultOf r) # ds) \<and>
    su_mode demo_restored = ModeFaulted \<and> su_mode w' = ModeReady \<and> su_state w' = 2 \<and>
    su_revision w' = 4 \<and> re_evidence r = [7]"
proof -
  obtain f where f: "su_fault demo_restored = Some f" using demo_restored_fields(1) by blast
  have open': "su_mode demo_restored = ModeFaulted" "\<not> admission_closed demo_restored"
    "\<not> countersExhaustedLocked demo_restored"
    by (simp_all add: demo_restored_def newExecutionID_def restoreSupervisor_def restore_refusal_def
        demo_env_def validateLimits_def demo_snapshot_def machine_of_def sup_demo_def demo_keys_def
        recordSeqMargin_def state_info_of_def word_le_nat_alt admission_closed_def
        countersExhaustedLocked_def)
  let ?d = "\<lparr>de_outcome = AdjudicateOverride, de_state = 2, de_evidence = [7]\<rparr>"
  have target: "decision_target demo_keys demo_super f ?d (su_state demo_restored) = Inr 2"
    by (simp add: decision_target_def demo_keys_def machine_of_def sup_demo_def)
  have agree: "passes (map (\<lambda>reconcile. reconcile () snap 0) (sm_reconcile demo_super)) (su_app demo_restored) =
      Some (su_app demo_restored)" for snap
    by (simp add: demo_callbacks ret_def)
  show ?thesis
    using lone_adjudication_settles [where L = demo_keys, OF demo_env_fields(1, 2) open'(1) f open'(2, 3)
        demo_env_fields(3) target agree] open'(1) demo_restored_fields(3) by fastforce
qed

end
