(* ===== verification/Super_Views.thy ===== *)
theory Super_Views
  imports Super_State
begin

text \<open>
  \<^verbatim>\<open>supervised/definition.go\<close>, \<^verbatim>\<open>supervised/result.go\<close>, \<^verbatim>\<open>supervised/record.go\<close>,
  \<^verbatim>\<open>supervised/dot.go\<close>: what a Machine shows, the names of phases, modes, adjudications and record
  kinds, and the DOT text of a Machine.

  Text is a list of code points. The rendering of states and events by \<^verbatim>\<open>fmt\<close> is a parameter, as it
  may run their own methods; a writer is what it does to the application's world with a text.
\<close>

definition ascii :: "string \<Rightarrow> ident" where
  "ascii s = map of_char s"

fun decimal :: "nat \<Rightarrow> ident" where
  "decimal n = (if n < 10 then [48 + n] else decimal (n div 10) @ [48 + n mod 10])"

declare decimal.simps [simp del]

section \<open>Names\<close>

fun sphase_String :: "sphase \<Rightarrow> ident" where
  "sphase_String PhaseNone = ascii ''none''"
| "sphase_String PhaseStart = ascii ''start''"
| "sphase_String PhasePrecondition = ascii ''precondition''"
| "sphase_String PhaseSelection = ascii ''selection''"
| "sphase_String PhaseGuard = ascii ''guard''"
| "sphase_String PhaseInvariant = ascii ''invariant''"
| "sphase_String PhaseIssue = ascii ''issue''"
| "sphase_String PhaseVerify = ascii ''verify''"
| "sphase_String PhasePostcondition = ascii ''postcondition''"
| "sphase_String PhaseCommit = ascii ''commit''"
| "sphase_String PhaseRecover = ascii ''recover''"
| "sphase_String PhaseTrip = ascii ''trip''"
| "sphase_String PhaseAdjudicate = ascii ''adjudicate''"
| "sphase_String (OtherPhase n) = ascii ''Phase('' @ decimal (unat n) @ ascii '')''"

fun mode_String :: "mode \<Rightarrow> ident" where
  "mode_String ModeStopped = ascii ''stopped''"
| "mode_String ModeReady = ascii ''ready''"
| "mode_String ModeExecuting = ascii ''executing''"
| "mode_String ModeAwaitingVerification = ascii ''awaiting verification''"
| "mode_String ModeFaulted = ascii ''faulted''"

fun adjudication_String :: "adjudication \<Rightarrow> ident" where
  "adjudication_String AdjudicateRetain = ascii ''retain''"
| "adjudication_String AdjudicateAdopt = ascii ''adopt''"
| "adjudication_String AdjudicateOverride = ascii ''override''"
| "adjudication_String (OtherAdjudication n) = ascii ''Adjudication('' @ decimal (unat n) @ ascii '')''"

fun record_kind_String :: "record_kind \<Rightarrow> ident" where
  "record_kind_String RecordStart = ascii ''start''"
| "record_kind_String RecordIssue = ascii ''issue''"
| "record_kind_String RecordVerify = ascii ''verify''"
| "record_kind_String RecordTrip = ascii ''trip''"
| "record_kind_String RecordRecover = ascii ''recover''"
| "record_kind_String RecordVerificationExpired = ascii ''verification expired''"
| "record_kind_String RecordSecondaryCause = ascii ''secondary cause''"
| "record_kind_String RecordAdjudicate = ascii ''adjudicate''"
| "record_kind_String RecordJournalError = ascii ''journal error''"

section \<open>What a Machine shows\<close>

definition super_ID :: "('s, 'e, 'c, 't, 'v) smachine option \<Rightarrow> ident" where
  "super_ID machine = (case machine of None \<Rightarrow> [] | Some m \<Rightarrow> sm_id m)"

definition super_External :: "('s, 'e, 'c, 't, 'v) smachine option \<Rightarrow> bool" where
  "super_External machine = (case machine of None \<Rightarrow> False | Some m \<Rightarrow> sm_external m)"

definition super_Initial :: "'s \<Rightarrow> ('s, 'e, 'c, 't, 'v) smachine option \<Rightarrow> 's \<times> bool" where
  "super_Initial zero machine = (case machine of None \<Rightarrow> (zero, False) | Some m \<Rightarrow> (sm_initial m, True))"

text \<open>An iterator calls \<open>yield\<close> for each item until it answers False.\<close>

fun yield_each :: "('x \<Rightarrow> 'a \<Rightarrow> 'a \<times> bool) \<Rightarrow> 'x list \<Rightarrow> 'a \<Rightarrow> 'a" where
  "yield_each yield [] acc = acc"
| "yield_each yield (x # xs) acc =
     (case yield x acc of
        (acc', True) \<Rightarrow> yield_each yield xs acc'
      | (acc', False) \<Rightarrow> acc')"

definition super_States ::
    "('s, 'e, 'c, 't, 'v) smachine option \<Rightarrow> ('s state_info \<Rightarrow> 'a \<Rightarrow> 'a \<times> bool) \<Rightarrow> 'a \<Rightarrow> 'a" where
  "super_States machine yield acc =
     (case machine of None \<Rightarrow> acc | Some m \<Rightarrow> yield_each yield (sm_states m) acc)"

definition super_Events ::
    "('s, 'e, 'c, 't, 'v) smachine option \<Rightarrow> ('e \<Rightarrow> 'a \<Rightarrow> 'a \<times> bool) \<Rightarrow> 'a \<Rightarrow> 'a" where
  "super_Events machine yield acc =
     (case machine of None \<Rightarrow> acc | Some m \<Rightarrow> yield_each yield (sm_events m) acc)"

definition super_Transitions ::
    "('s, 'e, 'c, 't, 'v) smachine option \<Rightarrow> (('s, 'e) transition_info \<Rightarrow> 'a \<Rightarrow> 'a \<times> bool) \<Rightarrow>
      'a \<Rightarrow> 'a" where
  "super_Transitions machine yield acc =
     (case machine of None \<Rightarrow> acc | Some m \<Rightarrow> yield_each yield (sm_transitions m) acc)"

lemma yield_each_all: "yield_each (\<lambda>x acc. (acc @ [x], True)) xs acc = acc @ xs"
  by (induction xs arbitrary: acc) simp_all

section \<open>DOT\<close>

definition replace_all :: "nat \<Rightarrow> ident \<Rightarrow> ident \<Rightarrow> ident" where
  "replace_all c new s = concat (map (\<lambda>x. if x = c then new else [x]) s)"

text \<open>Backslash, double quote, carriage return, line feed, one after the other.\<close>

definition dotEscape :: "ident \<Rightarrow> ident" where
  "dotEscape s =
     replace_all 10 [92, 110] (replace_all 13 [92, 114] (replace_all 34 [92, 34] (replace_all 92 [92, 92] s)))"

definition quoted :: "ident \<Rightarrow> ident" where
  "quoted s = [34] @ dotEscape s @ [34]"

definition node_name :: "nat \<Rightarrow> ident" where
  "node_name index = ascii ''s'' @ decimal index"

definition node_line :: "('s \<Rightarrow> ident) \<Rightarrow> nat \<times> 's state_info \<Rightarrow> ident" where
  "node_line show_state n =
     (case n of (index, state) \<Rightarrow>
        ascii ''    '' @ node_name index @ ascii '' [label='' @ quoted (show_state (si_name state)) @
        ascii '', shape='' @ (if si_terminal state then ascii ''doublecircle'' else ascii ''circle'') @
        ascii ''];'' @ [10])"

text \<open>The map of node names: of equal names the last, none for an undeclared state.\<close>

definition node_of :: "'s state_info list \<Rightarrow> 's \<Rightarrow> ident" where
  "node_of states s =
     (case map_of (rev (map (\<lambda>(i, st). (si_name st, node_name i)) (enumerate 0 states))) s of
        None \<Rightarrow> []
      | Some n \<Rightarrow> n)"

definition edge_label :: "('e \<Rightarrow> ident) \<Rightarrow> ('s, 'e) transition_info \<Rightarrow> ident" where
  "edge_label show_event t =
     show_event (ti_event t) @ ascii '' ['' @ ti_id t @ ascii '']'' @
     (if ti_guarded t then ascii '' guarded'' else []) @
     (if ti_issues t then ascii '' issue/verify'' else [])"

definition edge_line ::
    "('e \<Rightarrow> ident) \<Rightarrow> 's state_info list \<Rightarrow> ('s, 'e) transition_info \<Rightarrow> ident" where
  "edge_line show_event states t =
     ascii ''    '' @ node_of states (ti_from t) @ ascii '' -> '' @ node_of states (ti_to t) @
     ascii '' [label='' @ quoted (edge_label show_event t) @ ascii ''];'' @ [10]"

definition super_dot ::
    "('s \<Rightarrow> ident) \<Rightarrow> ('e \<Rightarrow> ident) \<Rightarrow> ('s, 'e, 'c, 't, 'v) smachine \<Rightarrow> ident" where
  "super_dot show_state show_event m =
     ascii ''digraph supervised {'' @ [10] @
     ascii ''    graph [label='' @ quoted (sm_id m) @ ascii '', labelloc='' @ [34] @ ascii ''t'' @ [34] @
     ascii ''];'' @ [10] @
     ascii ''    rankdir=LR;'' @ [10] @
     ascii ''    __start [shape=point];'' @ [10] @
     concat (map (node_line show_state) (enumerate 0 (sm_states m))) @
     ascii ''    __start -> '' @ node_of (sm_states m) (sm_initial m) @ ascii '';'' @ [10] @
     concat (map (edge_line show_event (sm_states m)) (sm_transitions m)) @
     ascii ''}'' @ [10]"

definition super_WriteDOT ::
    "('s \<Rightarrow> ident) \<Rightarrow> ('e \<Rightarrow> ident) \<Rightarrow> ('s, 'e, 'c, 't, 'v) smachine option \<Rightarrow>
      (ident \<Rightarrow> 'v \<Rightarrow> 'v \<times> ('s, 'e) serr option) option \<Rightarrow> 'v \<Rightarrow> 'v \<times> ('s, 'e) serr option" where
  "super_WriteDOT show_state show_event machine writer v =
     (case machine of
        None \<Rightarrow> (v, Some (SSentinel ErrNilMachine))
      | Some m \<Rightarrow>
          (case writer of
             None \<Rightarrow> (v, Some (SSentinel ErrNilWriter))
           | Some write \<Rightarrow> write (super_dot show_state show_event m) v))"

section \<open>Escaped labels\<close>

lemma replace_all_simps [simp]:
  "replace_all c new [] = []"
  "replace_all c new (x # s) = (if x = c then new else [x]) @ replace_all c new s"
  "replace_all c new (s @ s') = replace_all c new s @ replace_all c new s'"
  by (simp_all add: replace_all_def)

text \<open>The four passes never touch each other's output: they act on each code point alone.\<close>

definition escape_char :: "nat \<Rightarrow> ident" where
  "escape_char c =
     (if c = 92 then [92, 92] else if c = 34 then [92, 34]
      else if c = 13 then [92, 114] else if c = 10 then [92, 110] else [c])"

lemma dotEscape_simps [simp]:
  "dotEscape [] = []" "dotEscape (c # s) = escape_char c @ dotEscape s"
proof -
  show "dotEscape [] = []" by (simp add: dotEscape_def)
  show "dotEscape (c # s) = escape_char c @ dotEscape s"
    unfolding dotEscape_def replace_all_simps escape_char_def
    by (cases "c = 92"; cases "c = 34"; cases "c = 13"; cases "c = 10") simp_all
qed

text \<open>How a DOT reader scans a quoted string: up to the first quote that no backslash escapes. The
  escapes for lines are Graphviz's; any other escaped code point stands for itself.\<close>

fun scan_label :: "ident \<Rightarrow> (ident \<times> ident) option" where
  "scan_label [] = None"
| "scan_label (c # s) =
     (if c = 34 then Some ([], s)
      else if c = 92 then
        (case s of
           [] \<Rightarrow> None
         | d # s' \<Rightarrow>
             map_option (\<lambda>(v, rest).
               ((if d = 114 then 13 else if d = 110 then 10 else d) # v, rest)) (scan_label s'))
      else map_option (\<lambda>(v, rest). (c # v, rest)) (scan_label s))"

lemma scan_steps:
  "scan_label (34 # s) = Some ([], s)"
  "scan_label (92 # d # s) = map_option (\<lambda>(v, rest).
     ((if d = 114 then 13 else if d = 110 then 10 else d) # v, rest)) (scan_label s)"
  "c \<noteq> 34 \<Longrightarrow> c \<noteq> 92 \<Longrightarrow> scan_label (c # s) = map_option (\<lambda>(v, rest). (c # v, rest)) (scan_label s)"
  by simp_all

declare scan_label.simps(2) [simp del]

lemma scan_dotEscape: "scan_label (dotEscape s @ 34 # rest) = Some (s, rest)"
proof (induction s)
  case (Cons c s)
  consider "c = 92" | "c = 34" | "c = 13" | "c = 10" | "c \<notin> {92, 34, 13, 10}" by auto
  then show ?case by cases (simp_all add: escape_char_def scan_steps Cons.IH)
qed (simp add: scan_steps)

lemma escape_char_one_line: "set (escape_char c) \<inter> {10, 13} = {}"
proof -
  consider "c = 92" | "c = 34" | "c = 13" | "c = 10" | "c \<notin> {92, 34, 13, 10}" by auto
  then show ?thesis by cases (simp_all add: escape_char_def)
qed

lemma dotEscape_one_line: "set (dotEscape s) \<inter> {10, 13} = {}"
proof (induction s)
  case (Cons c s)
  have "set (dotEscape (c # s)) = set (escape_char c) \<union> set (dotEscape s)"
    by (simp only: dotEscape_simps set_append)
  then show ?case using escape_char_one_line [of c] Cons.IH by blast
qed simp

lemma dotEscape_inject: "dotEscape s = dotEscape s' \<Longrightarrow> s = s'"
  by (metis scan_dotEscape option.inject prod.inject)

section \<open>The decimal numerals\<close>

fun read_decimal :: "nat \<Rightarrow> ident \<Rightarrow> nat" where
  "read_decimal n [] = n"
| "read_decimal n (c # s) = read_decimal (10 * n + (c - 48)) s"

lemma read_decimal_append: "read_decimal n (s @ s') = read_decimal (read_decimal n s) s'"
  by (induction s arbitrary: n) simp_all

lemma read_decimal: "read_decimal 0 (decimal n) = n"
proof (induction n rule: decimal.induct)
  case (1 n)
  then show ?case by (subst decimal.simps) (auto simp: read_decimal_append)
qed

lemma decimal_inject: "decimal m = decimal n \<Longrightarrow> m = n"
  by (metis read_decimal)

lemma node_name_inject: "node_name i = node_name j \<longleftrightarrow> i = j"
  by (auto simp: node_name_def dest: decimal_inject)

section \<open>Edges join the nodes of their states\<close>

lemma node_of_declared:
  assumes "distinct (map si_name states)" "i < length states"
  shows "node_of states (si_name (states ! i)) = node_name i"
proof -
  let ?l = "map (\<lambda>(i, st). (si_name st, node_name i)) (enumerate 0 states)"
  have "map fst ?l = map si_name states"
    by (rule nth_equalityI) (simp_all add: nth_enumerate_eq)
  then have "map fst (rev ?l) = rev (map si_name states)" by (simp only: rev_map [symmetric])
  then have "distinct (map fst (rev ?l))" using assms(1) by (simp only: distinct_rev)
  moreover have "(si_name (states ! i), node_name i) \<in> set (rev ?l)"
    using assms(2) by (force simp: in_set_conv_nth nth_enumerate_eq)
  ultimately show ?thesis by (simp add: node_of_def map_of_is_SomeI)
qed

end
