(* ===== verification/Super_Text.thy ===== *)
theory Super_Text
  imports Super_Views
begin

text \<open>
  \<^verbatim>\<open>supervised/error_text.go\<close>: the text of an error, rendered without running application code, and
  its capture inside a callback's goroutine.

  An error is what the code's type switches see of it: the text of its dynamic type and a case per
  kind of type. An error of the application is its \<^verbatim>\<open>Error\<close> method, an action on the application's
  world, so the type parameter \<open>'m\<close> collects the methods a rendering could run.
\<close>

section \<open>Errors and values, as the renderer sees them\<close>

text \<open>
  \<open>NilError\<close> is the nil interface. \<open>StoredNode\<close> stands for the exact standard types whose text is
  a field or a constant (\<^verbatim>\<open>errors.New\<close>, \<^verbatim>\<open>fmt.Errorf\<close> with operands, \<^verbatim>\<open>context.DeadlineExceeded\<close>),
  \<open>JoinedNode\<close> for the result of \<^verbatim>\<open>errors.Join\<close>. \<open>RenderedNode\<close> is a type with the method
  \<^verbatim>\<open>safeText\<close>: one of the library's error types, or an application's type that embeds one;
  \<open>BrokenNode\<close> is such an embedding whose generated wrapper goes through a nil pointer. Only
  \<^verbatim>\<open>captureErrorText\<close> makes a \<open>CachedNode\<close>, and it never makes a nil one.
\<close>

datatype 'm derror =
    NilError
  | DError ident "'m dnode"
and 'm dnode =
    NilPointerNode
  | CachedNode "'m derror" ident
  | RenderedNode "'m renderer"
  | BrokenNode
  | StoredNode ident
  | JoinedNode "'m derror list"
  | OtherNode 'm
and 'm renderer =
    NilReceiver
  | FaultText sphase "'m dvalue" "'m dvalue" "'m derror" ident
  | PanicText "'m dvalue"
  | ViolationText sphase "'m derror"
  | TimeoutText "'m derror"
  | RefusalText "'m dvalue" "'m dvalue" "'m derror list"
and 'm dvalue =
    NilValue
  | ErrorValue "'m derror"
  | StringValue ident
  | BoolValue bool
  | IntValue int
  | UintValue nat
  | FloatValue u64 bool
  | ComplexValue u64 u64 bool
  | OtherValue ident

record errorTextBudget =
  eb_remaining :: int
  eb_capture :: bool

section \<open>Rendering\<close>

text \<open>
  The shortest decimal form of a floating-point number, \<^verbatim>\<open>strconv.FormatFloat\<close> of a bit pattern and
  whether it is the 32-bit format, is the parameter \<open>FF\<close>.
\<close>

abbreviation nil_text :: ident where
  "nil_text \<equiv> ascii ''<nil>''"

abbreviation limit_text :: ident where
  "limit_text \<equiv> ascii ''<error detail limit>''"

abbreviation uncaptured :: "ident \<Rightarrow> ident" where
  "uncaptured name \<equiv> ascii ''<'' @ name @ ascii '': error text not captured>''"

definition FormatInt :: "int \<Rightarrow> ident" where
  "FormatInt i = (if i < 0 then ascii ''-'' @ decimal (nat (- i)) else decimal (nat i))"

definition FormatComplex :: "(u64 \<Rightarrow> bool \<Rightarrow> ident) \<Rightarrow> u64 \<Rightarrow> u64 \<Rightarrow> bool \<Rightarrow> ident" where
  "FormatComplex FF re im narrow =
     (let i = FF im narrow;
          i = (if take 1 i \<noteq> ascii ''+'' \<and> take 1 i \<noteq> ascii ''-'' then ascii ''+'' @ i else i)
      in ascii ''('' @ FF re narrow @ i @ ascii ''i)'')"

text \<open>The text of one of the library's own sentinels, an error with stored text.\<close>

definition sentinel_text ::
    "ident \<Rightarrow> errorTextBudget \<Rightarrow> ('s, 'e, 'w, ident \<times> errorTextBudget) act" where
  "sentinel_text msg b =
     (if eb_remaining b = 0 then ret (limit_text, b)
      else ret (msg, b\<lparr>eb_remaining := eb_remaining b - 1\<rparr>))"

definition is_nil :: "'m derror \<Rightarrow> bool" where
  "is_nil e \<longleftrightarrow> (case e of NilError \<Rightarrow> True | _ \<Rightarrow> False)"

lemma is_nil_simps [simp]: "is_nil NilError" "\<not> is_nil (DError name node)"
  by (simp_all add: is_nil_def)

lemma size_list_filter: "size_list f (filter P es) \<le> size_list f es"
  by (induction es) simp_all

lemma size_list_tl: "size_list f (tl es) \<le> size_list f es"
  by (cases es) simp_all

lemma size_wrapped:
  "size_list size (filter (\<lambda>e. \<not> is_nil e) (tl es)) < Suc (size_list size es + m + n)"
  using order_trans [OF size_list_filter size_list_tl, of size "\<lambda>e. \<not> is_nil e" es] by simp

function budget_text ::
      "(u64 \<Rightarrow> bool \<Rightarrow> ident) \<Rightarrow> ('s, 'e, 'w, ident) act derror \<Rightarrow> errorTextBudget \<Rightarrow>
        ('s, 'e, 'w, ident \<times> errorTextBudget) act"
  and node_text ::
      "(u64 \<Rightarrow> bool \<Rightarrow> ident) \<Rightarrow> ident \<Rightarrow> ('s, 'e, 'w, ident) act dnode \<Rightarrow> errorTextBudget \<Rightarrow>
        ('s, 'e, 'w, ident \<times> errorTextBudget) act"
  and joined_text ::
      "(u64 \<Rightarrow> bool \<Rightarrow> ident) \<Rightarrow> bool \<Rightarrow> ('s, 'e, 'w, ident) act derror list \<Rightarrow> errorTextBudget \<Rightarrow>
        ('s, 'e, 'w, ident \<times> errorTextBudget) act"
  and safeText ::
      "(u64 \<Rightarrow> bool \<Rightarrow> ident) \<Rightarrow> ('s, 'e, 'w, ident) act renderer \<Rightarrow> errorTextBudget \<Rightarrow>
        ('s, 'e, 'w, ident \<times> errorTextBudget) act"
  and value_text ::
      "(u64 \<Rightarrow> bool \<Rightarrow> ident) \<Rightarrow> ('s, 'e, 'w, ident) act dvalue \<Rightarrow> errorTextBudget \<Rightarrow>
        ('s, 'e, 'w, ident \<times> errorTextBudget) act"
where
  "budget_text FF NilError b = ret (nil_text, b)"
| "budget_text FF (DError name node) b =
     (if eb_remaining b = 0 then ret (limit_text, b)
      else node_text FF name node (b\<lparr>eb_remaining := eb_remaining b - 1\<rparr>))"
| "node_text FF name NilPointerNode b = ret (nil_text, b)"
| "node_text FF name (CachedNode cause text) b = ret (text, b)"
| "node_text FF name (RenderedNode r) b = safeText FF r b"
| "node_text FF name BrokenNode b = (\<lambda>w. (w, Panic (PVal 0)))"
| "node_text FF name (StoredNode text) b = ret (text, b)"
| "node_text FF name (JoinedNode causes) b = joined_text FF True causes b"
| "node_text FF name (OtherNode method) b =
     (if eb_capture b then bindA method (\<lambda>text. ret (text, b)) else ret (uncaptured name, b))"
| "joined_text FF first [] b = ret ([], b)"
| "joined_text FF first (cause # causes) b =
     bindA (budget_text FF cause b) (\<lambda>(text, b).
       let text = (if first then text else 10 # text) in
       if eb_remaining b = 0
       then ret (if causes \<noteq> [] then text @ 10 # limit_text else text, b)
       else bindA (joined_text FF False causes b) (\<lambda>(rest, b). ret (text @ rest, b)))"
| "safeText FF NilReceiver b = ret (nil_text, b)"
| "safeText FF (FaultText phase state event cause causeText) b =
     bindA (if causeText = [] then budget_text FF cause b else ret (causeText, b)) (\<lambda>(text, b).
     bindA (value_text FF state b) (\<lambda>(s, b).
     bindA (value_text FF event b) (\<lambda>(e, b).
       ret (ascii ''supervised: fault in '' @ sphase_String phase @ ascii '' phase at state '' @ s @
            ascii '' on event '' @ e @ ascii '': '' @ text, b))))"
| "safeText FF (PanicText v) b =
     bindA (value_text FF v b) (\<lambda>(text, b). ret (ascii ''supervised: callback panicked: '' @ text, b))"
| "safeText FF (ViolationText phase reason) b =
     bindA (budget_text FF reason b) (\<lambda>(text, b).
       ret (ascii ''supervised: '' @ sphase_String phase @ ascii '': '' @ text, b))"
| "safeText FF (TimeoutText cause) b =
     bindA (sentinel_text (ascii ''supervised: operation timed out'') b) (\<lambda>(timeout, b).
     bindA (budget_text FF cause b) (\<lambda>(text, b). ret (timeout @ ascii '': '' @ text, b)))"
| "safeText FF (RefusalText from event causes) b =
     bindA (value_text FF event b) (\<lambda>(e, b).
     bindA (value_text FF from b) (\<lambda>(s, b).
     bindA (sentinel_text (ascii ''transition not permitted'') b) (\<lambda>(refused, b).
       let message = ascii ''supervised: '' @ e @ ascii '' in state '' @ s @ ascii '': '' @ refused in
       if length causes > 1 then
         bindA (if filter (\<lambda>e. \<not> is_nil e) (tl causes) = [] then ret (nil_text, b)
                else if eb_remaining b = 0 then ret (limit_text, b)
                else joined_text FF True (filter (\<lambda>e. \<not> is_nil e) (tl causes))
                       (b\<lparr>eb_remaining := eb_remaining b - 1\<rparr>))
           (\<lambda>(text, b). ret (message @ ascii '': '' @ text, b))
       else ret (message, b))))"
| "value_text FF NilValue b = ret (nil_text, b)"
| "value_text FF (ErrorValue e) b = budget_text FF e b"
| "value_text FF (StringValue s) b = ret (s, b)"
| "value_text FF (BoolValue t) b = ret (if t then ascii ''true'' else ascii ''false'', b)"
| "value_text FF (IntValue i) b = ret (FormatInt i, b)"
| "value_text FF (UintValue n) b = ret (decimal n, b)"
| "value_text FF (FloatValue x narrow) b = ret (FF x narrow, b)"
| "value_text FF (ComplexValue re im narrow) b = ret (FormatComplex FF re im narrow, b)"
| "value_text FF (OtherValue name) b = ret (ascii ''<'' @ name @ ascii ''>'', b)"
  by pat_completeness auto

termination
  by (relation "measure (case_sum
        (case_sum (\<lambda>(_, e, _). size e) (\<lambda>(_, _, n, _). size n))
        (case_sum (\<lambda>(_, _, es, _). size_list size es) (case_sum (\<lambda>(_, r, _). size r) (\<lambda>(_, v, _). size v))))")
    (auto simp: size_wrapped)

text \<open>
  A recovered panic leaves the text assigned before it; \<^verbatim>\<open>runtime.Goexit\<close> is not recovered.
\<close>

definition recovering :: "'a \<Rightarrow> ('s, 'e, 'w, 'a) act \<Rightarrow> ('s, 'e, 'w, 'a) act" where
  "recovering a f = (\<lambda>w. case f w of (w', Panic _) \<Rightarrow> (w', Ret a) | r \<Rightarrow> r)"

definition safeErrorText ::
    "(u64 \<Rightarrow> bool \<Rightarrow> ident) \<Rightarrow> ('s, 'e, 'w, ident) act derror \<Rightarrow> ('s, 'e, 'w, ident) act" where
  "safeErrorText FF err =
     (case err of
        NilError \<Rightarrow> ret nil_text
      | DError name _ \<Rightarrow>
          recovering (uncaptured name)
            (bindA (budget_text FF err \<lparr>eb_remaining = 64, eb_capture = False\<rparr>)
               (\<lambda>(text, _). ret text)))"

definition captureErrorText ::
    "(u64 \<Rightarrow> bool \<Rightarrow> ident) \<Rightarrow> ('s, 'e, 'w, ident) act derror \<Rightarrow>
      ('s, 'e, 'w, ('s, 'e, 'w, ident) act derror) act" where
  "captureErrorText FF err =
     (case err of
        NilError \<Rightarrow> ret NilError
      | DError _ (CachedNode _ _) \<Rightarrow> ret err
      | _ \<Rightarrow>
          bindA (safeErrorText FF err) (\<lambda>text.
            let cached = (\<lambda>text. DError (ascii ''*supervised.cachedError'') (CachedNode err text)) in
            recovering (cached text)
              (bindA (budget_text FF err \<lparr>eb_remaining = 64, eb_capture = True\<rparr>)
                 (\<lambda>(text, _). ret (cached text)))))"

section \<open>Rendering that captures nothing runs nothing\<close>

text \<open>Two renderings that do not depend on the world, leave it alone, and agree.\<close>

definition quiet ::
    "('s, 'e, 'w, 'a \<times> errorTextBudget) act \<Rightarrow> ('s, 'e, 'w, 'a \<times> errorTextBudget) act \<Rightarrow> bool" where
  "quiet f g \<longleftrightarrow> (\<exists>r. (\<forall>w. f w = (w, r) \<and> g w = (w, r)) \<and> r \<noteq> Goexit \<and>
     (\<forall>a b. r = Ret (a, b) \<longrightarrow> \<not> eb_capture b))"

lemma quiet_ret: "\<not> eb_capture b \<Longrightarrow> quiet (ret (a, b)) (ret (a, b))"
  by (simp add: quiet_def ret_def)

lemma quiet_panic: "quiet (\<lambda>w. (w, Panic v)) (\<lambda>w. (w, Panic v))"
  by (simp add: quiet_def)

lemma quiet_bindA:
  assumes "quiet f g" "\<And>a b. \<not> eb_capture b \<Longrightarrow> quiet (h (a, b)) (k (a, b))"
  shows "quiet (bindA f h) (bindA g k)"
proof -
  obtain r where r: "\<And>w. f w = (w, r)" "\<And>w. g w = (w, r)" "r \<noteq> Goexit"
    "\<And>a b. r = Ret (a, b) \<Longrightarrow> \<not> eb_capture b"
    using assms(1) unfolding quiet_def by blast
  show ?thesis
  proof (cases r)
    case (Ret x)
    obtain a b where "x = (a, b)" by fastforce
    then have "bindA f h = h (a, b)" "bindA g k = k (a, b)" "\<not> eb_capture b"
      using r Ret by (auto simp: bindA_def)
    then show ?thesis using assms(2) by simp
  next
    case (Panic v)
    then have "bindA f h = (\<lambda>w. (w, Panic v))" "bindA g k = (\<lambda>w. (w, Panic v))"
      using r by (auto simp: bindA_def)
    then show ?thesis by (simp add: quiet_panic)
  qed (use r in simp)
qed

lemma quiet_if: "(p \<Longrightarrow> quiet f g) \<Longrightarrow> (\<not> p \<Longrightarrow> quiet f' g') \<Longrightarrow>
    quiet (if p then f else f') (if p then g else g')"
  by simp

lemma quiet_sentinel: "\<not> eb_capture b \<Longrightarrow> quiet (sentinel_text msg b) (sentinel_text msg b)"
  by (simp add: sentinel_text_def quiet_ret)

lemma is_nil_map [simp]: "is_nil (map_derror f e) = is_nil e"
  by (cases e) simp_all

lemma filter_map_tl:
  "filter (\<lambda>e. \<not> is_nil e) (tl (map (map_derror f) es)) =
   map (map_derror f) (filter (\<lambda>e. \<not> is_nil e) (tl es))"
  by (simp add: filter_map comp_def flip: map_tl)

text \<open>With every \<^verbatim>\<open>Error\<close> method replaced by \<open>m\<close>.\<close>

lemma rendering_quiet:
  "\<not> eb_capture b \<Longrightarrow> quiet (budget_text FF e b) (budget_text FF (map_derror (\<lambda>_. m) e) b)"
  "\<not> eb_capture b \<Longrightarrow> quiet (node_text FF name n b) (node_text FF name (map_dnode (\<lambda>_. m) n) b)"
  "\<not> eb_capture b \<Longrightarrow> quiet (joined_text FF first es b) (joined_text FF first (map (map_derror (\<lambda>_. m)) es) b)"
  "\<not> eb_capture b \<Longrightarrow> quiet (safeText FF r b) (safeText FF (map_renderer (\<lambda>_. m) r) b)"
  "\<not> eb_capture b \<Longrightarrow> quiet (value_text FF v b) (value_text FF (map_dvalue (\<lambda>_. m) v) b)"
proof (induction FF e b and FF name n b and FF first es b and FF r b and FF v b
    rule: budget_text_node_text_joined_text_safeText_value_text.induct)
qed (auto simp: quiet_panic Let_def filter_map_tl
    intro!: quiet_ret quiet_sentinel quiet_bindA quiet_if)

section \<open>Capturing runs at most as many methods as the budget allows\<close>

text \<open>
  \<open>\<mu>\<close> counts what the application's methods do to its world. A rendering is \<open>within\<close> its budget when
  what it counts, and what it leaves of the budget, is not more than the budget it was given.
\<close>

definition once :: "('w \<Rightarrow> nat) \<Rightarrow> ('s, 'e, 'w, 'a) act \<Rightarrow> bool" where
  "once \<mu> m \<longleftrightarrow> (\<forall>w. \<mu> (fst (m w)) \<le> \<mu> w + 1)"

definition within ::
    "('w \<Rightarrow> nat) \<Rightarrow> int \<Rightarrow> errorTextBudget \<Rightarrow> ('s, 'e, 'w, 'a \<times> errorTextBudget) act \<Rightarrow> bool" where
  "within \<mu> n b f \<longleftrightarrow> (\<forall>w. case f w of
       (w', Ret (a, b')) \<Rightarrow> 0 \<le> eb_remaining b' \<and> eb_remaining b' \<le> eb_remaining b \<and>
          int (\<mu> w') + eb_remaining b' \<le> int (\<mu> w) + eb_remaining b + n
     | (w', _) \<Rightarrow> int (\<mu> w') \<le> int (\<mu> w) + eb_remaining b + n)"

lemma within_ret: "0 \<le> eb_remaining b' \<Longrightarrow> eb_remaining b' \<le> eb_remaining b \<Longrightarrow> 0 \<le> n \<Longrightarrow>
    within \<mu> n b (ret (a, b'))"
  by (simp add: within_def ret_def)

lemma within_panic: "0 \<le> eb_remaining b \<Longrightarrow> 0 \<le> n \<Longrightarrow> within \<mu> n b (\<lambda>w. (w, Panic v))"
  by (simp add: within_def)

lemma within_method:
  "once \<mu> m \<Longrightarrow> 0 \<le> eb_remaining b \<Longrightarrow> within \<mu> 1 b (bindA m (\<lambda>text. ret (text, b)))"
  unfolding within_def
proof
  fix w
  assume m: "once \<mu> m" "0 \<le> eb_remaining b"
  obtain w1 r where r: "m w = (w1, r)" by fastforce
  have "\<mu> w1 \<le> \<mu> w + 1" using m(1) r unfolding once_def by (metis fst_conv)
  then show "case bindA m (\<lambda>text. ret (text, b)) w of
       (w', Ret (a, b')) \<Rightarrow> 0 \<le> eb_remaining b' \<and> eb_remaining b' \<le> eb_remaining b \<and>
          int (\<mu> w') + eb_remaining b' \<le> int (\<mu> w) + eb_remaining b + 1
     | (w', _) \<Rightarrow> int (\<mu> w') \<le> int (\<mu> w) + eb_remaining b + 1"
    using m(2) r by (cases r) (auto simp: bindA_def ret_def)
qed

lemma within_bindA:
  assumes "within \<mu> 0 b f" "0 \<le> n"
    "\<And>a b'. 0 \<le> eb_remaining b' \<Longrightarrow> eb_remaining b' \<le> eb_remaining b \<Longrightarrow> within \<mu> n b' (h (a, b'))"
  shows "within \<mu> n b (bindA f h)"
  unfolding within_def
proof
  fix w
  show "case bindA f h w of
       (w', Ret (a, b')) \<Rightarrow> 0 \<le> eb_remaining b' \<and> eb_remaining b' \<le> eb_remaining b \<and>
          int (\<mu> w') + eb_remaining b' \<le> int (\<mu> w) + eb_remaining b + n
     | (w', _) \<Rightarrow> int (\<mu> w') \<le> int (\<mu> w) + eb_remaining b + n"
  proof (cases "f w")
    case (Pair w1 r)
    have f: "case r of Ret (a, b') \<Rightarrow> 0 \<le> eb_remaining b' \<and> eb_remaining b' \<le> eb_remaining b \<and>
          int (\<mu> w1) + eb_remaining b' \<le> int (\<mu> w) + eb_remaining b
        | _ \<Rightarrow> int (\<mu> w1) \<le> int (\<mu> w) + eb_remaining b"
      using spec [OF assms(1) [unfolded within_def], of w] Pair by (auto split: outcome.splits)
    show ?thesis
    proof (cases r)
      case (Ret x)
      obtain a b' where x: "x = (a, b')" by fastforce
      have "within \<mu> n b' (h (a, b'))" using assms(3) f Ret x by simp
      from spec [OF this [unfolded within_def], of w1] show ?thesis
        using f Pair Ret x unfolding bindA_def by (auto split: prod.splits outcome.splits)
    qed (use f Pair assms(2) in \<open>auto simp: bindA_def\<close>)
  qed
qed

lemma within_spent:
  "within \<mu> 1 (b\<lparr>eb_remaining := eb_remaining b - 1\<rparr>) f \<Longrightarrow> within \<mu> 0 b f"
  unfolding within_def by (fastforce split: prod.splits outcome.splits)

lemma within_more: "within \<mu> 0 b f \<Longrightarrow> within \<mu> 1 b f"
  unfolding within_def by (fastforce split: prod.splits outcome.splits)

lemma within_step:
  "within \<mu> 0 (b\<lparr>eb_remaining := eb_remaining b - 1\<rparr>) f \<Longrightarrow> within \<mu> 0 b f"
  by (rule within_spent [OF within_more])

lemma within_sentinel: "0 \<le> eb_remaining b \<Longrightarrow> within \<mu> 0 b (sentinel_text msg b)"
  by (auto simp: sentinel_text_def intro!: within_ret)

lemma in_tl_in: "x \<in> set (tl xs) \<Longrightarrow> x \<in> set xs"
  by (cases xs) simp_all

lemma rendering_within:
  fixes e :: "('s, 'e, 'w, ident) act derror" and d :: "('s, 'e, 'w, ident) act dnode"
    and es :: "('s, 'e, 'w, ident) act derror list" and r :: "('s, 'e, 'w, ident) act renderer"
    and v :: "('s, 'e, 'w, ident) act dvalue"
  shows
  "0 \<le> eb_remaining b \<Longrightarrow> \<forall>m \<in> set_derror e. once \<mu> m \<Longrightarrow> within \<mu> 0 b (budget_text FF e b)"
  "0 \<le> eb_remaining b \<Longrightarrow> \<forall>m \<in> set_dnode d. once \<mu> m \<Longrightarrow> within \<mu> 1 b (node_text FF name d b)"
  "0 \<le> eb_remaining b \<Longrightarrow> \<forall>e \<in> set es. \<forall>m \<in> set_derror e. once \<mu> m \<Longrightarrow>
     within \<mu> 0 b (joined_text FF first es b)"
  "0 \<le> eb_remaining b \<Longrightarrow> \<forall>m \<in> set_renderer r. once \<mu> m \<Longrightarrow> within \<mu> 0 b (safeText FF r b)"
  "0 \<le> eb_remaining b \<Longrightarrow> \<forall>m \<in> set_dvalue v. once \<mu> m \<Longrightarrow> within \<mu> 0 b (value_text FF v b)"
proof (induction FF e b and FF name d b and FF first es b and FF r b and FF v b
    rule: budget_text_node_text_joined_text_safeText_value_text.induct)
  case (17 FF s event causes b)
  let ?es = "filter (\<lambda>e. \<not> is_nil e) (tl causes)"
  have es: "\<forall>e \<in> set ?es. \<forall>m \<in> set_derror e. once \<mu> m" using 17(5) by (auto dest: in_tl_in)
  have vals: "within \<mu> 0 b (value_text FF event b)"
    "\<And>b'. 0 \<le> eb_remaining b' \<Longrightarrow> within \<mu> 0 b' (value_text FF s b')"
    using 17(1, 2, 4, 5) by auto
  have joined: "within \<mu> 0 b' (joined_text FF True ?es (b'\<lparr>eb_remaining := eb_remaining b' - 1\<rparr>))"
    if "0 \<le> eb_remaining b'" "eb_remaining b' \<noteq> 0" "length causes > 1" "?es \<noteq> []" for b'
    by (rule within_step, rule 17(3)) (use that es in auto)
  show ?case
    unfolding safeText.simps Let_def
    by (intro within_bindA order_refl vals within_sentinel)
      (auto intro!: within_bindA within_ret joined vals within_sentinel 17(4))
qed (auto simp: Let_def within_panic within_method
    intro!: within_ret within_sentinel within_bindA intro: within_spent within_more)

section \<open>Properties\<close>

lemma recovering_Ret: "f w = (w', Ret a) \<Longrightarrow> recovering x f w = (w', Ret a)"
  and recovering_Panic: "f w = (w', Panic v) \<Longrightarrow> recovering x f w = (w', Ret x)"
  and recovering_Goexit: "f w = (w', Goexit) \<Longrightarrow> recovering x f w = (w', Goexit)"
  by (simp_all add: recovering_def)

lemma safe_text_quiet:
  fixes m :: "('s, 'e, 'w, ident) act" and err :: "('s, 'e, 'w, ident) act derror"
  shows "\<exists>text. \<forall>w. safeErrorText FF err w = (w, Ret text) \<and>
     safeErrorText FF (map_derror (\<lambda>_. m) err) w = (w, Ret text)"
proof (cases err)
  case (DError name node)
  let ?b = "\<lparr>eb_remaining = 64, eb_capture = False\<rparr>"
  obtain r where r: "\<And>w. budget_text FF err ?b w = (w, r)" "r \<noteq> Goexit"
    "\<And>w. budget_text FF (map_derror (\<lambda>_. m) err) ?b w = (w, r)"
    using rendering_quiet(1) [of ?b FF err m] by (auto simp: quiet_def)
  show ?thesis
    using r unfolding safeErrorText_def
    by (cases r) (auto simp: DError bindA_def ret_def recovering_def)
qed (simp add: safeErrorText_def ret_def)

text \<open>C10. The text of an error that was not captured is found without running application code:
  \<^verbatim>\<open>safeErrorText\<close> returns for every error, in every world, leaves the world alone, does not depend on
  it, and gives the same text whatever the \<^verbatim>\<open>Error\<close> methods inside the error are. Panics of the
  library's renderers on the way are contained.\<close>

theorem safe_text_runs_no_application_code:
  fixes err :: "('s, 'e, 'w, ident) act derror"
  shows "\<exists>text. \<forall>w (m :: ('s, 'e, 'w, ident) act). safeErrorText FF err w = (w, Ret text) \<and>
    safeErrorText FF (map_derror (\<lambda>_. m) err) w = (w, Ret text)"
proof -
  obtain t where t: "safeErrorText FF err = (\<lambda>w. (w, Ret t))"
    using safe_text_quiet [of FF err undefined] by blast
  have "safeErrorText FF (map_derror (\<lambda>_. m) err) w = (w, Ret t)"
    for m :: "('s, 'e, 'w, ident) act" and w
    using safe_text_quiet [of FF err m] by (auto simp: t)
  then show ?thesis using t by auto
qed

text \<open>C11. A captured error keeps its identity and its text. For an error that is not nil the capture
  never panics; unless an \<^verbatim>\<open>Error\<close> method stops the goroutine it returns an error that unwraps to the
  original, or the original itself when that was captured before. The text is the one rendered with
  the error's own methods, or the safe one if they panicked. From then on the text is fixed: it is
  read without running anything, and capturing again changes nothing.\<close>

theorem capture_keeps_identity_and_text:
  fixes err :: "('s, 'e, 'w, ident) act derror"
  assumes "err \<noteq> NilError" "captureErrorText FF err w = (w', r)"
  shows "(\<forall>v. r \<noteq> Panic v) \<and>
    (\<forall>c. r = Ret c \<longrightarrow> (\<exists>name cause text. c = DError name (CachedNode cause text) \<and>
       (c = err \<and> w' = w \<or> cause = err \<and>
          (case budget_text FF err \<lparr>eb_remaining = 64, eb_capture = True\<rparr> w of
             (w1, Ret (t, _)) \<Rightarrow> w' = w1 \<and> text = t
           | (w1, Panic _) \<Rightarrow> w' = w1 \<and> safeErrorText FF err w = (w, Ret text)
           | (w1, Goexit) \<Rightarrow> False)) \<and>
       (\<forall>w2. captureErrorText FF c w2 = (w2, Ret c) \<and> safeErrorText FF c w2 = (w2, Ret text))))"
proof -
  have frozen: "captureErrorText FF c w2 = (w2, Ret c) \<and> safeErrorText FF c w2 = (w2, Ret t)"
    if "c = DError name (CachedNode cause t)"
    for c :: "('s, 'e, 'w, ident) act derror" and name cause t and w2 :: 'w
    by (simp add: that captureErrorText_def safeErrorText_def recovering_def bindA_def ret_def)
  obtain name node where err: "err = DError name node" using assms(1) by (cases err) auto
  show ?thesis
  proof (cases "\<exists>cause text. node = CachedNode cause text")
    case True
    then have "captureErrorText FF err w = (w, Ret err)"
      by (auto simp: err captureErrorText_def ret_def)
    then show ?thesis using assms(2) True frozen err by auto
  next
    case False
    let ?cached = "\<lambda>text. DError (ascii ''*supervised.cachedError'') (CachedNode err text)"
    let ?b = "\<lparr>eb_remaining = 64, eb_capture = True\<rparr>"
    obtain t where safe: "safeErrorText FF err w = (w, Ret t)"
      using safe_text_quiet [of FF err] by blast
    have run: "(w', r) = recovering (?cached t)
        (bindA (budget_text FF err ?b) (\<lambda>(text, _). ret (?cached text))) w"
      using False assms(2) safe unfolding captureErrorText_def err
      by (cases node) (auto simp: bindA_def)
    obtain w1 q where q: "budget_text FF err ?b w = (w1, q)" by fastforce
    show ?thesis
      using run q safe frozen by (cases q) (auto simp: recovering_def bindA_def ret_def)
  qed
qed

text \<open>C12. A capture runs a bounded number of \<^verbatim>\<open>Error\<close> methods, however many errors are joined or
  wrapped in the one it renders: if each method in the error, run once, counts at most once in the
  application's world, then a capture counts at most 64.\<close>

theorem capture_runs_at_most_64_methods:
  fixes err :: "('s, 'e, 'w, ident) act derror" and \<mu> :: "'w \<Rightarrow> nat"
  assumes "\<forall>m \<in> set_derror err. \<forall>w. \<mu> (fst (m w)) \<le> \<mu> w + 1"
  shows "\<mu> (fst (captureErrorText FF err w)) \<le> \<mu> w + 64"
proof (cases "\<exists>name node. err = DError name node \<and> (\<forall>cause text. node \<noteq> CachedNode cause text)")
  case True
  let ?b = "\<lparr>eb_remaining = 64, eb_capture = True\<rparr>"
  let ?cached = "\<lambda>text. DError (ascii ''*supervised.cachedError'') (CachedNode err text)"
  obtain t where safe: "safeErrorText FF err w = (w, Ret t)"
    using safe_text_quiet [of FF err] by blast
  have run: "captureErrorText FF err w = recovering (?cached t)
      (bindA (budget_text FF err ?b) (\<lambda>(text, _). ret (?cached text))) w"
    using True safe unfolding captureErrorText_def
    by (auto simp: bindA_def split: dnode.split)
  have "within \<mu> 0 ?b (budget_text FF err ?b)"
    using rendering_within(1) [of ?b err \<mu> FF] assms by (simp add: once_def)
  from spec [OF this [unfolded within_def], of w] show ?thesis
    unfolding run by (auto simp: recovering_def bindA_def ret_def split: prod.splits outcome.splits)
next
  case False
  then show ?thesis
    by (cases err) (auto simp: captureErrorText_def ret_def)
qed

section \<open>Witnesses\<close>

definition text_demo :: "(nat, nat, nat, ident) act derror" where
  "text_demo = DError [74] (JoinedNode [DError [65] (OtherNode (\<lambda>w. (w + 1, Ret [104]))),
     DError [66] (OtherNode (\<lambda>w. (w + 1, Ret [105])))])"

lemma capture_keeps_identity_and_text_witness:
  "\<exists>c. captureErrorText (\<lambda>_ _. []) text_demo 0 = (2, Ret c) \<and>
     safeErrorText (\<lambda>_ _. []) c 7 = (7, Ret [104, 10, 105])"
proof -
  let ?c = "DError (ascii ''*supervised.cachedError'') (CachedNode text_demo [104, 10, 105])"
  have "captureErrorText (\<lambda>_ _. []) text_demo 0 = (2, Ret ?c)"
    by (simp add: captureErrorText_def safeErrorText_def text_demo_def recovering_def bindA_def ret_def)
  moreover have "text_demo \<noteq> NilError" by (simp add: text_demo_def)
  ultimately show ?thesis
    using capture_keeps_identity_and_text [of text_demo "\<lambda>_ _. []" 0 2 "Ret ?c"] by auto
qed

lemma capture_runs_at_most_64_methods_witness:
  "fst (captureErrorText (\<lambda>_ _. []) text_demo 5) \<le> 5 + 64 \<and> (\<exists>m \<in> set_derror text_demo. m 0 = (1, Ret [104]))"
  using capture_runs_at_most_64_methods [of text_demo "\<lambda>n. n" "\<lambda>_ _. []" 5]
  by (auto simp: text_demo_def)

end
