(* ===== verification/Spec2Isabelle.thy ===== *)
theory Spec2Isabelle
  imports Instance Chart_Fire Memory_Store Queued_System Super_External Super_Settle Super_Text
begin

text \<open>
  A verification development for the Go module \<^verbatim>\<open>statemachine\<close>: flat machines, their
  instances, hierarchical statecharts, persisted transitions, a run-to-completion queue and
  the supervised execution of strict definitions. This theory imports the others and holds no definition.

  \<^bold>\<open>The parts and how they interact.\<close>
  \<^item> \<open>Prelude\<close>: Go errors as the datatype \<open>err\<close> with \<^verbatim>\<open>errors.Is\<close> and \<^verbatim>\<open>errors.Join\<close>;
    application callbacks as state transformers \<open>act\<close> over an arbitrary world, which return,
    panic or stop their goroutine; maps with slice values.
  \<^item> \<open>Keycheck\<close> (\<^verbatim>\<open>internal/keycheck\<close>): Go types and values as datatypes, Go's \<^verbatim>\<open>==\<close> with its
    panic, and the checks that decide whether a key type and a key are safe. The other theories
    take the result as a \<open>keyops\<close> record; the locale \<open>key_type\<close> is its contract.
  \<^item> \<open>Observers\<close> (\<^verbatim>\<open>internal/observer\<close>, \<^verbatim>\<open>observe.go\<close>): isolated, ordered delivery of committed
    position changes, and the observer combinators.
  \<^item> \<open>Machine\<close> (\<^verbatim>\<open>statemachine.go\<close>): \<open>Compile\<close>, \<open>Next\<close>, \<open>fire\<close>, \<open>Permitted\<close> on a transition table.
  \<^item> \<open>Instance\<close> (\<^verbatim>\<open>instance.go\<close>): one state owner. \<open>Fire\<close> is the sequential composition of its
    lock regions; \<open>sys_step\<close> interleaves the regions and callbacks of any number of calls.
  \<^item> \<open>Chart_Shape\<close>, \<open>Chart_Position\<close>, \<open>Chart_Paths\<close>, \<open>Chart_Compile\<close>, \<open>Chart\<close>, \<open>Chart_Runs\<close>,
    \<open>Chart_Fire\<close> (\<^verbatim>\<open>statechart/\<close>): the hierarchy and its cycle search; preorder positions; exit
    and entry paths; \<^verbatim>\<open>Compile\<close>; selection and the lifecycle of a transition; \<^verbatim>\<open>Fire\<close>,
    \<^verbatim>\<open>Permitted\<close>, \<^verbatim>\<open>Arrows\<close>; their properties.
  \<^item> \<open>Persist\<close>, \<open>Memory_Store\<close> (\<^verbatim>\<open>persist/\<close>): one transition inside a store's unit of work, for a
    store that is any tree of actions; the versioned in-memory store and the locale \<open>versioned\<close>.
  \<^item> \<open>Queued\<close>, \<open>Queued_Runs\<close>, \<open>Queued_System\<close> (\<^verbatim>\<open>queued/\<close>): cascades, the drain goroutine, callers;
    the locale \<open>world_relation\<close> carries what callbacks may do to a runtime through a run.
  \<^item> \<open>Super_Types\<close>, \<open>Super_Definition\<close>, \<open>Super_Compile\<close> (\<^verbatim>\<open>supervised/definition.go\<close>,
    \<^verbatim>\<open>supervised/result.go\<close>): the types of a supervised execution, strict definitions and their
    compiler with its reachability fixpoint.
  \<^item> \<open>Super_State\<close>, \<open>Super_Locked\<close> (\<^verbatim>\<open>supervised/execution.go\<close>, \<^verbatim>\<open>supervised/record.go\<close>): the state of
    a Supervisor, its constructors, sequence stamps and the history of records; what each function
    does while it holds the lock. \<open>Super_Record\<close> holds the property of the history.
  \<^item> \<open>Super_Threads\<close>: goroutines as programs of atomic pieces, their interleavings, and the locale
    \<open>tokens\<close>, the proof rule for an invariant over all of them.
  \<^item> \<open>Super_Drivers\<close>, \<open>Super_Decisions\<close> (\<^verbatim>\<open>supervised/delivery.go\<close>, \<^verbatim>\<open>supervised/execution.go\<close>): the
    functions that release the lock around callbacks and adapters, as programs; the public calls
    Start, Issue, Verify, Trip, Recover, Adjudicate, the expiry of a verification, the queries.
  \<^item> \<open>Super_Tokens\<close>, \<open>Super_Regions\<close>, \<open>Super_Programs\<close>, \<open>Super_System\<close>: the invariant of a
    Supervisor and what a step may change, the interpretation of \<open>tokens\<close>, its preservation by
    every lock region and every program, and the properties of any interleaving.
  \<^item> \<open>Super_Alone\<close>: what a call does when nothing interferes. \<open>Super_Restore\<close>: a snapshot of any
    moment can be restored, with what is in doubt. \<open>Super_External\<close>: an external transition with
    its Journal, from Issue to the commit after Verify. \<open>Super_Settle\<close>: an adjudication, from a
    latched fault to Ready.
  \<^item> \<open>Super_Views\<close> (\<^verbatim>\<open>supervised/dot.go\<close> and the \<^verbatim>\<open>String\<close> methods): names, the views of a Machine,
    its DOT text. \<open>Super_Text\<close> (\<^verbatim>\<open>supervised/error_text.go\<close>): the text of an error, rendered within
    a budget and, unless it is captured in a callback, without running the application's methods.

  \<^bold>\<open>State and operations.\<close> A Go struct is a record with the struct's fields, a method that holds
  the lock is a function on that record, and a method that releases it around callbacks is the
  composition of its lock regions. Callbacks see and change a world; where they can reach the
  component itself (a queued runtime, the in-memory store) its mutable fields are part of that
  world. Errors are values; a panic and \<^verbatim>\<open>runtime.Goexit\<close> are outcomes of an action. A Supervisor
  shares operations, contexts and channels between goroutines: they live in heaps of its state,
  indexed by pointers. A public call is a program of pieces; a step of the system runs one piece of
  one goroutine, starts a call or the callback of an armed timer, ends a context, or changes the
  application's world. So a deadline may strike between any two pieces.

  \<^bold>\<open>What the properties show.\<close> Compilers accept exactly the definitions that obey their rules and
  build their tables. Selection takes the first applicable row, in a chart up the lineage.
  A destination is published exactly when every effect succeeded, and the in-flight marker is
  cleared on every outcome. In every interleaving of calls at most one is in flight, no committed
  update is lost and observations are numbered consecutively. Delivery to observers is total and
  isolated. A persisted transition runs the machine at most once whatever the store does, and the
  in-memory store loses no update. A queued cascade ends within its event limit, roots are
  executed in admission order and each is settled. A supervised machine routes or refuses every
  event in every state. Whatever interleaves, a Supervisor's mode matches what it stores and no
  nil pointer is read; operations exclude each other, late callbacks and adapters included; the
  first fault freezes state and revision until it is adjudicated; the history keeps the newest
  records; state and revision change only in a commit with nothing left in doubt; an undisturbed
  Issue whose callbacks pass commits, an external one after the Journal was told and the Verify
  action agreed; an undisturbed adjudication settles the fault as decided; and Restore accepts every
  snapshot. Rendering an error outside a callback runs no application code, and inside one at most
  64 methods, whose text is then fixed.

  \<^bold>\<open>Bounds and fuel.\<close> The climb through a hierarchy has as fuel the number of nodes, which is
  enough because a compiled hierarchy has no cycle. A cascade has as fuel its event limit, which
  is enough because each iteration pops an accepted event (theorem on cascades). The supervised
  reachability loop is proved to terminate by the states left to add. 64-bit counters are machine
  words; where wrap-around would matter (revisions of the in-memory store) the bound is a
  hypothesis of the property. Run-event and root counts are integers, bounded by their limits.

  \<^bold>\<open>Not modelled.\<close> The text of an error is not part of a Supervisor's state machine: there the text
  recorded for an error is a parameter, which \<open>Super_Text\<close> justifies by its theorem that the text does
  not depend on the world, and \<^verbatim>\<open>captureErrorText\<close>, which keeps the identity of an error, is the
  identity. Stack texts. The durations given to timers: a context may end, and an armed timer
  fire, at any time, so the properties hold for every clock. The Go scheduler inside a callback (an
  observer under a deadline takes its effect as a parameter); data races on values the application
  shares. \<^verbatim>\<open>persist/persisttest\<close> and \<^verbatim>\<open>integration/sqlite\<close> are test suites; \<^verbatim>\<open>MustCompile\<close> only
  panics with the error of \<^verbatim>\<open>Compile\<close>.
\<close>

end
